(* ===== verification/Sponge_Prelude.thy ===== *)
theory Sponge_Prelude
  imports Main "HOL-Library.Word"
begin

text \<open>
  Shared vocabulary of the development: the byte and integer types of the program, the errors a
  C++ call can end with, 64-bit unsigned arithmetic, the string operations of the standard
  library the code uses, and a generic contract for components driven by a sequence of calls.
\<close>

section \<open>Types\<close>

type_synonym byte = "8 word"
type_synonym bytes = "byte list"
type_synonym size_t = nat

text \<open>
  What a call can end with instead of a value: an exception, where a failed call of the operating
  system is reported with an error category, the attempted call and an error number, or an
  operation the language leaves undefined (an access through a null pointer or outside an array, a
  shift by more than the width).
\<close>

datatype cpp_error =
    OutOfRange
  | LengthError
  | InvalidArgument
  | BadOptionalAccess
  | RuntimeError string
  | TaggedError string string int
  | NullDeref
  | OutOfBounds
  | BadShift

type_synonym 'a res = "cpp_error + 'a"

named_theorems res_simps \<open>evaluation of the error monad\<close>
named_theorems u64_simps \<open>64-bit arithmetic that does not wrap\<close>
named_theorems sponge_eval \<open>evaluation of the model on concrete inputs\<close>

section \<open>The error monad\<close>

fun rbind :: "'e + 'a \<Rightarrow> ('a \<Rightarrow> 'e + 'b) \<Rightarrow> 'e + 'b" where
  "rbind (Inl e) f = Inl e"
| "rbind (Inr a) f = f a"

lemma rbind_weak_cong: "m = m' \<Longrightarrow> rbind m f = rbind m' f"
  by simp

lemma rbind_cong: "m = m' \<Longrightarrow> (\<And>x. m' = Inr x \<Longrightarrow> f x = g x) \<Longrightarrow> rbind m f = rbind m' g"
  by (cases m') simp_all

lemma rbind_Inr_iff: "rbind m f = Inr y \<longleftrightarrow> (\<exists>x. m = Inr x \<and> f x = Inr y)"
  by (cases m) auto

lemma rbind_Inr_right [simp]: "rbind m Inr = m"
  by (cases m) auto

lemma rbind_assoc: "rbind (rbind m f) g = rbind m (\<lambda>x. rbind (f x) g)"
  by (cases m) auto

text \<open>Total correctness of a computation: it does not throw, and its value satisfies a condition.\<close>

definition returns :: "'e + 'a \<Rightarrow> ('a \<Rightarrow> bool) \<Rightarrow> bool" where
  "returns m Q \<longleftrightarrow> (\<exists>x. m = Inr x \<and> Q x)"

lemma returns_simps [simp]:
  "returns (Inr x) Q = Q x" "returns (Inl e) Q = False"
  "returns (rbind m f) Q = returns m (\<lambda>x. returns (f x) Q)"
  by (auto simp: returns_def rbind_Inr_iff)

lemma returns_mono: "returns m P \<Longrightarrow> (\<And>x. P x \<Longrightarrow> Q x) \<Longrightarrow> returns m Q"
  by (auto simp: returns_def)

lemma returnsD: "returns m Q \<Longrightarrow> \<exists>x. m = Inr x \<and> Q x"
  by (simp add: returns_def)

text \<open>Partial correctness: if the computation does not throw, its value satisfies a condition.\<close>

definition whenever :: "'e + 'a \<Rightarrow> ('a \<Rightarrow> bool) \<Rightarrow> bool" where
  "whenever m Q \<longleftrightarrow> (\<forall>x. m = Inr x \<longrightarrow> Q x)"

lemma whenever_simps [simp]:
  "whenever (Inr x) Q = Q x" "whenever (Inl e) Q = True"
  "whenever (rbind m f) Q = whenever m (\<lambda>x. whenever (f x) Q)"
  by (auto simp: whenever_def rbind_Inr_iff)

lemma whenever_mono: "whenever m P \<Longrightarrow> (\<And>x. P x \<Longrightarrow> Q x) \<Longrightarrow> whenever m Q"
  by (auto simp: whenever_def)

lemma wheneverD: "whenever m Q \<Longrightarrow> m = Inr x \<Longrightarrow> Q x"
  by (simp add: whenever_def)

lemma whenever_if: "(b \<Longrightarrow> whenever x Q) \<Longrightarrow> (\<not> b \<Longrightarrow> whenever y Q) \<Longrightarrow> whenever (if b then x else y) Q"
  by simp

section \<open>64-bit unsigned arithmetic\<close>

definition W64 :: nat where
  "W64 = 2 ^ 64"

definition add64 :: "nat \<Rightarrow> nat \<Rightarrow> nat" where
  "add64 a b = (a + b) mod W64"

definition sub64 :: "nat \<Rightarrow> nat \<Rightarrow> nat" where
  "sub64 a b = nat ((int a - int b) mod int W64)"

definition mul64 :: "nat \<Rightarrow> nat \<Rightarrow> nat" where
  "mul64 a b = (a * b) mod W64"

lemmas [sponge_eval] = W64_def add64_def sub64_def mul64_def

lemma W64_pos [simp]: "0 < W64"
  by (simp add: W64_def)

lemma W64_gt [simp]: "4294967296 < W64" "Suc 0 < W64" "1 < W64"
  by (simp_all add: W64_def)

lemma add64_small [u64_simps]: "a + b < W64 \<Longrightarrow> add64 a b = a + b"
  by (simp add: add64_def)

lemma sub64_small [u64_simps]:
  assumes "b \<le> a" "a < W64"
  shows "sub64 a b = a - b"
proof -
  have "(int a - int b) mod int W64 = int (a - b)"
    using assms by (simp add: of_nat_diff)
  then show ?thesis
    by (simp add: sub64_def)
qed

lemma mul64_small [u64_simps]: "a * b < W64 \<Longrightarrow> mul64 a b = a * b"
  by (simp add: mul64_def)

lemma add64_less [simp]: "add64 a b < W64"
  by (simp add: add64_def)

lemma sub64_less [simp]: "sub64 a b < W64"
  by (simp add: sub64_def nat_less_iff)

lemma add64_mod_left [simp]: "add64 (a mod W64) b = add64 a b"
  by (simp add: add64_def mod_add_left_eq)

lemma add64_0 [simp]: "a < W64 \<Longrightarrow> add64 a 0 = a"
  by (simp add: add64_def)

lemma add64_add64 [simp]: "add64 (add64 a b) c = add64 a (b + c)"
  by (simp add: add64_def mod_add_left_eq add.assoc)

lemma sub64_0 [simp]: "a < W64 \<Longrightarrow> sub64 a 0 = a"
  by (simp add: u64_simps)

section \<open>Standard library strings\<close>

text \<open>
  \<open>std::string::substr\<close> and \<open>std::string_view::substr\<close>: a start position beyond the end
  throws \<open>std::out_of_range\<close>, a count that is too large is clipped.
\<close>

definition substr :: "'a list \<Rightarrow> size_t \<Rightarrow> size_t \<Rightarrow> 'a list res" where
  "substr s pos n = (if length s < pos then Inl OutOfRange else Inr (take n (drop pos s)))"

text \<open>\<open>std::string::resize\<close>: cut off, or fill up with zero bytes.\<close>

definition string_resize :: "bytes \<Rightarrow> size_t \<Rightarrow> bytes" where
  "string_resize s n = take n s @ replicate (n - length s) 0"

lemmas [sponge_eval] = substr_def string_resize_def

lemma substr_ok [res_simps]: "pos \<le> length s \<Longrightarrow> substr s pos n = Inr (take n (drop pos s))"
  by (simp add: substr_def)

section \<open>Standard library binary search\<close>

text \<open>
  \<open>std::lower_bound\<close> and \<open>std::upper_bound\<close> both look for the partition point of a
  predicate by halving: the position of the first element that does not satisfy it.
\<close>

function bisect :: "('a \<Rightarrow> bool) \<Rightarrow> 'a list \<Rightarrow> nat \<Rightarrow> nat \<Rightarrow> nat" where
  "bisect p xs first len =
     (if len = 0 then first
      else let half = len div 2; mid = first + half in
        if p (xs ! mid) then bisect p xs (Suc mid) (len - half - 1)
        else bisect p xs first half)"
  by pat_completeness auto
termination
  by (relation "measure (\<lambda>(p, xs, first, len). len)") auto

declare bisect.simps [simp del]

definition partition_point :: "('a \<Rightarrow> bool) \<Rightarrow> 'a list \<Rightarrow> nat" where
  "partition_point p xs = bisect p xs 0 (length xs)"

definition partitioned :: "('a \<Rightarrow> bool) \<Rightarrow> 'a list \<Rightarrow> bool" where
  "partitioned p xs \<longleftrightarrow> (\<forall>i j. i \<le> j \<longrightarrow> j < length xs \<longrightarrow> p (xs ! j) \<longrightarrow> p (xs ! i))"

lemma partitionedD:
  "partitioned p xs \<Longrightarrow> p (xs ! j) \<Longrightarrow> j < length xs \<Longrightarrow> i \<le> j \<Longrightarrow> p (xs ! i)"
  unfolding partitioned_def by blast

lemma bisect_0: "bisect p xs first 0 = first"
  by (subst bisect.simps) simp

lemma bisect_correct:
  assumes "partitioned p xs" "first + len \<le> length xs"
    "\<And>i. i < first \<Longrightarrow> p (xs ! i)"
    "\<And>i. first + len \<le> i \<Longrightarrow> i < length xs \<Longrightarrow> \<not> p (xs ! i)"
  shows "bisect p xs first len \<le> length xs \<and> (\<forall>i < bisect p xs first len. p (xs ! i)) \<and>
    (\<forall>i. bisect p xs first len \<le> i \<longrightarrow> i < length xs \<longrightarrow> \<not> p (xs ! i))"
  using assms
proof (induction p xs first len rule: bisect.induct)
  case (1 p xs first len)
  show ?case
  proof (cases "len = 0")
    case True
    then show ?thesis
      using "1.prems" by (simp add: bisect_0)
  next
    case False
    define mid where "mid = first + len div 2"
    have mid: "mid < length xs"
      using False "1.prems"(2) by (simp add: mid_def)
    show ?thesis
    proof (cases "p (xs ! mid)")
      case True
      have eq: "bisect p xs first len = bisect p xs (Suc mid) (len - len div 2 - 1)"
        using False True by (subst bisect.simps) (simp add: Let_def mid_def)
      have end_eq: "Suc mid + (len - len div 2 - 1) = first + len"
        using False by (simp add: mid_def)
      show ?thesis
        unfolding eq
      proof (rule "1.IH"(1) [OF False refl mid_def True "1.prems"(1)])
        show "p (xs ! i)" if "i < Suc mid" for i
          by (rule partitionedD [OF "1.prems"(1) True mid]) (use that in simp)
      qed (use "1.prems"(2,4) in \<open>simp_all only: end_eq not_False_eq_True\<close>)
    next
      case pf: False
      have eq: "bisect p xs first len = bisect p xs first (len div 2)"
        using False pf by (subst bisect.simps) (simp add: Let_def mid_def)
      show ?thesis
        unfolding eq
      proof (rule "1.IH"(2) [OF False refl mid_def pf "1.prems"(1)])
        show "\<not> p (xs ! i)" if "first + len div 2 \<le> i" "i < length xs" for i
          using partitionedD [OF "1.prems"(1), of i mid] pf that by (auto simp: mid_def)
      qed (use "1.prems"(2,3) in simp_all)
    qed
  qed
qed

lemma partition_point_eq:
  assumes "partitioned p xs"
  shows "partition_point p xs = length (takeWhile p xs)"
proof -
  let ?b = "partition_point p xs"
  have b: "?b \<le> length xs" "\<And>i. i < ?b \<Longrightarrow> p (xs ! i)"
    "\<And>i. ?b \<le> i \<Longrightarrow> i < length xs \<Longrightarrow> \<not> p (xs ! i)"
    using bisect_correct [OF assms, of 0 "length xs"] by (auto simp: partition_point_def)
  have "takeWhile p xs = take ?b xs"
  proof (rule takeWhile_eq_take_P_nth)
    show "p (xs ! i)" if "i < ?b" "i < length xs" for i
      using b(2) that by simp
    show "\<not> p (xs ! ?b)" if "?b < length xs"
      using b(3) that by simp
  qed
  then show ?thesis
    using b(1) by simp
qed

lemma partition_point_append:
  assumes "\<And>x. x \<in> set xs \<Longrightarrow> p x" "\<And>y. y \<in> set ys \<Longrightarrow> \<not> p y"
  shows "partition_point p (xs @ ys) = length xs"
proof -
  have "partitioned p (xs @ ys)"
    unfolding partitioned_def
  proof (intro allI impI)
    fix i j
    assume "i \<le> j" "j < length (xs @ ys)" "p ((xs @ ys) ! j)"
    moreover from this have "j < length xs"
      using assms(2) [of "ys ! (j - length xs)"] by (auto simp: nth_append split: if_splits)
    ultimately show "p ((xs @ ys) ! i)"
      using assms(1) [of "xs ! i"] by (simp add: nth_append)
  qed
  moreover have "takeWhile p (xs @ ys) = xs"
    using assms by (cases ys) auto
  ultimately show ?thesis
    by (simp add: partition_point_eq)
qed

section \<open>Components driven by a sequence of calls\<close>

fun run_ops :: "('s \<Rightarrow> 'o \<Rightarrow> 'e + 's) \<Rightarrow> 's \<Rightarrow> 'o list \<Rightarrow> 'e + 's" where
  "run_ops step s [] = Inr s"
| "run_ops step s (c # cs) = rbind (step s c) (\<lambda>s'. run_ops step s' cs)"

lemma run_ops_append:
  "run_ops step s (xs @ ys) = rbind (run_ops step s xs) (\<lambda>s'. run_ops step s' ys)"
  by (induction xs arbitrary: s) (auto simp: rbind_assoc)

text \<open>A call sequence is admissible when each call meets its precondition in the state it finds.\<close>

fun admissible :: "('s \<Rightarrow> 'o \<Rightarrow> 'e + 's) \<Rightarrow> ('s \<Rightarrow> 'o \<Rightarrow> bool) \<Rightarrow> 's \<Rightarrow> 'o list \<Rightarrow> bool" where
  "admissible step ok s [] = True"
| "admissible step ok s (c # cs) =
    (ok s c \<and> (case step s c of Inl e \<Rightarrow> True | Inr s' \<Rightarrow> admissible step ok s' cs))"

text \<open>
  The contract of a component: an invariant that every admissible call keeps, and no admissible
  call throws. A client that only issues admissible calls never sees an exception.
\<close>

locale safe_component =
  fixes step :: "'s \<Rightarrow> 'o \<Rightarrow> 'e + 's"
    and ok :: "'s \<Rightarrow> 'o \<Rightarrow> bool"
    and inv :: "'s \<Rightarrow> bool"
  assumes step_safe: "inv s \<Longrightarrow> ok s c \<Longrightarrow> \<exists>s'. step s c = Inr s' \<and> inv s'"
begin

lemma run_safe: "inv s \<Longrightarrow> admissible step ok s cs \<Longrightarrow> \<exists>s'. run_ops step s cs = Inr s' \<and> inv s'"
proof (induction cs arbitrary: s)
  case Nil
  then show ?case by simp
next
  case (Cons c cs)
  then obtain s' where "step s c = Inr s'" "inv s'"
    using step_safe by fastforce
  with Cons show ?case
    by simp
qed

lemma run_keeps: "inv s \<Longrightarrow> admissible step ok s cs \<Longrightarrow> run_ops step s cs = Inr s' \<Longrightarrow> inv s'"
  using run_safe by fastforce

end

text \<open>A property of the state that no call takes away again, whether admissible or not.\<close>

locale stable_component =
  fixes step :: "'s \<Rightarrow> 'o \<Rightarrow> 'e + 's"
    and stable :: "'s \<Rightarrow> bool"
  assumes step_stable: "stable s \<Longrightarrow> whenever (step s c) stable"
begin

lemma run_stable: "stable s \<Longrightarrow> whenever (run_ops step s cs) stable"
proof (induction cs arbitrary: s)
  case (Cons c cs)
  show ?case
    using whenever_mono [OF step_stable [OF Cons.prems], OF Cons.IH] by simp
qed simp

end

end
