(* ===== verification/Wrapping_Integers.thy ===== *)
theory Wrapping_Integers
  imports Sponge_Prelude
begin

text \<open>
  The 32-bit sequence numbers of \<open>libsponge/wrapping_integers.hh\<close> and \<open>wrapping_integers.cc\<close>:
  the class \<open>WrappingInt32\<close> with its operators, and the two conversions \<open>wrap\<close> and
  \<open>unwrap\<close> between relative 32-bit and absolute 64-bit sequence numbers. All values keep their
  machine width.
\<close>

section \<open>The class and its operators\<close>

datatype WrappingInt32 = WrappingInt32 (raw_value: "32 word")

definition wrapping_diff :: "WrappingInt32 \<Rightarrow> WrappingInt32 \<Rightarrow> int" where
  "wrapping_diff a b = sint (raw_value a - raw_value b)"

definition wrapping_add :: "WrappingInt32 \<Rightarrow> 32 word \<Rightarrow> WrappingInt32" where
  "wrapping_add a b = WrappingInt32 (raw_value a + b)"

definition wrapping_sub :: "WrappingInt32 \<Rightarrow> 32 word \<Rightarrow> WrappingInt32" where
  "wrapping_sub a b = wrapping_add a (- b)"

definition wrapping_less :: "WrappingInt32 \<Rightarrow> WrappingInt32 \<Rightarrow> bool" where
  "wrapping_less a b \<longleftrightarrow> raw_value a < raw_value b"

instantiation WrappingInt32 :: linorder
begin

definition less_WrappingInt32 :: "WrappingInt32 \<Rightarrow> WrappingInt32 \<Rightarrow> bool" where
  "a < b \<longleftrightarrow> wrapping_less a b"

definition less_eq_WrappingInt32 :: "WrappingInt32 \<Rightarrow> WrappingInt32 \<Rightarrow> bool" where
  "a \<le> b \<longleftrightarrow> raw_value a \<le> raw_value b"

instance
  by standard (auto simp: less_WrappingInt32_def wrapping_less_def less_eq_WrappingInt32_def intro: WrappingInt32.expand)

end

section \<open>Conversions\<close>

definition wrap :: "64 word \<Rightarrow> WrappingInt32 \<Rightarrow> WrappingInt32" where
  "wrap n isn = WrappingInt32 (ucast (ucast (raw_value isn) + n))"

text \<open>
  In \<open>unwrap\<close> the literal \<open>1 << 31\<close> has type \<open>int\<close>, so its value is the most negative
  32-bit integer, sign-extended when it meets the 64-bit checkpoint.
\<close>

definition int_shl_1_31 :: "64 word" where
  "int_shl_1_31 = word_of_int (sint (push_bit 31 (1 :: 32 word)))"

definition unwrap :: "WrappingInt32 \<Rightarrow> WrappingInt32 \<Rightarrow> 64 word \<Rightarrow> 64 word" where
  "unwrap n isn checkpoint =
    (let lower32 = word_of_int (wrapping_diff n isn) :: 32 word;
         upper32_1 = ucast (drop_bit 32 (checkpoint + int_shl_1_31)) :: 32 word;
         upper32_2 = ucast (drop_bit 32 (checkpoint - int_shl_1_31)) :: 32 word;
         result1 = push_bit 32 (1 * ucast upper32_1) + ucast lower32;
         result2 = push_bit 32 (1 * ucast upper32_2) + ucast lower32
     in if max result1 checkpoint - min result1 checkpoint < max result2 checkpoint - min result2 checkpoint
        then result1 else result2)"

section \<open>Values of the conversions\<close>

lemma int_shl_1_31_eq: "int_shl_1_31 = - 2147483648"
  by (simp add: int_shl_1_31_def)

lemma uint_join32:
  "uint (push_bit 32 (ucast (u :: 32 word)) + ucast (l :: 32 word) :: 64 word) = uint u * 4294967296 + uint l"
proof -
  have u: "0 \<le> uint u" "uint u < 4294967296" and l: "0 \<le> uint l" "uint l < 4294967296"
    using uint_bounded [of u] uint_bounded [of l] by simp_all
  have "uint (ucast u * 4294967296 :: 64 word) = uint u * 4294967296"
    using u by (simp add: uint_word_ariths unsigned_ucast_eq take_bit_eq_mod)
  then show ?thesis
    using u l by (simp add: push_bit_eq_mult uint_word_ariths unsigned_ucast_eq take_bit_eq_mod)
qed

lemma uint_high32: "uint (ucast (drop_bit 32 (c :: 64 word)) :: 32 word) = uint c div 4294967296"
proof -
  have "uint c < 18446744073709551616" "0 \<le> uint c"
    using uint_bounded [of c] by simp_all
  then have "uint c div 4294967296 < 4294967296" "0 \<le> uint c div 4294967296"
    by (simp_all add: div_int_pos_iff)
  then show ?thesis
    by (simp add: unsigned_ucast_eq take_bit_eq_mod drop_bit_eq_div uint_div)
qed

lemma uint_low32: "uint (ucast (c :: 64 word) :: 32 word) = uint c mod 4294967296"
  by (simp add: unsigned_ucast_eq take_bit_eq_mod)

lemma ucast_add_low32: "ucast (ucast (a :: 32 word) + (m :: 64 word)) = a + ucast m"
proof -
  have "(uint a + uint m) mod 18446744073709551616 mod 4294967296 = (uint a + uint m) mod 4294967296"
    by (simp add: mod_mod_cancel)
  then have "uint (ucast (ucast a + m) :: 32 word) = uint (a + ucast m)"
    by (simp add: uint_low32 uint_word_ariths unsigned_ucast_eq take_bit_eq_mod mod_add_right_eq mod_add_left_eq)
  then show ?thesis
    by (simp add: word_uint_eq_iff)
qed

lemma wrapping_diff_raw: "word_of_int (wrapping_diff n isn) = raw_value n - raw_value isn"
  by (simp add: wrapping_diff_def)

text \<open>\<open>m\<close> wraps to \<open>n\<close> exactly when its low 32 bits are the offset of \<open>n\<close> from the ISN.\<close>

lemma wrap_eq_iff: "wrap m isn = n \<longleftrightarrow> uint m mod 4294967296 = uint (raw_value n - raw_value isn)"
proof -
  have "wrap m isn = n \<longleftrightarrow> raw_value isn + ucast m = raw_value n"
    by (cases n) (auto simp: wrap_def ucast_add_low32)
  also have "\<dots> \<longleftrightarrow> ucast m = raw_value n - raw_value isn"
    by (metis add_diff_cancel_left' diff_add_cancel add.commute)
  also have "\<dots> \<longleftrightarrow> uint m mod 4294967296 = uint (raw_value n - raw_value isn)"
    by (metis uint_low32 word_uint_eq_iff)
  finally show ?thesis .
qed

text \<open>The two candidates of \<open>unwrap\<close>, as integers.\<close>

lemma uint_minus_half: "uint (c + int_shl_1_31) = (uint c - 2147483648) mod 18446744073709551616"
  by (simp add: int_shl_1_31_eq uint_word_ariths)

lemma uint_plus_half: "uint (c - int_shl_1_31) = (uint c + 2147483648) mod 18446744073709551616"
  by (simp add: int_shl_1_31_eq uint_word_ariths)

lemma uint_dist: "uint (max a b - min a b) = \<bar>uint a - uint b\<bar>" for a b :: "64 word"
  by (auto simp: max_def min_def word_le_def uint_sub_if' abs_if)

lemma uint_unwrap:
  "uint (unwrap n isn checkpoint) =
    (let l = uint (raw_value n - raw_value isn);
         c1 = (uint checkpoint - 2147483648) mod 18446744073709551616 div 4294967296 * 4294967296 + l;
         c2 = (uint checkpoint + 2147483648) mod 18446744073709551616 div 4294967296 * 4294967296 + l
     in if \<bar>c1 - uint checkpoint\<bar> < \<bar>c2 - uint checkpoint\<bar> then c1 else c2)"
  by (simp only: unwrap_def Let_def wrapping_diff_raw word_less_def uint_dist uint_join32 uint_high32
    uint_minus_half uint_plus_half mult_1 if_distrib [of uint])

text \<open>
  Which blocks of \<open>2 ^ 32\<close> the candidates lie in, for a checkpoint \<open>q * 2 ^ 32 + r\<close>.
\<close>

lemma block_of:
  fixes q x t :: int
  assumes "0 \<le> q" "q < 4294967296" "0 \<le> x" "x < 4294967296"
  shows "(q * 4294967296 + x + t * 18446744073709551616) mod 18446744073709551616 div 4294967296 = q"
proof -
  have "(q * 4294967296 + x + t * 18446744073709551616) mod 18446744073709551616 = q * 4294967296 + x"
    using assms by (simp only: mod_mult_self1) (rule mod_pos_pos_trivial; linarith)
  then show ?thesis
    using assms by simp
qed

lemma block_below:
  fixes q r :: int
  assumes "0 \<le> q" "q < 4294967296" "0 \<le> r" "r < 4294967296"
  shows "(q * 4294967296 + r - 2147483648) mod 18446744073709551616 div 4294967296 =
    (if 2147483648 \<le> r then q else if q = 0 then 4294967295 else q - 1)"
  using block_of [of q "r - 2147483648" 0] block_of [of "q - 1" "r + 2147483648" 0]
    block_of [of 4294967295 "r + 2147483648" "- 1"] assms
  by (auto simp: algebra_simps)

lemma block_above:
  fixes q r :: int
  assumes "0 \<le> q" "q < 4294967296" "0 \<le> r" "r < 4294967296"
  shows "(q * 4294967296 + r + 2147483648) mod 18446744073709551616 div 4294967296 =
    (if r < 2147483648 then q else if q = 4294967295 then 0 else q + 1)"
  using block_of [of q "r + 2147483648" 0] block_of [of "q + 1" "r - 2147483648" 0]
    block_of [of 0 "r - 2147483648" 1] assms
  by (auto simp: algebra_simps)

lemma candidate_closest:
  fixes q r l k :: int
  assumes "0 \<le> q" "q < 4294967296" "0 \<le> r" "r < 4294967296" "0 \<le> l" "l < 4294967296"
    and "0 \<le> k" "k < 4294967296"
    and "c1 = (if 2147483648 \<le> r then q else if q = 0 then 4294967295 else q - 1) * 4294967296 + l"
    and "c2 = (if r < 2147483648 then q else if q = 4294967295 then 0 else q + 1) * 4294967296 + l"
    and "c = q * 4294967296 + r"
  shows "\<bar>(if \<bar>c1 - c\<bar> < \<bar>c2 - c\<bar> then c1 else c2) - c\<bar> \<le> \<bar>k * 4294967296 + l - c\<bar>"
  using assms by (cases "k < q"; cases "k = q"; cases "r < 2147483648") (auto simp: abs_if split: if_splits)

lemma unwrap_mod: "uint (unwrap n isn checkpoint) mod 4294967296 = uint (raw_value n - raw_value isn)"
proof -
  define l where "l = uint (raw_value n - raw_value isn)"
  have l: "0 \<le> l" "l < 4294967296"
    using uint_bounded [of "raw_value n - raw_value isn"] by (simp_all add: l_def)
  have "\<exists>b. (if P then x * 4294967296 + l else y * 4294967296 + l) = b * 4294967296 + l" for P and x y :: int
    by (cases P) auto
  then obtain b where "uint (unwrap n isn checkpoint) = b * 4294967296 + l"
    unfolding uint_unwrap Let_def l_def by blast
  then show ?thesis
    using l by (simp add: l_def)
qed

lemma unwrap_closest_int:
  assumes "wrap m isn = n"
  shows "\<bar>uint (unwrap n isn checkpoint) - uint checkpoint\<bar> \<le> \<bar>uint m - uint checkpoint\<bar>"
proof -
  let ?B = "4294967296 :: int"
  define q r where "q = uint checkpoint div ?B" and "r = uint checkpoint mod ?B"
  define l where "l = uint (raw_value n - raw_value isn)"
  have c: "uint checkpoint = q * ?B + r"
    by (simp add: q_def r_def)
  have "0 \<le> uint checkpoint" "uint checkpoint < 18446744073709551616"
    using uint_bounded [of checkpoint] by simp_all
  then have qr: "0 \<le> q" "q < ?B" "0 \<le> r" "r < ?B"
    by (simp_all add: q_def r_def div_int_pos_iff)
  have l: "0 \<le> l" "l < ?B"
    using uint_bounded [of "raw_value n - raw_value isn"] by (simp_all add: l_def)
  define k where "k = uint m div ?B"
  have m: "uint m = k * ?B + l"
    using assms by (simp add: wrap_eq_iff k_def l_def flip: minus_mult_div_eq_mod)
  have "0 \<le> uint m" "uint m < 18446744073709551616"
    using uint_bounded [of m] by simp_all
  then have k: "0 \<le> k" "k < ?B"
    by (simp_all add: k_def div_int_pos_iff)
  show ?thesis
    unfolding uint_unwrap Let_def m c l_def [symmetric] block_below [OF qr] block_above [OF qr]
    by (rule candidate_closest [OF qr l k refl refl refl])
qed

lemma unwrap_wrap:
  assumes "\<bar>uint m - uint checkpoint\<bar> < 2147483648"
  shows "unwrap (wrap m isn) isn checkpoint = m"
proof -
  let ?u = "unwrap (wrap m isn) isn checkpoint"
  have "uint ?u mod 4294967296 = uint m mod 4294967296"
    using wrap_eq_iff [of m isn "wrap m isn"] by (simp add: unwrap_mod)
  moreover have "\<bar>uint ?u - uint m\<bar> < 4294967296"
    using unwrap_closest_int [OF refl, of m isn checkpoint] assms by linarith
  ultimately have "uint ?u - uint m = 0"
    using dvd_imp_le_int [of "uint ?u - uint m" 4294967296] unfolding mod_eq_dvd_iff by linarith
  then show ?thesis
    by (simp add: word_uint_eq_iff)
qed

section \<open>Properties\<close>

text \<open>C4: \<open>unwrap\<close> returns an absolute sequence number that wraps to the given relative one,
  and no other 64-bit number that wraps to it is closer to the checkpoint.\<close>

theorem unwrap_closest:
  "wrap (unwrap n isn checkpoint) isn = n \<and>
   (\<forall>m. wrap m isn = n \<longrightarrow>
     \<bar>uint (unwrap n isn checkpoint) - uint checkpoint\<bar> \<le> \<bar>uint m - uint checkpoint\<bar>)"
  by (simp add: wrap_eq_iff unwrap_mod unwrap_closest_int)

theorem unwrap_closest_witness:
  "wrap 4294967301 (WrappingInt32 10) = WrappingInt32 15 \<and>
   \<bar>uint (unwrap (WrappingInt32 15) (WrappingInt32 10) 4294967300) - uint (4294967300 :: 64 word)\<bar>
     \<le> \<bar>uint (4294967301 :: 64 word) - uint (4294967300 :: 64 word)\<bar>"
proof -
  have w: "wrap 4294967301 (WrappingInt32 10) = WrappingInt32 15"
    by code_simp
  show ?thesis
    using w unwrap_closest [of "WrappingInt32 15" "WrappingInt32 10" 4294967300] by blast
qed

text \<open>An absolute sequence number survives the trip through 32 bits whenever the checkpoint is
  less than \<open>2 ^ 31\<close> away, which is how sender and receiver use the two conversions.\<close>

lemma unwrap_wrap_roundtrip:
  assumes "\<bar>uint m - uint checkpoint\<bar> < 2147483648"
  shows "unwrap (wrap m isn) isn checkpoint = m"
  using assms by (rule unwrap_wrap)

lemma unwrap_wrap_roundtrip_witness:
  "\<bar>uint (8589934600 :: 64 word) - uint (8589934000 :: 64 word)\<bar> < 2147483648 \<and>
   unwrap (wrap 8589934600 (WrappingInt32 4294967290)) (WrappingInt32 4294967290) 8589934000 = 8589934600"
proof -
  have h: "\<bar>uint (8589934600 :: 64 word) - uint (8589934000 :: 64 word)\<bar> < 2147483648"
    by simp
  show ?thesis
    using h unwrap_wrap_roundtrip [OF h] by blast
qed

end
