(* ===== verification/Net_Buffer.thy ===== *)
theory Net_Buffer
  imports Sponge_Prelude
begin

text \<open>
  The packet buffers of \<open>libsponge/util/buffer.hh\<close> and \<open>util/buffer.cc\<close>: a shared string
  that can discard bytes from its front, a discontiguous list of them, and the non-owning view of
  such a list. All three discard bytes by the same contract.
\<close>

section \<open>Buffer\<close>

record Buffer =
  buf_storage :: "bytes option"
  buf_starting_offset :: size_t

definition Buffer_empty :: Buffer where
  "Buffer_empty = \<lparr>buf_storage = None, buf_starting_offset = 0\<rparr>"

definition Buffer_of :: "bytes \<Rightarrow> Buffer" where
  "Buffer_of str = \<lparr>buf_storage = Some str, buf_starting_offset = 0\<rparr>"

definition Buffer_str :: "Buffer \<Rightarrow> bytes" where
  "Buffer_str b = (case buf_storage b of None \<Rightarrow> [] | Some s \<Rightarrow> drop (buf_starting_offset b) s)"

definition Buffer_at :: "Buffer \<Rightarrow> size_t \<Rightarrow> byte res" where
  "Buffer_at b n = (if n < length (Buffer_str b) then Inr (Buffer_str b ! n) else Inl OutOfRange)"

definition Buffer_size :: "Buffer \<Rightarrow> size_t" where
  "Buffer_size b = length (Buffer_str b)"

definition Buffer_copy :: "Buffer \<Rightarrow> bytes" where
  "Buffer_copy b = Buffer_str b"

text \<open>The effect of \<open>remove_prefix\<close> behind its range check.\<close>

definition Buffer_advance :: "Buffer \<Rightarrow> size_t \<Rightarrow> Buffer" where
  "Buffer_advance b n =
    (let offset = add64 (buf_starting_offset b) n in
      \<lparr>buf_storage = (case buf_storage b of None \<Rightarrow> None
         | Some s \<Rightarrow> if offset = length s then None else Some s),
       buf_starting_offset = offset\<rparr>)"

definition Buffer_remove_prefix :: "Buffer \<Rightarrow> size_t \<Rightarrow> Buffer res" where
  "Buffer_remove_prefix b n =
    (if length (Buffer_str b) < n then Inl OutOfRange else Inr (Buffer_advance b n))"

section \<open>BufferList\<close>

type_synonym BufferList = "Buffer list"

definition BufferList_of_Buffer :: "Buffer \<Rightarrow> BufferList" where
  "BufferList_of_Buffer buffer = [buffer]"

definition BufferList_of_string :: "bytes \<Rightarrow> BufferList" where
  "BufferList_of_string str = [] @ BufferList_of_Buffer (Buffer_of str)"

definition BufferList_append :: "BufferList \<Rightarrow> BufferList \<Rightarrow> BufferList" where
  "BufferList_append bl other = foldl (\<lambda>buffers buf. buffers @ [buf]) bl other"

definition BufferList_to_Buffer :: "BufferList \<Rightarrow> Buffer res" where
  "BufferList_to_Buffer bl =
    (case bl of [] \<Rightarrow> Inr Buffer_empty
     | [b] \<Rightarrow> Inr b
     | b # b' # bs \<Rightarrow> Inl (RuntimeError
         ''BufferList: please use concatenate() to combine a multi-Buffer BufferList into one Buffer''))"

definition BufferList_concatenate :: "BufferList \<Rightarrow> bytes" where
  "BufferList_concatenate bl = foldl (\<lambda>ret buf. ret @ Buffer_str buf) [] bl"

definition BufferList_size :: "BufferList \<Rightarrow> size_t" where
  "BufferList_size bl = foldl (\<lambda>ret buf. add64 ret (Buffer_size buf)) 0 bl"

fun BufferList_remove_prefix :: "BufferList \<Rightarrow> size_t \<Rightarrow> BufferList res" where
  "BufferList_remove_prefix [] n = (if 0 < n then Inl OutOfRange else Inr [])"
| "BufferList_remove_prefix (b # bs) n =
    (if 0 < n then
       if n < length (Buffer_str b)
       then rbind (Buffer_remove_prefix b n) (\<lambda>b'. Inr (b' # bs))
       else BufferList_remove_prefix bs (n - length (Buffer_str b))
     else Inr (b # bs))"

section \<open>BufferViewList\<close>

text \<open>A view is the bytes it shows.\<close>

type_synonym BufferViewList = "bytes list"

definition BufferViewList_of_string :: "bytes \<Rightarrow> BufferViewList" where
  "BufferViewList_of_string str = [str]"

definition BufferViewList_of_BufferList :: "BufferList \<Rightarrow> BufferViewList" where
  "BufferViewList_of_BufferList buffers = foldl (\<lambda>views x. views @ [Buffer_str x]) [] buffers"

fun BufferViewList_remove_prefix :: "BufferViewList \<Rightarrow> size_t \<Rightarrow> BufferViewList res" where
  "BufferViewList_remove_prefix [] n = (if 0 < n then Inl OutOfRange else Inr [])"
| "BufferViewList_remove_prefix (v # vs) n =
    (if 0 < n then
       if n < length v then Inr (drop n v # vs)
       else BufferViewList_remove_prefix vs (n - length v)
     else Inr (v # vs))"

definition BufferViewList_size :: "BufferViewList \<Rightarrow> size_t" where
  "BufferViewList_size vl = foldl (\<lambda>ret buf. add64 ret (length buf)) 0 vl"

definition BufferViewList_as_iovecs :: "BufferViewList \<Rightarrow> (bytes \<times> size_t) list" where
  "BufferViewList_as_iovecs vl = foldl (\<lambda>ret x. ret @ [(x, length x)]) [] vl"

lemmas [sponge_eval] = Buffer_empty_def Buffer_of_def Buffer_str_def Buffer_at_def Buffer_size_def
  Buffer_copy_def Buffer_advance_def Buffer_remove_prefix_def BufferList_of_Buffer_def
  BufferList_of_string_def BufferList_append_def BufferList_to_Buffer_def BufferList_concatenate_def
  BufferList_size_def BufferViewList_of_string_def BufferViewList_of_BufferList_def
  BufferViewList_size_def BufferViewList_as_iovecs_def

section \<open>Invariant and contents\<close>

text \<open>The view of a buffer lies within its string, whose size is a machine number.\<close>

definition Buffer_wf :: "Buffer \<Rightarrow> bool" where
  "Buffer_wf b \<longleftrightarrow> (case buf_storage b of None \<Rightarrow> True
    | Some s \<Rightarrow> buf_starting_offset b \<le> length s \<and> length s < W64)"

lemma Buffer_empty_simps [simp]: "Buffer_wf Buffer_empty" "Buffer_str Buffer_empty = []"
  by (simp_all add: Buffer_wf_def Buffer_empty_def Buffer_str_def)

lemma Buffer_of_simps [simp]: "Buffer_wf (Buffer_of s) \<longleftrightarrow> length s < W64" "Buffer_str (Buffer_of s) = s"
  by (simp_all add: Buffer_wf_def Buffer_of_def Buffer_str_def)

lemma Buffer_wf_length: "Buffer_wf b \<Longrightarrow> length (Buffer_str b) < W64"
  by (auto simp: Buffer_wf_def Buffer_str_def split: option.splits)

lemma Buffer_advance_simps:
  assumes "Buffer_wf b" "n \<le> length (Buffer_str b)"
  shows "Buffer_wf (Buffer_advance b n)" "Buffer_str (Buffer_advance b n) = drop n (Buffer_str b)"
proof -
  show "Buffer_wf (Buffer_advance b n)"
    using assms by (auto simp: Buffer_wf_def Buffer_str_def Buffer_advance_def u64_simps Let_def split: option.splits)
  show "Buffer_str (Buffer_advance b n) = drop n (Buffer_str b)"
    using assms by (auto simp: Buffer_wf_def Buffer_str_def Buffer_advance_def u64_simps Let_def add.commute
      split: option.splits)
qed

lemma foldl_append_concat: "foldl (\<lambda>ret x. ret @ f x) a xs = a @ concat (map f xs)"
  by (induction xs arbitrary: a) simp_all

lemma BufferList_concatenate_eq: "BufferList_concatenate bl = concat (map Buffer_str bl)"
  by (simp add: BufferList_concatenate_def foldl_append_concat)

lemma BufferList_append_eq [simp]: "BufferList_append bl other = bl @ other"
  by (simp add: BufferList_append_def foldl_append_concat)

lemma BufferViewList_of_BufferList_eq: "BufferViewList_of_BufferList bl = map Buffer_str bl"
  by (simp add: BufferViewList_of_BufferList_def foldl_append_concat)

lemma BufferViewList_as_iovecs_eq: "BufferViewList_as_iovecs vl = map (\<lambda>x. (x, length x)) vl"
  by (simp add: BufferViewList_as_iovecs_def foldl_append_concat)

lemma foldl_add64_length:
  assumes "n + length (concat (map f xs)) < W64"
  shows "foldl (\<lambda>ret x. add64 ret (length (f x))) n xs = n + length (concat (map f xs))"
  using assms by (induction xs arbitrary: n) (simp_all add: u64_simps)

lemma BufferList_size_eq:
  "length (BufferList_concatenate bl) < W64 \<Longrightarrow> BufferList_size bl = length (BufferList_concatenate bl)"
  using foldl_add64_length [of 0 Buffer_str bl]
  by (simp add: BufferList_size_def Buffer_size_def BufferList_concatenate_eq)

lemma BufferViewList_size_eq:
  "length (concat vl) < W64 \<Longrightarrow> BufferViewList_size vl = length (concat vl)"
  using foldl_add64_length [of 0 "\<lambda>x. x" vl] by (simp add: BufferViewList_size_def)

section \<open>Discarding bytes from the front\<close>

locale discardable =
  fixes content :: "'b \<Rightarrow> bytes"
    and wf :: "'b \<Rightarrow> bool"
    and discard :: "'b \<Rightarrow> size_t \<Rightarrow> 'b res"
  assumes discard_ok: "wf b \<Longrightarrow> n \<le> length (content b) \<Longrightarrow>
      \<exists>b'. discard b n = Inr b' \<and> wf b' \<and> content b' = drop n (content b)"
    and discard_throws: "wf b \<Longrightarrow> length (content b) < n \<Longrightarrow> discard b n = Inl OutOfRange"
begin

text \<open>Discarding in two steps is discarding once, and throws in the same cases.\<close>

lemma discard_twice:
  assumes "wf b"
  shows "rbind (rbind (discard b m) (\<lambda>b'. discard b' n)) (\<lambda>b'. Inr (content b')) =
    rbind (discard b (m + n)) (\<lambda>b'. Inr (content b'))"
proof (cases "m \<le> length (content b)")
  case True
  then obtain b1 where b1: "discard b m = Inr b1" "wf b1" "content b1 = drop m (content b)"
    using discard_ok [OF assms] by blast
  show ?thesis
  proof (cases "n \<le> length (content b1)")
    case True
    then have "m + n \<le> length (content b)"
      using b1(3) \<open>m \<le> length (content b)\<close> by simp
    then show ?thesis
      using b1 discard_ok [OF b1(2) True] discard_ok [OF assms, of "m + n"] by (auto simp: add.commute)
  next
    case False
    then show ?thesis
      using b1 discard_throws [OF b1(2)] discard_throws [OF assms, of "m + n"] by simp
  qed
next
  case False
  then show ?thesis
    using discard_throws [OF assms] by simp
qed

end

interpretation buf: discardable Buffer_str Buffer_wf Buffer_remove_prefix
  by unfold_locales (simp_all add: Buffer_remove_prefix_def Buffer_advance_simps)

lemma BufferList_remove_prefix_ok:
  assumes "list_all Buffer_wf bl" "n \<le> length (BufferList_concatenate bl)"
  shows "\<exists>bl'. BufferList_remove_prefix bl n = Inr bl' \<and> list_all Buffer_wf bl' \<and>
    BufferList_concatenate bl' = drop n (BufferList_concatenate bl)"
  using assms
proof (induction bl arbitrary: n)
  case (Cons b bl)
  then show ?case
    using buf.discard_ok [of b n] by (auto simp: BufferList_concatenate_eq)
qed (simp add: BufferList_concatenate_def)

lemma BufferList_remove_prefix_throws:
  assumes "list_all Buffer_wf bl" "length (BufferList_concatenate bl) < n"
  shows "BufferList_remove_prefix bl n = Inl OutOfRange"
  using assms by (induction bl arbitrary: n) (auto simp: BufferList_concatenate_eq)

interpretation bufs: discardable BufferList_concatenate "list_all Buffer_wf" BufferList_remove_prefix
  by unfold_locales (rule BufferList_remove_prefix_ok BufferList_remove_prefix_throws, assumption+)+

lemma BufferViewList_remove_prefix_ok:
  assumes "n \<le> length (concat vl)"
  shows "\<exists>vl'. BufferViewList_remove_prefix vl n = Inr vl' \<and> concat vl' = drop n (concat vl)"
  using assms by (induction vl arbitrary: n) auto

lemma BufferViewList_remove_prefix_throws:
  assumes "length (concat vl) < n"
  shows "BufferViewList_remove_prefix vl n = Inl OutOfRange"
  using assms by (induction vl arbitrary: n) auto

interpretation views: discardable concat "\<lambda>_. True" BufferViewList_remove_prefix
  by unfold_locales (simp_all add: BufferViewList_remove_prefix_ok BufferViewList_remove_prefix_throws)

section \<open>Properties\<close>

text \<open>Discarding from the front of a discontiguous string. For buffers whose views lie inside
  their strings, \<open>remove_prefix\<close> throws exactly when more bytes are asked for than there are, and
  otherwise the concatenation loses exactly its first \<open>n\<close> bytes; the temporary view of the same
  buffers behaves identically.\<close>

lemma BufferList_discard:
  assumes "list_all Buffer_wf bl"
  shows "rbind (BufferList_remove_prefix bl n) (\<lambda>bl'. Inr (BufferList_concatenate bl')) =
      (if n \<le> length (BufferList_concatenate bl) then Inr (drop n (BufferList_concatenate bl)) else Inl OutOfRange) \<and>
    rbind (BufferViewList_remove_prefix (BufferViewList_of_BufferList bl) n) (\<lambda>vl. Inr (concat vl)) =
      rbind (BufferList_remove_prefix bl n) (\<lambda>bl'. Inr (BufferList_concatenate bl'))"
proof -
  have views: "concat (BufferViewList_of_BufferList bl) = BufferList_concatenate bl"
    by (simp add: BufferViewList_of_BufferList_eq BufferList_concatenate_eq)
  show ?thesis
  proof (cases "n \<le> length (BufferList_concatenate bl)")
    case True
    then show ?thesis
      using bufs.discard_ok [OF assms True] views.discard_ok [where b = "BufferViewList_of_BufferList bl" and n = n]
      by (auto simp: views)
  next
    case False
    then show ?thesis
      using bufs.discard_throws [OF assms, of n] views.discard_throws [where b = "BufferViewList_of_BufferList bl" and n = n]
      by (simp add: views)
  qed
qed

lemma BufferList_discard_witness:
  "rbind (BufferList_remove_prefix [Buffer_of [1, 2], Buffer_of [3, 4, 5]] 3) (\<lambda>bl'. Inr (BufferList_concatenate bl')) =
    Inr [4, 5]"
proof -
  have "list_all Buffer_wf [Buffer_of [1, 2], Buffer_of [3, 4, 5]]"
    by (simp add: W64_def)
  then show ?thesis
    using BufferList_discard [of "[Buffer_of [1, 2], Buffer_of [3, 4, 5]]" 3]
    by (simp add: BufferList_concatenate_eq)
qed

end
