(* ===== verification/Net_Parser.thy ===== *)
theory Net_Parser
  imports Net_Buffer
begin

text \<open>
  Reading and writing integers in network byte order, \<open>libsponge/util/parser.hh\<close> and
  \<open>util/parser.cc\<close>: the parser with its sticky error, the unparser, their round trip at every
  width, and the contract by which packet headers are read back.
\<close>

unbundle bit_operations_syntax

section \<open>Parse results\<close>

datatype ParseResult =
    NoError
  | BadChecksum
  | PacketTooShort
  | WrongIPVersion
  | HeaderTooShort
  | TruncatedPacket
  | Unsupported

fun ParseResult_index :: "ParseResult \<Rightarrow> size_t" where
  "ParseResult_index NoError = 0"
| "ParseResult_index BadChecksum = 1"
| "ParseResult_index PacketTooShort = 2"
| "ParseResult_index WrongIPVersion = 3"
| "ParseResult_index HeaderTooShort = 4"
| "ParseResult_index TruncatedPacket = 5"
| "ParseResult_index Unsupported = 6"

definition as_string :: "ParseResult \<Rightarrow> string res" where
  "as_string r =
    (let names = [''NoError'', ''BadChecksum'', ''PacketTooShort'', ''WrongIPVersion'', ''HeaderTooShort'',
       ''TruncatedPacket''];
         i = ParseResult_index r
     in if i < length names then Inr (names ! i) else Inl OutOfBounds)"

section \<open>NetParser\<close>

record NetParser =
  np_buffer :: Buffer
  np_error :: ParseResult

definition NetParser_make :: "Buffer \<Rightarrow> NetParser" where
  "NetParser_make buffer = \<lparr>np_buffer = buffer, np_error = NoError\<rparr>"

definition NetParser_set_error :: "NetParser \<Rightarrow> ParseResult \<Rightarrow> NetParser" where
  "NetParser_set_error p res = p\<lparr>np_error := res\<rparr>"

definition NetParser_error :: "NetParser \<Rightarrow> bool" where
  "NetParser_error p \<longleftrightarrow> np_error p \<noteq> NoError"

definition NetParser_check_size :: "NetParser \<Rightarrow> size_t \<Rightarrow> NetParser" where
  "NetParser_check_size p n =
    (if Buffer_size (np_buffer p) < n then NetParser_set_error p PacketTooShort else p)"

text \<open>The loop of \<open>_parse_int\<close> over the positions to read.\<close>

fun NetParser_int_loop :: "Buffer \<Rightarrow> nat list \<Rightarrow> 'a::len word \<Rightarrow> 'a word res" where
  "NetParser_int_loop b [] ret = Inr ret"
| "NetParser_int_loop b (i # is) ret =
    rbind (Buffer_at b i) (\<lambda>x. NetParser_int_loop b is (push_bit 8 ret + ucast x))"

definition NetParser_parse_int :: "NetParser \<Rightarrow> ('a::len word \<times> NetParser) res" where
  "NetParser_parse_int p =
    (let len = LENGTH('a) div 8; p1 = NetParser_check_size p len in
      if NetParser_error p1 then Inr (0, p1)
      else rbind (NetParser_int_loop (np_buffer p1) [0..<len] 0) (\<lambda>ret.
        rbind (Buffer_remove_prefix (np_buffer p1) len) (\<lambda>b. Inr (ret, p1\<lparr>np_buffer := b\<rparr>))))"

definition NetParser_u32 :: "NetParser \<Rightarrow> (32 word \<times> NetParser) res" where
  "NetParser_u32 p = NetParser_parse_int p"

definition NetParser_u16 :: "NetParser \<Rightarrow> (16 word \<times> NetParser) res" where
  "NetParser_u16 p = NetParser_parse_int p"

definition NetParser_u8 :: "NetParser \<Rightarrow> (8 word \<times> NetParser) res" where
  "NetParser_u8 p = NetParser_parse_int p"

definition NetParser_remove_prefix :: "NetParser \<Rightarrow> size_t \<Rightarrow> NetParser res" where
  "NetParser_remove_prefix p n =
    (let p1 = NetParser_check_size p n in
      if NetParser_error p1 then Inr p1
      else rbind (Buffer_remove_prefix (np_buffer p1) n) (\<lambda>b. Inr (p1\<lparr>np_buffer := b\<rparr>)))"

section \<open>NetUnparser\<close>

definition NetUnparser_unparse_int :: "bytes \<Rightarrow> 'a::len word \<Rightarrow> bytes" where
  "NetUnparser_unparse_int s val =
    (let len = LENGTH('a) div 8 in
      foldl (\<lambda>s i. s @ [ucast (drop_bit ((len - i - 1) * 8) val AND 0xff)]) s [0..<len])"

definition NetUnparser_u32 :: "bytes \<Rightarrow> 32 word \<Rightarrow> bytes" where
  "NetUnparser_u32 s val = NetUnparser_unparse_int s val"

definition NetUnparser_u16 :: "bytes \<Rightarrow> 16 word \<Rightarrow> bytes" where
  "NetUnparser_u16 s val = NetUnparser_unparse_int s val"

definition NetUnparser_u8 :: "bytes \<Rightarrow> 8 word \<Rightarrow> bytes" where
  "NetUnparser_u8 s val = NetUnparser_unparse_int s val"

lemmas [sponge_eval] = as_string_def NetParser_make_def NetParser_set_error_def NetParser_error_def
  NetParser_check_size_def NetParser_parse_int_def NetParser_u32_def NetParser_u16_def NetParser_u8_def
  NetParser_remove_prefix_def NetUnparser_unparse_int_def NetUnparser_u32_def NetUnparser_u16_def
  NetUnparser_u8_def

section \<open>Big-endian integers\<close>

definition be_bytes :: "'a::len word \<Rightarrow> bytes" where
  "be_bytes val = map (\<lambda>i. ucast (drop_bit ((LENGTH('a) div 8 - i - 1) * 8) val AND 0xff)) [0..<LENGTH('a) div 8]"

definition be_word :: "bytes \<Rightarrow> 'a::len word" where
  "be_word bs = foldl (\<lambda>ret x. push_bit 8 ret + ucast x) 0 bs"

lemma length_be_bytes [simp]: "length (be_bytes (v :: 'a::len word)) = LENGTH('a) div 8"
  by (simp add: be_bytes_def)

lemma NetUnparser_unparse_int_eq: "NetUnparser_unparse_int s v = s @ be_bytes v"
proof -
  have "foldl (\<lambda>s i. s @ [f i]) s xs = s @ map f xs" for f :: "nat \<Rightarrow> byte" and xs
    by (induction xs arbitrary: s) simp_all
  then show ?thesis
    by (simp add: NetUnparser_unparse_int_def be_bytes_def Let_def)
qed

lemmas NetUnparser_eqs = NetUnparser_u32_def NetUnparser_u16_def NetUnparser_u8_def NetUnparser_unparse_int_eq

text \<open>One step: the byte taken off a number comes back.\<close>

lemma byte_step:
  fixes x :: "'a::len word"
  assumes "8 \<le> LENGTH('a)"
  shows "push_bit 8 (drop_bit 8 x) + ucast (ucast (x AND 0xff) :: 8 word) = x"
proof -
  have "x AND 0xff = take_bit 8 x"
    by (simp add: take_bit_eq_mask mask_eq_exp_minus_1)
  then have "ucast (ucast (x AND 0xff) :: 8 word) = take_bit 8 x"
    using assms by (simp only:) (rule bit_word_eqI, auto simp: bit_simps)
  then show ?thesis
    by (simp add: bits_ident)
qed

lemma be_word_be_bytes [simp]:
  fixes v :: "'a::len word"
  assumes "8 * (LENGTH('a) div 8) = LENGTH('a)"
  shows "be_word (be_bytes v) = v"
proof -
  let ?len = "LENGTH('a) div 8"
  let ?f = "\<lambda>i. ucast (drop_bit ((?len - i - 1) * 8) v AND 0xff) :: 8 word"
  have pos: "8 \<le> LENGTH('a)"
    using assms len_gt_0 [where 'a = 'a] by presburger
  have "foldl (\<lambda>ret x. push_bit 8 ret + ucast x) 0 (map ?f [0..<k]) = drop_bit ((?len - k) * 8) v"
    if "k \<le> ?len" for k
    using that
  proof (induction k)
    case 0
    have "drop_bit (?len * 8) v = 0"
      using assms by (intro bit_word_eqI) (auto simp: bit_simps mult.commute dest: bit_imp_le_length)
    then show ?case
      by simp
  next
    case (Suc k)
    have "(?len - k) * 8 = 8 + (?len - k - 1) * 8"
      using Suc.prems by simp
    then have "drop_bit ((?len - k) * 8) v = drop_bit 8 (drop_bit ((?len - k - 1) * 8) v)"
      by (simp add: drop_bit_drop_bit)
    then show ?case
      using Suc byte_step [OF pos, of "drop_bit ((?len - k - 1) * 8) v"] by simp
  qed
  from this [of ?len] show ?thesis
    by (simp add: be_word_def be_bytes_def)
qed

section \<open>What the parser does\<close>

text \<open>
  The parser never throws: with its buffer inside its string it returns a value, and an error is
  recorded in the parser. Reading is described by the bytes in front of the parser.
\<close>

definition NetParser_wf :: "NetParser \<Rightarrow> bool" where
  "NetParser_wf p \<longleftrightarrow> Buffer_wf (np_buffer p)"

definition NetParser_str :: "NetParser \<Rightarrow> bytes" where
  "NetParser_str p = Buffer_str (np_buffer p)"

definition NetParser_ready :: "NetParser \<Rightarrow> bool" where
  "NetParser_ready p \<longleftrightarrow> NetParser_wf p \<and> np_error p = NoError"

definition NetParser_advance :: "NetParser \<Rightarrow> size_t \<Rightarrow> NetParser" where
  "NetParser_advance p n = p\<lparr>np_buffer := Buffer_advance (np_buffer p) n\<rparr>"

lemma NetParser_make_simps [simp]:
  "NetParser_ready (NetParser_make b) = Buffer_wf b" "NetParser_wf (NetParser_make b) = Buffer_wf b"
  "NetParser_str (NetParser_make b) = Buffer_str b"
  by (simp_all add: NetParser_ready_def NetParser_wf_def NetParser_make_def NetParser_str_def)

lemma NetParser_advance_simps:
  assumes "NetParser_wf p" "n \<le> length (NetParser_str p)"
  shows "NetParser_wf (NetParser_advance p n)" "NetParser_str (NetParser_advance p n) = drop n (NetParser_str p)"
    "np_error (NetParser_advance p n) = np_error p"
  using assms Buffer_advance_simps [of "np_buffer p" n]
  by (simp_all add: NetParser_wf_def NetParser_advance_def NetParser_str_def)

lemma map_nth_take: "n \<le> length s \<Longrightarrow> map ((!) s) [0..<n] = take n s"
  by (rule nth_equalityI) simp_all

lemma NetParser_int_loop_eq:
  assumes "\<forall>i \<in> set is. i < length (Buffer_str b)"
  shows "NetParser_int_loop b is ret = Inr (foldl (\<lambda>ret x. push_bit 8 ret + ucast x) ret (map ((!) (Buffer_str b)) is))"
  using assms by (induction "is" arbitrary: ret) (simp_all add: Buffer_at_def)

lemma NetParser_parse_int_eq:
  fixes p :: NetParser
  assumes "NetParser_wf p"
  shows "(NetParser_parse_int p :: ('a::len word \<times> NetParser) res) =
    Inr (if length (NetParser_str p) < LENGTH('a) div 8 then (0, p\<lparr>np_error := PacketTooShort\<rparr>)
      else if np_error p \<noteq> NoError then (0, p)
      else (be_word (take (LENGTH('a) div 8) (NetParser_str p)), NetParser_advance p (LENGTH('a) div 8)))"
proof (cases "length (NetParser_str p) < LENGTH('a) div 8 \<or> np_error p \<noteq> NoError")
  case True
  then show ?thesis
    by (auto simp: NetParser_parse_int_def NetParser_check_size_def Buffer_size_def NetParser_str_def
      NetParser_set_error_def NetParser_error_def Let_def)
next
  case False
  let ?n = "LENGTH('a) div 8" and ?s = "Buffer_str (np_buffer p)"
  have n: "?n \<le> length ?s" and e: "np_error p = NoError"
    using False by (simp_all add: NetParser_str_def)
  have "NetParser_int_loop (np_buffer p) [0..<?n] (0 :: 'a word) = Inr (be_word (take ?n ?s))"
    using NetParser_int_loop_eq [of "[0..<?n]" "np_buffer p" "0 :: 'a word"] n
    by (simp add: be_word_def map_nth_take)
  then show ?thesis
    using n e by (simp add: NetParser_parse_int_def NetParser_check_size_def Buffer_size_def NetParser_str_def
      NetParser_error_def Buffer_remove_prefix_def NetParser_advance_def Let_def not_less)
qed

lemma NetParser_remove_prefix_eq:
  assumes "NetParser_wf p"
  shows "NetParser_remove_prefix p n =
    Inr (if length (NetParser_str p) < n then p\<lparr>np_error := PacketTooShort\<rparr>
      else if np_error p \<noteq> NoError then p else NetParser_advance p n)"
  by (auto simp: NetParser_remove_prefix_def NetParser_check_size_def NetParser_str_def Buffer_size_def
    NetParser_set_error_def NetParser_error_def NetParser_advance_def Buffer_remove_prefix_def Let_def)

lemma NetParser_wf_error [simp]: "NetParser_wf (p\<lparr>np_error := e\<rparr>) = NetParser_wf p"
  "NetParser_str (p\<lparr>np_error := e\<rparr>) = NetParser_str p"
  by (simp_all add: NetParser_wf_def NetParser_str_def)

text \<open>Whatever happens, reading returns a value and a parser that can be used further.\<close>

lemma NetParser_total:
  assumes "NetParser_wf p"
  shows "\<exists>v p'. NetParser_u32 p = Inr (v, p') \<and> NetParser_wf p'"
    "\<exists>v p'. NetParser_u16 p = Inr (v, p') \<and> NetParser_wf p'"
    "\<exists>v p'. NetParser_u8 p = Inr (v, p') \<and> NetParser_wf p'"
    "\<exists>p'. NetParser_remove_prefix p n = Inr p' \<and> NetParser_wf p'"
  using assms by (simp_all add: NetParser_u32_def NetParser_u16_def NetParser_u8_def NetParser_parse_int_eq
    NetParser_remove_prefix_eq NetParser_advance_simps Suc_le_eq)

section \<open>The contract of a header format\<close>

text \<open>
  A format reads back what it writes, whatever follows, and stops right behind it. Formats are
  built from the integers by putting them one after the other.
\<close>

locale codec =
  fixes parse :: "NetParser \<Rightarrow> ('a \<times> NetParser) res"
    and emit :: "'a \<Rightarrow> bytes"
    and valid :: "'a \<Rightarrow> bool"
  assumes parse_emit: "valid v \<Longrightarrow> NetParser_ready p \<Longrightarrow> NetParser_str p = emit v @ rest \<Longrightarrow>
    \<exists>p'. parse p = Inr (v, p') \<and> NetParser_ready p' \<and> NetParser_str p' = rest"
begin

lemma parse_next:
  assumes "valid v" "NetParser_ready p" "NetParser_str p = emit v @ rest"
  obtains p' where "parse p = Inr (v, p')" "NetParser_ready p'" "NetParser_str p' = rest"
  using parse_emit [OF assms] by blast

text \<open>Two values in a row.\<close>

lemma parse_twice:
  assumes "valid v" "valid w" "NetParser_ready p" "NetParser_str p = emit v @ emit w @ rest"
  obtains p' where "rbind (parse p) (\<lambda>(x, p1). rbind (parse p1) (\<lambda>(y, p2). Inr ((x, y), p2))) = Inr ((v, w), p')"
    "NetParser_ready p'" "NetParser_str p' = rest"
proof (rule parse_next [OF assms(1,3,4)])
  fix p1
  assume p1: "parse p = Inr (v, p1)" "NetParser_ready p1" "NetParser_str p1 = emit w @ rest"
  show thesis
    by (rule parse_next [OF assms(2) p1(2,3)]) (rule that, use p1(1) in simp_all)
qed

text \<open>Formats do not confuse values: two valid values with the same bytes are equal.\<close>

lemma emit_inj:
  assumes "valid v" "valid w" "emit v = emit w" "length (emit v) < W64"
  shows "v = w"
proof -
  let ?p = "NetParser_make (Buffer_of (emit v))"
  have p: "NetParser_ready ?p"
    using assms(4) by simp
  have "NetParser_str ?p = emit v @ []" "NetParser_str ?p = emit w @ []"
    by (simp_all add: assms(3))
  from parse_emit [OF assms(1) p this(1)] parse_emit [OF assms(2) p this(2)]
  obtain p1 p2 where "parse ?p = Inr (v, p1)" "parse ?p = Inr (w, p2)"
    by blast
  then show ?thesis
    by simp
qed

text \<open>Reading as the first step of a longer computation.\<close>

lemma parse_bind:
  assumes "NetParser_ready p" "NetParser_str p = emit v @ rest" "valid v"
    and "\<And>p'. NetParser_ready p' \<Longrightarrow> NetParser_str p' = rest \<Longrightarrow> returns (f v p') Q"
  shows "returns (rbind (parse p) (\<lambda>(x, p'). f x p')) Q"
  using parse_emit [OF assms(3,1,2)] assms(4) by auto

end

lemma NetParser_parse_int_emit:
  assumes "8 * (LENGTH('a) div 8) = LENGTH('a::len)" "NetParser_ready p" "NetParser_str p = be_bytes (v :: 'a word) @ rest"
  shows "\<exists>p'. NetParser_parse_int p = Inr (v, p') \<and> NetParser_ready p' \<and> NetParser_str p' = rest"
  using assms by (simp add: NetParser_ready_def NetParser_parse_int_eq NetParser_advance_simps)

interpretation u32: codec NetParser_u32 "NetUnparser_u32 []" "\<lambda>_. True"
  by unfold_locales (simp add: NetParser_u32_def NetUnparser_eqs NetParser_parse_int_emit)

interpretation u16: codec NetParser_u16 "NetUnparser_u16 []" "\<lambda>_. True"
  by unfold_locales (simp add: NetParser_u16_def NetUnparser_eqs NetParser_parse_int_emit)

interpretation u8: codec NetParser_u8 "NetUnparser_u8 []" "\<lambda>_. True"
  by unfold_locales (simp add: NetParser_u8_def NetUnparser_eqs NetParser_parse_int_emit)

text \<open>
  The rules by which a header is read field by field: on bytes that were written, each field comes
  back; on any bytes, nothing throws.
\<close>

lemmas parse_fields =
  u32.parse_bind [OF _ _ TrueI, unfolded NetUnparser_eqs append_Nil]
  u16.parse_bind [OF _ _ TrueI, unfolded NetUnparser_eqs append_Nil]
  u8.parse_bind [OF _ _ TrueI, unfolded NetUnparser_eqs append_Nil]

lemma NetParser_remove_ready:
  assumes "NetParser_ready p" "NetParser_str p = xs @ rest" "n = length xs"
  shows "\<exists>p'. NetParser_remove_prefix p n = Inr p' \<and> NetParser_ready p' \<and> NetParser_str p' = rest"
  using assms by (simp add: NetParser_ready_def NetParser_remove_prefix_eq NetParser_advance_simps)

text \<open>
  On arbitrary bytes: a parser that has gone on from \<open>p0\<close> and is still without error has
  consumed so many bytes, and what it read stood at that position.
\<close>

definition NetParser_skipped :: "size_t \<Rightarrow> NetParser \<Rightarrow> NetParser \<Rightarrow> bool" where
  "NetParser_skipped n p0 p \<longleftrightarrow> NetParser_wf p \<and> (np_error p = NoError \<longrightarrow>
    np_error p0 = NoError \<and> n \<le> length (NetParser_str p0) \<and> NetParser_str p = drop n (NetParser_str p0))"

lemma NetParser_skipped_0 [simp]: "NetParser_wf p \<Longrightarrow> NetParser_skipped 0 p p"
  by (simp add: NetParser_skipped_def)

lemma NetParser_parse_int_skipped:
  assumes "NetParser_skipped n p0 p"
  shows "returns (NetParser_parse_int p :: ('a::len word \<times> NetParser) res)
    (\<lambda>(x, p'). NetParser_skipped (n + LENGTH('a) div 8) p0 p' \<and>
      (np_error p' = NoError \<longrightarrow> x = be_word (take (LENGTH('a) div 8) (drop n (NetParser_str p0)))))"
  using assms by (auto simp: NetParser_parse_int_eq NetParser_skipped_def NetParser_advance_simps not_less add.commute)

lemma parse_any:
  "NetParser_skipped n p0 p \<Longrightarrow> (\<And>x p'. NetParser_skipped (n + 4) p0 p' \<Longrightarrow> returns (f x p') Q) \<Longrightarrow>
    returns (rbind (NetParser_u32 p) (\<lambda>(x, p'). f x p')) Q"
  "NetParser_skipped n p0 p \<Longrightarrow> (\<And>x p'. NetParser_skipped (n + 2) p0 p' \<Longrightarrow> returns (g x p') Q) \<Longrightarrow>
    returns (rbind (NetParser_u16 p) (\<lambda>(x, p'). g x p')) Q"
  "NetParser_skipped n p0 p \<Longrightarrow> (\<And>x p'. NetParser_skipped (n + 1) p0 p' \<Longrightarrow> returns (h x p') Q) \<Longrightarrow>
    returns (rbind (NetParser_u8 p) (\<lambda>(x, p'). h x p')) Q"
  by (auto simp: NetParser_u32_def NetParser_u16_def NetParser_u8_def
    elim!: returns_mono [OF NetParser_parse_int_skipped])

lemma NetParser_remove_any:
  assumes "NetParser_skipped n p0 p"
  shows "returns (NetParser_remove_prefix p m) (\<lambda>p'. NetParser_skipped (n + m) p0 p')"
  using assms
  by (auto simp: NetParser_remove_prefix_eq NetParser_advance_simps NetParser_skipped_def not_less add.commute)

section \<open>Properties\<close>

text \<open>Integers survive the network. A value written by the unparser at any of the three widths is
  what the parser reads back, and what was written behind it is what remains in front of the
  parser.\<close>

lemma net_int_roundtrip:
  assumes "length rest + 7 < W64"
  shows "\<exists>p1 p2 p3. NetParser_u32 (NetParser_make (Buffer_of (NetUnparser_u8 (NetUnparser_u16 (NetUnparser_u32 [] a) b) c @ rest))) = Inr (a, p1) \<and>
    NetParser_u16 p1 = Inr (b, p2) \<and> NetParser_u8 p2 = Inr (c, p3) \<and>
    np_error p3 = NoError \<and> Buffer_str (np_buffer p3) = rest"
proof -
  let ?p = "NetParser_make (Buffer_of (NetUnparser_u8 (NetUnparser_u16 (NetUnparser_u32 [] a) b) c @ rest))"
  have "NetParser_ready ?p" "NetParser_str ?p = NetUnparser_u32 [] a @ NetUnparser_u16 [] b @ NetUnparser_u8 [] c @ rest"
    using assms by (simp_all add: NetUnparser_eqs)
  from u32.parse_next [OF TrueI this] obtain p1 where p1: "NetParser_u32 ?p = Inr (a, p1)" "NetParser_ready p1"
    "NetParser_str p1 = NetUnparser_u16 [] b @ NetUnparser_u8 [] c @ rest" .
  from u16.parse_next [OF TrueI p1(2,3)] obtain p2 where p2: "NetParser_u16 p1 = Inr (b, p2)" "NetParser_ready p2"
    "NetParser_str p2 = NetUnparser_u8 [] c @ rest" .
  from u8.parse_next [OF TrueI p2(2,3)] obtain p3 where p3: "NetParser_u8 p2 = Inr (c, p3)" "NetParser_ready p3"
    "NetParser_str p3 = rest" .
  show ?thesis
    using p1(1) p2(1) p3 by (auto simp: NetParser_ready_def NetParser_str_def)
qed

lemma net_int_roundtrip_witness:
  "\<exists>p1 p2 p3. NetParser_u32 (NetParser_make (Buffer_of (NetUnparser_u8 (NetUnparser_u16 (NetUnparser_u32 [] 0xdeadbeef) 0x1234) 7 @ [9]))) = Inr (0xdeadbeef, p1) \<and>
    NetParser_u16 p1 = Inr (0x1234, p2) \<and> NetParser_u8 p2 = Inr (7, p3) \<and>
    np_error p3 = NoError \<and> Buffer_str (np_buffer p3) = [9]"
proof -
  have "length [9 :: byte] + 7 < W64"
    by (simp add: W64_def)
  from net_int_roundtrip [OF this, of "0xdeadbeef" "0x1234" 7] show ?thesis .
qed

text \<open>The table of names behind \<open>as_string\<close> has no entry for \<open>Unsupported\<close>: printing that
  result reads past the end of the table; every other result has its name.\<close>

lemma as_string_unsupported:
  "as_string r = Inl OutOfBounds \<longleftrightarrow> r = Unsupported"
  by (cases r) (simp_all add: as_string_def)

end
