(* ===== verification/Internet_Checksum.thy ===== *)
theory Internet_Checksum
  imports Net_Parser
begin

text \<open>
  The Internet checksum, \<open>InternetChecksum\<close> of \<open>libsponge/util/util.cc\<close>: an accumulator that
  is fed bytes in pieces, and the folded one's complement of the sum. A header whose checksum field
  was filled in by it checks to zero, and a change of one aligned word is noticed.
\<close>

section \<open>The class\<close>

record InternetChecksum =
  ic_sum :: "32 word"
  ic_parity :: bool

definition InternetChecksum_make :: "32 word \<Rightarrow> InternetChecksum" where
  "InternetChecksum_make initial_sum = \<lparr>ic_sum = initial_sum, ic_parity = False\<rparr>"

definition InternetChecksum_add_byte :: "InternetChecksum \<Rightarrow> byte \<Rightarrow> InternetChecksum" where
  "InternetChecksum_add_byte c x =
    (let val = ucast x :: 16 word;
         val' = (if \<not> ic_parity c then push_bit 8 val else val)
     in c\<lparr>ic_sum := ic_sum c + ucast val', ic_parity := \<not> ic_parity c\<rparr>)"

definition InternetChecksum_add :: "InternetChecksum \<Rightarrow> bytes \<Rightarrow> InternetChecksum" where
  "InternetChecksum_add c data = foldl InternetChecksum_add_byte c data"

lemma fold_shrinks: "n div 65536 + n mod 65536 \<le> n" "65535 < n \<Longrightarrow> n div 65536 + n mod 65536 < n" for n :: nat
proof -
  have n: "65536 * (n div 65536) + n mod 65536 = n"
    by (rule mult_div_mod_eq)
  then show "n div 65536 + n mod 65536 \<le> n"
    by linarith
  assume "65535 < n"
  then have "0 < n div 65536"
    by (simp add: div_greater_zero_iff)
  then show "n div 65536 + n mod 65536 < n"
    using n by linarith
qed

lemma unat_fold_step:
  "unat (drop_bit 16 r + (r AND 0xffff)) = unat r div 65536 + unat r mod 65536" for r :: "32 word"
proof -
  have "r AND 0xffff = take_bit 16 r"
    by (simp add: take_bit_eq_mask mask_eq_exp_minus_1)
  then have "unat (r AND 0xffff) = unat r mod 65536"
    by (simp add: take_bit_eq_mod unat_mod)
  moreover have "unat (drop_bit 16 r) = unat r div 65536"
    by (simp add: drop_bit_eq_div unat_div)
  moreover have "unat r < 4294967296"
    using unsigned_less [of r] by simp
  then have "unat r div 65536 + unat r mod 65536 < 4294967296"
    using fold_shrinks(1) [of "unat r"] by linarith
  ultimately show ?thesis
    by (simp add: unat_add_lem [THEN iffD1])
qed

text \<open>The loop of \<open>value\<close>: it ends because the number shrinks as long as it has high bits.\<close>

function InternetChecksum_fold :: "32 word \<Rightarrow> 32 word" where
  "InternetChecksum_fold ret =
    (if 0xffff < ret then InternetChecksum_fold (drop_bit 16 ret + (ret AND 0xffff)) else ret)"
  by pat_completeness auto
termination
proof (relation "measure unat")
  fix ret :: "32 word"
  assume "0xffff < ret"
  then have "65535 < unat ret"
    by (simp add: word_less_nat_alt)
  then show "(drop_bit 16 ret + (ret AND 0xffff), ret) \<in> measure unat"
    using fold_shrinks(2) by (simp add: unat_fold_step)
qed simp

declare InternetChecksum_fold.simps [simp del]

definition InternetChecksum_value :: "InternetChecksum \<Rightarrow> 16 word" where
  "InternetChecksum_value c = ucast (NOT (InternetChecksum_fold (ic_sum c)))"

lemmas [sponge_eval] = InternetChecksum_make_def InternetChecksum_add_byte_def InternetChecksum_add_def
  InternetChecksum_value_def InternetChecksum_fold.simps

section \<open>The sum\<close>

text \<open>What a string contributes, as a number: bytes in even positions count 256 times.\<close>

fun ck_weight :: "bool \<Rightarrow> bytes \<Rightarrow> nat" where
  "ck_weight parity [] = 0"
| "ck_weight parity (x # xs) = (if parity then unat x else 256 * unat x) + ck_weight (\<not> parity) xs"

lemma ck_weight_append:
  "ck_weight parity (xs @ ys) = ck_weight parity xs + ck_weight (if even (length xs) then parity else \<not> parity) ys"
  by (induction xs arbitrary: parity) auto

lemma ck_weight_bound: "ck_weight parity xs \<le> 65280 * length xs"
proof (induction xs arbitrary: parity)
  case (Cons x xs)
  have "unat x < 256"
    using unsigned_less [of x] by simp
  then show ?case
    using Cons.IH [of "\<not> parity"] by (cases parity) auto
qed simp

lemma InternetChecksum_add_append [simp]:
  "InternetChecksum_add (InternetChecksum_add c xs) ys = InternetChecksum_add c (xs @ ys)"
  by (simp add: InternetChecksum_add_def)

lemma unat_ic_byte:
  "unat (ucast (if p then push_bit 8 (ucast x :: 16 word) else ucast x) :: 32 word) = (if p then 256 * unat x else unat x)"
  for x :: byte
proof -
  have x: "unat x < 256"
    using unsigned_less [of x] by simp
  have "unat (push_bit 8 (ucast x :: 16 word)) = 256 * unat x"
    using x by (simp add: push_bit_eq_mult unat_word_ariths unsigned_ucast_eq take_bit_eq_mod)
  then show ?thesis
    using x by (simp add: unsigned_ucast_eq take_bit_eq_mod)
qed

lemma InternetChecksum_add_nat:
  assumes "unat (ic_sum c) + ck_weight (ic_parity c) xs < 2 ^ 32"
  shows "unat (ic_sum (InternetChecksum_add c xs)) = unat (ic_sum c) + ck_weight (ic_parity c) xs"
  using assms
proof (induction xs arbitrary: c)
  case Nil
  then show ?case
    by (simp add: InternetChecksum_add_def)
next
  case (Cons x xs)
  let ?c = "InternetChecksum_add_byte c x"
  have "unat (ic_sum ?c) = unat (ic_sum c) + (if ic_parity c then unat x else 256 * unat x)"
    using Cons.prems unat_ic_byte [of "\<not> ic_parity c" x]
    by (auto simp: InternetChecksum_add_byte_def Let_def unat_word_ariths)
  moreover have "ic_parity ?c = (\<not> ic_parity c)"
    by (simp add: InternetChecksum_add_byte_def Let_def)
  moreover have "InternetChecksum_add c (x # xs) = InternetChecksum_add ?c xs"
    by (simp add: InternetChecksum_add_def)
  ultimately show ?case
    using Cons.IH [of ?c] Cons.prems by simp
qed

text \<open>Folding is the residue modulo 65535, with 65535 in the place of a zero that is not an empty sum.\<close>

lemma fold_residue:
  fixes n :: nat
  assumes "65535 < n"
  shows "(n div 65536 + n mod 65536 - 1) mod 65535 = (n - 1) mod 65535" "0 < n div 65536 + n mod 65536"
proof -
  have "0 < n div 65536"
    using assms by (simp add: div_greater_zero_iff)
  then show "0 < n div 65536 + n mod 65536"
    by simp
  then have "n - 1 = 65535 * (n div 65536) + (n div 65536 + n mod 65536 - 1)"
    using mult_div_mod_eq [of 65536 n] by linarith
  then show "(n div 65536 + n mod 65536 - 1) mod 65535 = (n - 1) mod 65535"
    by (metis mod_mult_self4)
qed

lemma unat_InternetChecksum_fold:
  "unat (InternetChecksum_fold ret) = (if ret = 0 then 0 else (unat ret - 1) mod 65535 + 1)"
proof (induction ret rule: InternetChecksum_fold.induct)
  case (1 ret)
  show ?case
  proof (cases "0xffff < ret")
    case True
    then have n: "65535 < unat ret"
      by (simp add: word_less_nat_alt)
    let ?r = "drop_bit 16 ret + (ret AND 0xffff)"
    have "?r \<noteq> 0" "ret \<noteq> 0"
      using unat_fold_step [of ret] fold_residue(2) [OF n] n by (auto simp: unat_0_iff [symmetric])
    then show ?thesis
      using 1 True fold_residue(1) [OF n] unat_fold_step [of ret]
      by (subst InternetChecksum_fold.simps) simp
  next
    case False
    then have "unat ret \<le> 65535"
      by (simp add: word_less_nat_alt)
    moreover have "ret = 0 \<longleftrightarrow> unat ret = 0"
      by (simp add: unat_0_iff)
    ultimately show ?thesis
      using False by (subst InternetChecksum_fold.simps) simp
  qed
qed

lemma unat_InternetChecksum_fold_le: "unat (InternetChecksum_fold r) \<le> 65535"
proof -
  have "(unat r - 1) mod 65535 < 65535"
    by simp
  then show ?thesis
    unfolding unat_InternetChecksum_fold by (simp del: mod_less_divisor)
qed

lemma unat_InternetChecksum_value:
  "unat (InternetChecksum_value c) = 65535 - unat (InternetChecksum_fold (ic_sum c))"
proof -
  let ?f = "InternetChecksum_fold (ic_sum c)"
  note f = unat_InternetChecksum_fold_le [of "ic_sum c"]
  have "NOT ?f = - 1 - ?f"
    by (simp add: not_eq_complement)
  then have "unat (NOT ?f) = unat (- 1 :: 32 word) - unat ?f"
    by (simp only: unat_sub word_order.extremum)
  also have "\<dots> = 4294967295 - unat ?f"
    by (simp add: unsigned_minus_1_eq_mask mask_eq_exp_minus_1)
  also have "\<dots> = (65535 - unat ?f) + 65535 * 65536"
    using f by simp
  finally have "unat (NOT ?f) mod 65536 = (65535 - unat ?f) mod 65536"
    by (simp only: mod_mult_self1)
  then show ?thesis
    by (simp add: InternetChecksum_value_def unsigned_ucast_eq take_bit_eq_mod)
qed

lemma InternetChecksum_value_zero_iff:
  "InternetChecksum_value c = 0 \<longleftrightarrow> 0 < unat (ic_sum c) \<and> 65535 dvd unat (ic_sum c)"
proof -
  let ?n = "unat (ic_sum c)"
  have z: "ic_sum c = 0 \<longleftrightarrow> ?n = 0"
    by (simp add: unat_0_iff)
  have "InternetChecksum_value c = 0 \<longleftrightarrow> unat (InternetChecksum_fold (ic_sum c)) = 65535"
    using unat_InternetChecksum_value [of c] unat_InternetChecksum_fold_le [of "ic_sum c"]
    by (auto simp: unat_0_iff [symmetric])
  also have "\<dots> \<longleftrightarrow> 0 < ?n \<and> 65535 dvd ?n"
    unfolding unat_InternetChecksum_fold z by (cases ?n) (auto simp: dvd_eq_mod_eq_0 mod_Suc)
  finally show ?thesis .
qed

text \<open>Filling in the checksum field makes the sum a positive multiple of 65535.\<close>

lemma ck_weight_be16 [simp]: "ck_weight False (be_bytes (c :: 16 word)) = unat c"
proof -
  have c: "unat c < 65536"
    using unsigned_less [of c] by simp
  have ff: "x AND 0xff = x mod 256" for x :: "16 word"
    using take_bit_eq_mask [of 8 x] by (simp add: mask_eq_exp_minus_1 take_bit_eq_mod)
  have "unat (ucast (drop_bit 8 c AND 0xff) :: byte) = unat c div 256" "unat (ucast (c AND 0xff) :: byte) = unat c mod 256"
    using c by (simp_all add: unsigned_ucast_eq take_bit_eq_mod ff drop_bit_eq_div unat_div unat_mod)
  then show ?thesis
    by (simp add: be_bytes_def upt_rec)
qed

lemma InternetChecksum_fill:
  assumes "even (length pre)"
    and "unat init + ck_weight False (pre @ [0, 0] @ post) + 65535 < 2 ^ 32"
    and "c = InternetChecksum_value (InternetChecksum_add (InternetChecksum_make init) (pre @ [0, 0] @ post))"
  shows "InternetChecksum_value (InternetChecksum_add (InternetChecksum_make init) (pre @ be_bytes c @ post)) = 0"
proof -
  let ?i = "InternetChecksum_make init"
  define s where "s = unat init + ck_weight False (pre @ [0, 0] @ post)"
  have i: "ic_sum ?i = init" "ic_parity ?i = False"
    by (simp_all add: InternetChecksum_make_def)
  have s: "unat (ic_sum (InternetChecksum_add ?i (pre @ [0, 0] @ post))) = s"
    using InternetChecksum_add_nat [of ?i "pre @ [0, 0] @ post"] assms(2) by (simp add: i s_def)
  have "ck_weight False (pre @ be_bytes c @ post) = ck_weight False (pre @ [0, 0] @ post) + unat c"
    using assms(1) by (simp add: ck_weight_append)
  moreover have c: "unat c = 65535 - (if s = 0 then 0 else (s - 1) mod 65535 + 1)"
    unfolding assms(3) unat_InternetChecksum_value unat_InternetChecksum_fold
    unfolding s [symmetric] by (simp add: unat_0_iff)
  then have "unat c \<le> 65535"
    by simp
  ultimately have "unat (ic_sum (InternetChecksum_add ?i (pre @ be_bytes c @ post))) = s + unat c"
    using InternetChecksum_add_nat [of ?i "pre @ be_bytes c @ post"] assms(2) by (simp add: i s_def)
  moreover have "0 < s + unat c \<and> 65535 dvd s + unat c"
  proof (cases "s = 0")
    case False
    define q r where "q = (s - 1) div 65535" and "r = (s - 1) mod 65535"
    have "r < 65535" "s - 1 = 65535 * q + r"
      by (simp_all add: q_def r_def)
    moreover have "unat c = 65535 - (r + 1)"
      using c False by (simp add: r_def)
    ultimately have "s + unat c = 65535 * (q + 1)"
      using False by (cases s) simp_all
    then show ?thesis
      by simp
  qed (use c in simp)
  ultimately show ?thesis
    by (simp add: InternetChecksum_value_zero_iff)
qed

lemma dvd_small_diff:
  assumes "65535 dvd int m - int n" "m \<le> 65535" "n \<le> 65535" "m \<noteq> n"
  shows "m = 65535 \<and> n = 0 \<or> m = 0 \<and> n = 65535"
proof -
  obtain k where k: "int m - int n = 65535 * k"
    using assms(1) by (elim dvdE)
  then have "- 1 \<le> k" "k \<le> 1" "k \<noteq> 0"
    using assms by auto
  then have "k = 1 \<or> k = - 1"
    by linarith
  then show ?thesis
    using k assms by auto
qed

section \<open>Properties\<close>

text \<open>C11: a filled-in checksum is accepted. If the checksum is computed over data whose two-byte
  checksum field, at an even offset, is zero, and then stored into that field in network byte order,
  the checksum of the result is zero; the data must be short enough for its sum not to overflow 32
  bits, which 64 KiB are.\<close>

theorem InternetChecksum_roundtrip:
  assumes "even (length pre)" "length pre + 2 + length post \<le> 65535" "unat init < 2 ^ 23"
    and "c = InternetChecksum_value (InternetChecksum_add (InternetChecksum_make init) (NetUnparser_u16 pre 0 @ post))"
  shows "InternetChecksum_value (InternetChecksum_add (InternetChecksum_make init) (NetUnparser_u16 pre c @ post)) = 0"
proof -
  have zero: "be_bytes (0 :: 16 word) = [0, 0]"
    by (simp add: be_bytes_def upt_rec)
  have "ck_weight False (pre @ [0, 0] @ post) \<le> 65280 * 65535"
    using ck_weight_bound [of False "pre @ [0, 0] @ post"] assms(2) by simp
  then show ?thesis
    using InternetChecksum_fill [OF assms(1), of init post c] assms(3,4) by (simp add: NetUnparser_eqs zero)
qed

theorem InternetChecksum_roundtrip_witness:
  "InternetChecksum_value (InternetChecksum_add (InternetChecksum_make 7) (NetUnparser_u16 [0x12, 0x34]
     (InternetChecksum_value (InternetChecksum_add (InternetChecksum_make 7) (NetUnparser_u16 [0x12, 0x34] 0 @ [0xff]))) @ [0xff])) = 0"
  by (rule InternetChecksum_roundtrip [of "[0x12, 0x34]" "[0xff]" 7]) simp_all

text \<open>The checksum notices a change of one word. Two strings that differ in one aligned 16-bit
  word only cannot both have checksum zero, unless one has 0x0000 and the other 0xffff there.\<close>

lemma InternetChecksum_detects:
  assumes "even (length pre)" "length pre + 2 + length post \<le> 65535" "unat init < 2 ^ 23"
    and "a \<noteq> b" "{a, b} \<noteq> {0, 0xffff}"
    and "InternetChecksum_value (InternetChecksum_add (InternetChecksum_make init) (pre @ be_bytes (a :: 16 word) @ post)) = 0"
  shows "InternetChecksum_value (InternetChecksum_add (InternetChecksum_make init) (pre @ be_bytes b @ post)) \<noteq> 0"
proof
  assume zero: "InternetChecksum_value (InternetChecksum_add (InternetChecksum_make init) (pre @ be_bytes b @ post)) = 0"
  define s where "s = unat init + ck_weight False pre + ck_weight False post"
  have sum: "unat (ic_sum (InternetChecksum_add (InternetChecksum_make init) (pre @ be_bytes x @ post))) = s + unat x"
    for x :: "16 word"
  proof -
    have "ck_weight False (pre @ be_bytes x @ post) \<le> 65280 * 65535"
      using ck_weight_bound [of False "pre @ be_bytes x @ post"] assms(2) by simp
    moreover have "ck_weight False (pre @ be_bytes x @ post) = ck_weight False pre + unat x + ck_weight False post"
      using assms(1) by (simp add: ck_weight_append)
    ultimately show ?thesis
      using InternetChecksum_add_nat [of "InternetChecksum_make init" "pre @ be_bytes x @ post"] assms(3)
      by (simp add: InternetChecksum_make_def s_def)
  qed
  have "65535 dvd s + unat a" "65535 dvd s + unat b"
    using assms(6) zero by (simp_all add: InternetChecksum_value_zero_iff sum)
  then have "65535 dvd int (s + unat a) - int (s + unat b)"
    by (metis dvd_diff int_dvd_int_iff of_nat_numeral)
  then have "65535 dvd int (unat a) - int (unat b)"
    by (simp del: int_nat_eq)
  moreover have "unat x < 65536" for x :: "16 word"
    using unsigned_less [of x] by simp
  then have "unat a \<le> 65535" "unat b \<le> 65535"
    by (simp_all add: less_Suc_eq_le [symmetric])
  moreover have "unat a \<noteq> unat b"
    using assms(4) by (simp add: word_unat_eq_iff)
  ultimately have "unat a = 65535 \<and> unat b = 0 \<or> unat a = 0 \<and> unat b = 65535"
    by (rule dvd_small_diff)
  moreover have "unat x = 65535 \<longleftrightarrow> x = 0xffff" for x :: "16 word"
    by (simp add: word_unat_eq_iff)
  ultimately show False
    using assms(5) by (auto simp: unat_0_iff)
qed

lemma InternetChecksum_detects_witness:
  "InternetChecksum_value (InternetChecksum_add (InternetChecksum_make 0) ([0xff, 0xfe] @ be_bytes (2 :: 16 word) @ [])) \<noteq> 0"
proof -
  have "InternetChecksum_value (InternetChecksum_add (InternetChecksum_make 0) ([0xff, 0xfe] @ be_bytes (1 :: 16 word) @ [])) = 0"
    by (simp add: sponge_eval be_bytes_def upt_rec)
  then show ?thesis
    by (intro InternetChecksum_detects [of "[0xff, 0xfe]" "[]" 0 1 2]) (auto simp: doubleton_eq_iff)
qed

end
