(* ===== verification/TCP_Segment.thy ===== *)
theory TCP_Segment
  imports Wrapping_Integers Internet_Checksum
begin

text \<open>
  TCP segments, \<open>libsponge/tcp_helpers/tcp_header.hh\<close>, \<open>tcp_header.cc\<close>,
  \<open>tcp_segment.hh\<close> and \<open>tcp_segment.cc\<close>: the header with its wire format, and the segment
  with its checksum. A serialized segment is parsed back to itself; parsing never throws.
\<close>

section \<open>TCPHeader\<close>

record TCPHeader =
  th_sport :: "16 word"
  th_dport :: "16 word"
  th_seqno :: WrappingInt32
  th_ackno :: WrappingInt32
  th_doff :: "8 word"
  th_urg :: bool
  th_ack :: bool
  th_psh :: bool
  th_rst :: bool
  th_syn :: bool
  th_fin :: bool
  th_win :: "16 word"
  th_cksum :: "16 word"
  th_uptr :: "16 word"

definition TCPHeader_LENGTH :: size_t where
  "TCPHeader_LENGTH = 20"

definition TCPHeader_default :: TCPHeader where
  "TCPHeader_default = \<lparr>th_sport = 0, th_dport = 0, th_seqno = WrappingInt32 0, th_ackno = WrappingInt32 0,
     th_doff = of_nat (TCPHeader_LENGTH div 4), th_urg = False, th_ack = False, th_psh = False, th_rst = False,
     th_syn = False, th_fin = False, th_win = 0, th_cksum = 0, th_uptr = 0\<rparr>"

text \<open>
  \<open>parse\<close> assigns every field before it returns, whatever it returns; the header it is called on
  does not matter.
\<close>

definition TCPHeader_parse :: "NetParser \<Rightarrow> (ParseResult \<times> TCPHeader \<times> NetParser) res" where
  "TCPHeader_parse p =
    rbind (NetParser_u16 p) (\<lambda>(sport, p).
    rbind (NetParser_u16 p) (\<lambda>(dport, p).
    rbind (NetParser_u32 p) (\<lambda>(seqno, p).
    rbind (NetParser_u32 p) (\<lambda>(ackno, p).
    rbind (NetParser_u8 p) (\<lambda>(off_b, p).
    rbind (NetParser_u8 p) (\<lambda>(fl_b, p).
    rbind (NetParser_u16 p) (\<lambda>(win, p).
    rbind (NetParser_u16 p) (\<lambda>(cksum, p).
    rbind (NetParser_u16 p) (\<lambda>(uptr, p).
      let doff = drop_bit 4 off_b;
          h = \<lparr>th_sport = sport, th_dport = dport, th_seqno = WrappingInt32 seqno, th_ackno = WrappingInt32 ackno,
            th_doff = doff, th_urg = (fl_b AND 0x20 \<noteq> 0), th_ack = (fl_b AND 0x10 \<noteq> 0),
            th_psh = (fl_b AND 0x08 \<noteq> 0), th_rst = (fl_b AND 0x04 \<noteq> 0), th_syn = (fl_b AND 0x02 \<noteq> 0),
            th_fin = (fl_b AND 0x01 \<noteq> 0), th_win = win, th_cksum = cksum, th_uptr = uptr\<rparr>
      in if doff < 5 then Inr (HeaderTooShort, h, p)
         else rbind (NetParser_remove_prefix p (sub64 (unat doff * 4) TCPHeader_LENGTH)) (\<lambda>p.
           if NetParser_error p then Inr (np_error p, h, p) else Inr (NoError, h, p)))))))))))"

definition TCPHeader_flags :: "TCPHeader \<Rightarrow> 8 word" where
  "TCPHeader_flags h =
    ((if th_urg h then 0x20 else 0) OR (if th_ack h then 0x10 else 0) OR (if th_psh h then 0x08 else 0) OR
     (if th_rst h then 0x04 else 0) OR (if th_syn h then 0x02 else 0) OR (if th_fin h then 0x01 else 0))"

definition TCPHeader_serialize :: "TCPHeader \<Rightarrow> bytes res" where
  "TCPHeader_serialize h =
    (if th_doff h < 5 then Inl (RuntimeError ''TCP header too short'')
     else
      let ret = NetUnparser_u16 [] (th_sport h);
          ret = NetUnparser_u16 ret (th_dport h);
          ret = NetUnparser_u32 ret (raw_value (th_seqno h));
          ret = NetUnparser_u32 ret (raw_value (th_ackno h));
          ret = NetUnparser_u8 ret (push_bit 4 (th_doff h));
          ret = NetUnparser_u8 ret (TCPHeader_flags h);
          ret = NetUnparser_u16 ret (th_win h);
          ret = NetUnparser_u16 ret (th_cksum h);
          ret = NetUnparser_u16 ret (th_uptr h)
      in Inr (string_resize ret (4 * unat (th_doff h))))"

definition TCPHeader_eq :: "TCPHeader \<Rightarrow> TCPHeader \<Rightarrow> bool" where
  "TCPHeader_eq h other \<longleftrightarrow> th_seqno h = th_seqno other \<and> th_ackno h = th_ackno other \<and>
    th_doff h = th_doff other \<and> th_urg h = th_urg other \<and> th_ack h = th_ack other \<and> th_psh h = th_psh other \<and>
    th_rst h = th_rst other \<and> th_syn h = th_syn other \<and> th_fin h = th_fin other \<and> th_win h = th_win other \<and>
    th_uptr h = th_uptr other"

section \<open>TCPSegment\<close>

record TCPSegment =
  ts_header :: TCPHeader
  ts_payload :: Buffer

definition TCPSegment_default :: TCPSegment where
  "TCPSegment_default = \<lparr>ts_header = TCPHeader_default, ts_payload = Buffer_empty\<rparr>"

text \<open>The segment \<open>parse\<close> is called on survives only a bad checksum.\<close>

definition TCPSegment_parse :: "TCPSegment \<Rightarrow> Buffer \<Rightarrow> 32 word \<Rightarrow> (ParseResult \<times> TCPSegment) res" where
  "TCPSegment_parse seg buffer datagram_layer_checksum =
    (let check = InternetChecksum_add (InternetChecksum_make datagram_layer_checksum) (Buffer_str buffer) in
      if InternetChecksum_value check \<noteq> 0 then Inr (BadChecksum, seg)
      else rbind (TCPHeader_parse (NetParser_make buffer)) (\<lambda>(res, h, p).
        Inr (np_error p, \<lparr>ts_header = h, ts_payload = np_buffer p\<rparr>)))"

definition TCPSegment_length_in_sequence_space :: "TCPSegment \<Rightarrow> size_t" where
  "TCPSegment_length_in_sequence_space seg =
    add64 (add64 (length (Buffer_str (ts_payload seg))) (if th_syn (ts_header seg) then 1 else 0))
      (if th_fin (ts_header seg) then 1 else 0)"

definition TCPSegment_serialize :: "TCPSegment \<Rightarrow> 32 word \<Rightarrow> BufferList res" where
  "TCPSegment_serialize seg datagram_layer_checksum =
    (let header_out = (ts_header seg)\<lparr>th_cksum := 0\<rparr> in
      rbind (TCPHeader_serialize header_out) (\<lambda>s.
        let check = InternetChecksum_add (InternetChecksum_make datagram_layer_checksum) s;
            check = InternetChecksum_add check (Buffer_str (ts_payload seg));
            header_out = header_out\<lparr>th_cksum := InternetChecksum_value check\<rparr>
        in rbind (TCPHeader_serialize header_out) (\<lambda>s.
          let ret = BufferList_append [] (BufferList_of_string s)
          in Inr (BufferList_append ret (BufferList_of_Buffer (ts_payload seg))))))"

lemmas [sponge_eval] = TCPHeader_LENGTH_def TCPHeader_default_def TCPHeader_parse_def
  TCPHeader_flags_def TCPHeader_serialize_def TCPHeader_eq_def TCPSegment_default_def TCPSegment_parse_def
  TCPSegment_length_in_sequence_space_def TCPSegment_serialize_def

section \<open>The wire format of the header\<close>

text \<open>The bytes in front of the checksum field, and those behind it.\<close>

definition TCPHeader_front :: "TCPHeader \<Rightarrow> bytes" where
  "TCPHeader_front h = be_bytes (th_sport h) @ be_bytes (th_dport h) @ be_bytes (raw_value (th_seqno h)) @
    be_bytes (raw_value (th_ackno h)) @ be_bytes (push_bit 4 (th_doff h)) @ be_bytes (TCPHeader_flags h) @
    be_bytes (th_win h)"

definition TCPHeader_back :: "TCPHeader \<Rightarrow> bytes" where
  "TCPHeader_back h = be_bytes (th_uptr h) @ replicate (4 * unat (th_doff h) - 20) 0"

definition TCPHeader_valid :: "TCPHeader \<Rightarrow> bool" where
  "TCPHeader_valid h \<longleftrightarrow> 5 \<le> th_doff h \<and> th_doff h \<le> 15"

lemma TCPHeader_doff:
  assumes "TCPHeader_valid h"
  shows "\<not> th_doff h < 5" "5 \<le> unat (th_doff h)" "unat (th_doff h) \<le> 15"
  using assms by (simp_all add: TCPHeader_valid_def word_le_nat_alt word_less_nat_alt)

lemma length_TCPHeader_front [simp]: "length (TCPHeader_front h) = 16"
  by (simp add: TCPHeader_front_def)

lemma TCPHeader_front_cksum [simp]: "TCPHeader_front (h\<lparr>th_cksum := c\<rparr>) = TCPHeader_front h"
  "TCPHeader_back (h\<lparr>th_cksum := c\<rparr>) = TCPHeader_back h" "TCPHeader_valid (h\<lparr>th_cksum := c\<rparr>) = TCPHeader_valid h"
  by (simp_all add: TCPHeader_front_def TCPHeader_back_def TCPHeader_valid_def TCPHeader_flags_def)

definition TCPHeader_bytes :: "TCPHeader \<Rightarrow> bytes" where
  "TCPHeader_bytes h = TCPHeader_front h @ be_bytes (th_cksum h) @ TCPHeader_back h"

lemma length_TCPHeader_bytes: "TCPHeader_valid h \<Longrightarrow> length (TCPHeader_bytes h) = 4 * unat (th_doff h)"
  using TCPHeader_doff [of h] by (simp add: TCPHeader_bytes_def TCPHeader_back_def)

lemma TCPHeader_serialize_eq:
  assumes "TCPHeader_valid h"
  shows "TCPHeader_serialize h = Inr (TCPHeader_bytes h)"
  using TCPHeader_doff [OF assms]
  by (simp add: TCPHeader_serialize_def NetUnparser_eqs string_resize_def TCPHeader_bytes_def TCPHeader_front_def
    TCPHeader_back_def Let_def)

lemma TCPHeader_flags_bits:
  "(TCPHeader_flags h AND 0x20 \<noteq> 0) = th_urg h" "(TCPHeader_flags h AND 0x10 \<noteq> 0) = th_ack h"
  "(TCPHeader_flags h AND 0x08 \<noteq> 0) = th_psh h" "(TCPHeader_flags h AND 0x04 \<noteq> 0) = th_rst h"
  "(TCPHeader_flags h AND 0x02 \<noteq> 0) = th_syn h" "(TCPHeader_flags h AND 0x01 \<noteq> 0) = th_fin h"
  by (cases "th_urg h"; cases "th_ack h"; cases "th_psh h"; cases "th_rst h"; cases "th_syn h"; cases "th_fin h";
    simp add: TCPHeader_flags_def)+

lemma nibble_roundtrip: "d \<le> 15 \<Longrightarrow> drop_bit 4 (push_bit 4 d) = d" for d :: "8 word"
proof -
  assume "d \<le> 15"
  then have "unat d \<le> 15"
    by (simp add: word_le_nat_alt)
  then show ?thesis
    by (simp add: word_unat_eq_iff drop_bit_eq_div push_bit_eq_mult unat_div unat_word_ariths)
qed

lemma TCPHeader_parse_bytes:
  assumes "TCPHeader_valid h" "NetParser_ready p" "NetParser_str p = TCPHeader_bytes h @ rest"
  shows "returns (TCPHeader_parse p) (\<lambda>(res, h', p'). res = NoError \<and> h' = h \<and> NetParser_ready p' \<and> NetParser_str p' = rest)"
proof -
  note doff = TCPHeader_doff [OF assms(1)]
  have str: "NetParser_str p = be_bytes (th_sport h) @ be_bytes (th_dport h) @ be_bytes (raw_value (th_seqno h)) @
      be_bytes (raw_value (th_ackno h)) @ be_bytes (push_bit 4 (th_doff h)) @ be_bytes (TCPHeader_flags h) @
      be_bytes (th_win h) @ be_bytes (th_cksum h) @ be_bytes (th_uptr h) @
      replicate (4 * unat (th_doff h) - 20) 0 @ rest"
    using assms(3) by (simp add: TCPHeader_bytes_def TCPHeader_front_def TCPHeader_back_def)
  have "unat (th_doff h) * 4 < W64"
    using doff W64_gt(1) by linarith
  then have len: "sub64 (unat (th_doff h) * 4) TCPHeader_LENGTH = length (replicate (4 * unat (th_doff h) - 20) (0 :: byte))"
    using doff by (simp add: TCPHeader_LENGTH_def u64_simps)
  show ?thesis
    unfolding TCPHeader_parse_def
    by (rule parse_fields(2) [OF assms(2) str], (rule parse_fields, assumption, assumption)+,
      drule (1) NetParser_remove_ready [OF _ _ len],
      use doff assms(1) in \<open>auto simp: nibble_roundtrip TCPHeader_valid_def TCPHeader_flags_bits Let_def
        NetParser_ready_def NetParser_error_def\<close>)
qed

text \<open>With a data offset below 5 the header is read as well, but reported as too short.\<close>

lemma TCPHeader_parse_short:
  assumes "th_doff h < 5" "NetParser_ready p"
    and "NetParser_str p = TCPHeader_front h @ be_bytes (th_cksum h) @ be_bytes (th_uptr h) @ rest"
  shows "returns (TCPHeader_parse p) (\<lambda>(res, h', p'). res = HeaderTooShort \<and> h' = h \<and> NetParser_ready p' \<and> NetParser_str p' = rest)"
proof -
  have str: "NetParser_str p = be_bytes (th_sport h) @ be_bytes (th_dport h) @ be_bytes (raw_value (th_seqno h)) @
      be_bytes (raw_value (th_ackno h)) @ be_bytes (push_bit 4 (th_doff h)) @ be_bytes (TCPHeader_flags h) @
      be_bytes (th_win h) @ be_bytes (th_cksum h) @ be_bytes (th_uptr h) @ rest"
    using assms(3) by (simp add: TCPHeader_front_def)
  have doff: "th_doff h \<le> 15"
    using assms(1) by (simp add: word_less_nat_alt word_le_nat_alt)
  show ?thesis
    unfolding TCPHeader_parse_def
    by (rule parse_fields(2) [OF assms(2) str], (rule parse_fields, assumption, assumption)+,
      use assms(1) doff in \<open>simp add: nibble_roundtrip TCPHeader_flags_bits Let_def\<close>)
qed

interpretation tcph: codec "\<lambda>p. rbind (TCPHeader_parse p) (\<lambda>(res, h, p'). Inr (h, p'))" TCPHeader_bytes TCPHeader_valid
proof
  show "\<exists>p'. rbind (TCPHeader_parse p) (\<lambda>(res, h, p'). Inr (h, p')) = Inr (v, p') \<and> NetParser_ready p' \<and> NetParser_str p' = rest"
    if "TCPHeader_valid v" "NetParser_ready p" "NetParser_str p = TCPHeader_bytes v @ rest" for v p rest
    using returnsD [OF TCPHeader_parse_bytes [OF that]] by auto
qed

text \<open>What the header says when the parser accepts arbitrary bytes.\<close>

lemma TCPHeader_skip_options:
  fixes doff :: "8 word"
  assumes "NetParser_skipped 20 p0 p"
  shows "returns (if doff < 5 then Inr (HeaderTooShort, h, p)
      else rbind (NetParser_remove_prefix p (sub64 (unat doff * 4) TCPHeader_LENGTH)) (\<lambda>p.
        if NetParser_error p then Inr (np_error p, h, p) else Inr (NoError, h, p)))
    (\<lambda>(res, h', p'). h' = h \<and> NetParser_skipped (max 20 (4 * unat doff)) p0 p' \<and>
      (np_error p' = NoError \<longrightarrow> res = (if doff < 5 then HeaderTooShort else NoError)))"
proof (cases "doff < 5")
  case True
  then have "unat doff < 5"
    by (simp add: word_less_nat_alt)
  then show ?thesis
    using True assms by (simp add: max_def)
next
  case False
  then have doff: "5 \<le> unat doff"
    by (simp add: word_less_nat_alt)
  have "unat doff < 256"
    using unsigned_less [of doff] by simp
  then have "unat doff * 4 < W64"
    using W64_gt(1) by linarith
  then have len: "sub64 (unat doff * 4) TCPHeader_LENGTH = unat doff * 4 - 20" "20 + (unat doff * 4 - 20) = max 20 (4 * unat doff)"
    using doff by (simp_all add: TCPHeader_LENGTH_def u64_simps)
  have "returns (NetParser_remove_prefix p (unat doff * 4 - 20)) (\<lambda>p'. NetParser_skipped (max 20 (4 * unat doff)) p0 p')"
    using NetParser_remove_any [OF assms, of "unat doff * 4 - 20"] by (simp only: len)
  then show ?thesis
    using False len(1) by (auto simp: NetParser_error_def elim!: returns_mono)
qed

lemma TCPHeader_parse_any:
  assumes "NetParser_wf p"
  shows "returns (TCPHeader_parse p) (\<lambda>(res, h, p'). NetParser_skipped (max 20 (4 * unat (th_doff h))) p p' \<and>
    (np_error p' = NoError \<longrightarrow> res = (if th_doff h < 5 then HeaderTooShort else NoError)))"
  unfolding TCPHeader_parse_def Let_def
  by (rule parse_any(2) [OF NetParser_skipped_0 [OF assms]], (rule parse_any, assumption)+,
    rule returns_mono [OF TCPHeader_skip_options [where ?p0.0 = p]], simp, clarsimp)

section \<open>Serialized segments\<close>

lemma TCPSegment_serialize_eq:
  assumes "TCPHeader_valid (ts_header seg)"
  shows "TCPSegment_serialize seg d = Inr
    [Buffer_of (TCPHeader_bytes ((ts_header seg)\<lparr>th_cksum := InternetChecksum_value (InternetChecksum_add
        (InternetChecksum_make d) (TCPHeader_bytes ((ts_header seg)\<lparr>th_cksum := 0\<rparr>) @ Buffer_str (ts_payload seg)))\<rparr>)),
     ts_payload seg]"
  using assms by (simp add: TCPSegment_serialize_def TCPHeader_serialize_eq BufferList_of_string_def
    BufferList_of_Buffer_def Let_def)

text \<open>The header with its checksum filled in, as it goes out.\<close>

definition TCPSegment_checksum :: "TCPSegment \<Rightarrow> 32 word \<Rightarrow> 16 word" where
  "TCPSegment_checksum seg d = InternetChecksum_value (InternetChecksum_add
    (InternetChecksum_make d) (TCPHeader_bytes ((ts_header seg)\<lparr>th_cksum := 0\<rparr>) @ Buffer_str (ts_payload seg)))"

lemma TCPSegment_checksum_ok:
  assumes "TCPHeader_valid (ts_header seg)" "4 * unat (th_doff (ts_header seg)) + length (Buffer_str (ts_payload seg)) \<le> 65535"
    and "unat d < 2 ^ 23"
  shows "InternetChecksum_value (InternetChecksum_add (InternetChecksum_make d)
    (TCPHeader_bytes ((ts_header seg)\<lparr>th_cksum := TCPSegment_checksum seg d\<rparr>) @ Buffer_str (ts_payload seg))) = 0"
proof -
  let ?h = "ts_header seg" and ?post = "TCPHeader_back (ts_header seg) @ Buffer_str (ts_payload seg)"
  have zero: "be_bytes (0 :: 16 word) = [0, 0]"
    by (simp add: be_bytes_def upt_rec)
  have bytes: "TCPHeader_bytes (?h\<lparr>th_cksum := c\<rparr>) @ Buffer_str (ts_payload seg) = TCPHeader_front ?h @ be_bytes c @ ?post" for c
    by (simp add: TCPHeader_bytes_def)
  have "length (TCPHeader_front ?h @ [0, 0] @ ?post) \<le> 65535"
    using assms(2) TCPHeader_doff [OF assms(1)] by (simp add: TCPHeader_back_def)
  then have "ck_weight False (TCPHeader_front ?h @ [0, 0] @ ?post) \<le> 65280 * 65535"
    using ck_weight_bound [of False "TCPHeader_front ?h @ [0, 0] @ ?post"] by linarith
  then show ?thesis
    unfolding bytes using assms(3)
    by (intro InternetChecksum_fill) (simp_all add: TCPSegment_checksum_def TCPHeader_bytes_def zero)
qed

lemma TCPSegment_wire:
  assumes "TCPHeader_valid (ts_header seg)"
    and "4 * unat (th_doff (ts_header seg)) + length (Buffer_str (ts_payload seg)) \<le> 65535" "unat d < 2 ^ 23"
  shows "\<exists>bl c. TCPSegment_serialize seg d = Inr bl \<and>
    length (BufferList_concatenate bl) = 4 * unat (th_doff (ts_header seg)) + length (Buffer_str (ts_payload seg)) \<and>
    (Buffer_wf (ts_payload seg) \<longrightarrow> list_all Buffer_wf bl) \<and>
    (\<forall>b seg0. Buffer_wf b \<and> Buffer_str b = BufferList_concatenate bl \<longrightarrow>
      (\<exists>payload. TCPSegment_parse seg0 b d =
        Inr (NoError, \<lparr>ts_header = (ts_header seg)\<lparr>th_cksum := c\<rparr>, ts_payload = payload\<rparr>) \<and>
        Buffer_wf payload \<and> Buffer_str payload = Buffer_str (ts_payload seg)))"
proof -
  let ?h = "(ts_header seg)\<lparr>th_cksum := TCPSegment_checksum seg d\<rparr>"
  let ?s = "TCPHeader_bytes ?h @ Buffer_str (ts_payload seg)"
  let ?bl = "[Buffer_of (TCPHeader_bytes ?h), ts_payload seg]"
  have ser: "TCPSegment_serialize seg d = Inr ?bl"
    using TCPSegment_serialize_eq [OF assms(1)] by (simp add: TCPSegment_checksum_def)
  have str: "BufferList_concatenate ?bl = ?s"
    by (simp add: BufferList_concatenate_eq)
  have valid: "TCPHeader_valid ?h"
    using assms(1) by simp
  have parse: "\<exists>payload. TCPSegment_parse seg0 b d = Inr (NoError, \<lparr>ts_header = ?h, ts_payload = payload\<rparr>) \<and>
      Buffer_wf payload \<and> Buffer_str payload = Buffer_str (ts_payload seg)"
    if b: "Buffer_wf b" "Buffer_str b = ?s" for b seg0
  proof -
    have "NetParser_ready (NetParser_make b)" "NetParser_str (NetParser_make b) = TCPHeader_bytes ?h @ Buffer_str (ts_payload seg)"
      using b by simp_all
    from returnsD [OF TCPHeader_parse_bytes [OF valid this]]
    obtain p' where p': "TCPHeader_parse (NetParser_make b) = Inr (NoError, ?h, p')" "NetParser_ready p'"
      "NetParser_str p' = Buffer_str (ts_payload seg)"
      by auto
    then have "TCPSegment_parse seg0 b d = Inr (NoError, \<lparr>ts_header = ?h, ts_payload = np_buffer p'\<rparr>)"
      using b(2) TCPSegment_checksum_ok [OF assms] by (simp add: TCPSegment_parse_def Let_def NetParser_ready_def)
    then show ?thesis
      using p'(2,3) by (simp add: NetParser_str_def NetParser_ready_def NetParser_wf_def)
  qed
  have "length (TCPHeader_bytes ?h) < W64"
    using assms(2) W64_gt(1) by (simp add: length_TCPHeader_bytes [OF valid] del: W64_gt)
  then show ?thesis
    using ser parse by (intro exI [of _ ?bl] exI [of _ "TCPSegment_checksum seg d"])
      (simp add: str length_TCPHeader_bytes [OF valid])
qed

section \<open>Properties\<close>

text \<open>C12: a serialized segment is parsed back. A segment with a legal data offset (5 to 15 words) and a
  total size of at most 65535 bytes is serialized without an exception, and parsing the bytes with the
  same pseudo-header checksum succeeds and gives the same header, with the checksum filled in, and the
  same payload.\<close>

theorem TCPSegment_roundtrip:
  assumes "TCPHeader_valid (ts_header seg)"
    and "4 * unat (th_doff (ts_header seg)) + length (Buffer_str (ts_payload seg)) \<le> 65535" "unat d < 2 ^ 23"
  shows "\<exists>bl c payload. TCPSegment_serialize seg d = Inr bl \<and>
    TCPSegment_parse seg0 (Buffer_of (BufferList_concatenate bl)) d =
      Inr (NoError, \<lparr>ts_header = (ts_header seg)\<lparr>th_cksum := c\<rparr>, ts_payload = payload\<rparr>) \<and>
    Buffer_str payload = Buffer_str (ts_payload seg)"
proof -
  obtain bl c where bl: "TCPSegment_serialize seg d = Inr bl"
    "length (BufferList_concatenate bl) = 4 * unat (th_doff (ts_header seg)) + length (Buffer_str (ts_payload seg))"
    "\<And>b. Buffer_wf b \<and> Buffer_str b = BufferList_concatenate bl \<longrightarrow> (\<exists>payload. TCPSegment_parse seg0 b d =
      Inr (NoError, \<lparr>ts_header = (ts_header seg)\<lparr>th_cksum := c\<rparr>, ts_payload = payload\<rparr>) \<and>
      Buffer_wf payload \<and> Buffer_str payload = Buffer_str (ts_payload seg))"
    using TCPSegment_wire [OF assms] by blast
  have "length (BufferList_concatenate bl) < W64"
    using assms(2) W64_gt(1) unfolding bl(2) by linarith
  then show ?thesis
    using bl(1) bl(3) [of "Buffer_of (BufferList_concatenate bl)"] by auto
qed

theorem TCPSegment_roundtrip_witness:
  "\<exists>bl c payload. TCPSegment_serialize \<lparr>ts_header = TCPHeader_default\<lparr>th_syn := True, th_win := 1000\<rparr>, ts_payload = Buffer_of [1, 2, 3]\<rparr> 0 = Inr bl \<and>
    TCPSegment_parse TCPSegment_default (Buffer_of (BufferList_concatenate bl)) 0 =
      Inr (NoError, \<lparr>ts_header = TCPHeader_default\<lparr>th_syn := True, th_win := 1000, th_cksum := c\<rparr>, ts_payload = payload\<rparr>) \<and>
    Buffer_str payload = [1, 2, 3]"
proof -
  let ?seg = "\<lparr>ts_header = TCPHeader_default\<lparr>th_syn := True, th_win := 1000\<rparr>, ts_payload = Buffer_of [1, 2, 3]\<rparr>"
  have "TCPHeader_valid (ts_header ?seg)"
    "4 * unat (th_doff (ts_header ?seg)) + length (Buffer_str (ts_payload ?seg)) \<le> 65535" "unat (0 :: 32 word) < 2 ^ 23"
    by (simp_all add: TCPHeader_valid_def TCPHeader_default_def TCPHeader_LENGTH_def)
  from TCPSegment_roundtrip [OF this, of TCPSegment_default] show ?thesis
    by simp
qed

text \<open>What an accepted segment is. Parsing never throws on a buffer whose view lies in its string;
  if it reports success, the checksum over the pseudo-header and all bytes is zero, there are at least
  20 bytes and all the bytes the data offset announces, and the payload is what follows them; a data
  offset below 5 is taken as if it were 5.\<close>

lemma TCPSegment_parse_accepts:
  assumes "Buffer_wf b"
  shows "\<exists>res seg. TCPSegment_parse seg0 b d = Inr (res, seg) \<and>
    (res = NoError \<longrightarrow>
      InternetChecksum_value (InternetChecksum_add (InternetChecksum_make d) (Buffer_str b)) = 0 \<and>
      max 20 (4 * unat (th_doff (ts_header seg))) \<le> length (Buffer_str b) \<and>
      Buffer_str (ts_payload seg) = drop (max 20 (4 * unat (th_doff (ts_header seg)))) (Buffer_str b))"
proof (cases "InternetChecksum_value (InternetChecksum_add (InternetChecksum_make d) (Buffer_str b)) = 0")
  case True
  have "NetParser_wf (NetParser_make b)"
    using assms by simp
  from returnsD [OF TCPHeader_parse_any [OF this]]
  show ?thesis
    using True by (auto simp: TCPSegment_parse_def Let_def NetParser_skipped_def) (simp add: NetParser_str_def)
qed (simp add: TCPSegment_parse_def)

lemma TCPSegment_parse_accepts_witness:
  "\<exists>res seg. TCPSegment_parse TCPSegment_default (Buffer_of [1, 2]) 0 = Inr (res, seg) \<and>
    (res = NoError \<longrightarrow> max 20 (4 * unat (th_doff (ts_header seg))) \<le> length (Buffer_str (Buffer_of [1, 2])))"
proof -
  have "Buffer_wf (Buffer_of [1, 2])"
    by (simp add: W64_def)
  from TCPSegment_parse_accepts [OF this, of TCPSegment_default 0] show ?thesis
    by blast
qed

text \<open>A segment whose header claims to be too short is accepted. For a data offset below 5 words
  \<open>TCPHeader::parse\<close> reports \<open>HeaderTooShort\<close>, but \<open>TCPSegment::parse\<close> ignores that: with
  a matching checksum it reports success and hands on everything behind the first 20 bytes.\<close>

lemma TCPSegment_parse_ignores_HeaderTooShort:
  assumes "Buffer_wf b" "th_doff h < 5"
    and "Buffer_str b = TCPHeader_front h @ be_bytes (th_cksum h) @ be_bytes (th_uptr h) @ data"
    and "InternetChecksum_value (InternetChecksum_add (InternetChecksum_make d) (Buffer_str b)) = 0"
  shows "\<exists>p payload. TCPHeader_parse (NetParser_make b) = Inr (HeaderTooShort, h, p) \<and>
    TCPSegment_parse seg0 b d = Inr (NoError, \<lparr>ts_header = h, ts_payload = payload\<rparr>) \<and> Buffer_str payload = data"
proof -
  have "NetParser_ready (NetParser_make b)" "NetParser_str (NetParser_make b) =
      TCPHeader_front h @ be_bytes (th_cksum h) @ be_bytes (th_uptr h) @ data"
    using assms(1,3) by simp_all
  from returnsD [OF TCPHeader_parse_short [OF assms(2) this]]
  show ?thesis
    using assms(4) by (auto simp: TCPSegment_parse_def NetParser_ready_def NetParser_str_def)
qed

lemma TCPSegment_parse_ignores_HeaderTooShort_witness:
  "\<exists>p payload. TCPHeader_parse (NetParser_make (Buffer_of [0, 0, 0, 0, 0, 0, 0, 0, 0, 0, 0, 0, 0, 0, 0, 0, 0xff, 0xff, 0, 0])) =
      Inr (HeaderTooShort, TCPHeader_default\<lparr>th_doff := 0, th_cksum := 0xffff\<rparr>, p) \<and>
    TCPSegment_parse TCPSegment_default (Buffer_of [0, 0, 0, 0, 0, 0, 0, 0, 0, 0, 0, 0, 0, 0, 0, 0, 0xff, 0xff, 0, 0]) 0 =
      Inr (NoError, \<lparr>ts_header = TCPHeader_default\<lparr>th_doff := 0, th_cksum := 0xffff\<rparr>, ts_payload = payload\<rparr>) \<and>
    Buffer_str payload = []"
proof -
  let ?s = "[0, 0, 0, 0, 0, 0, 0, 0, 0, 0, 0, 0, 0, 0, 0, 0, 0xff, 0xff, 0, 0] :: bytes"
  let ?h = "TCPHeader_default\<lparr>th_doff := 0, th_cksum := 0xffff\<rparr>"
  have "Buffer_wf (Buffer_of ?s)" "th_doff ?h < 5"
    by (simp_all add: W64_def)
  moreover have "Buffer_str (Buffer_of ?s) = TCPHeader_front ?h @ be_bytes (th_cksum ?h) @ be_bytes (th_uptr ?h) @ []"
    by (simp add: TCPHeader_front_def TCPHeader_default_def TCPHeader_flags_def be_bytes_def upt_rec)
  moreover have "InternetChecksum_value (InternetChecksum_add (InternetChecksum_make 0) (Buffer_str (Buffer_of ?s))) = 0"
    by (simp add: InternetChecksum_make_def InternetChecksum_add_def InternetChecksum_add_byte_def
      InternetChecksum_value_def InternetChecksum_fold.simps)
  ultimately show ?thesis
    by (rule TCPSegment_parse_ignores_HeaderTooShort)
qed

end
