(* ===== verification/IPv4.thy ===== *)
theory IPv4
  imports TCP_Segment
begin

text \<open>
  IPv4 datagrams, \<open>libsponge/tcp_helpers/ipv4_header.hh\<close>, \<open>ipv4_header.cc\<close>,
  \<open>ipv4_datagram.hh\<close> and \<open>ipv4_datagram.cc\<close>: the header with its wire format and its
  contribution to the TCP checksum, and the datagram. A serialized datagram is parsed back to
  itself; the datagram parser, however, ignores what the header parser finds wrong.
\<close>

section \<open>IPv4Header\<close>

record IPv4Header =
  ip_ver :: "8 word"
  ip_hlen :: "8 word"
  ip_tos :: "8 word"
  ip_len :: "16 word"
  ip_id :: "16 word"
  ip_df :: bool
  ip_mf :: bool
  ip_offset :: "16 word"
  ip_ttl :: "8 word"
  ip_proto :: "8 word"
  ip_cksum :: "16 word"
  ip_src :: "32 word"
  ip_dst :: "32 word"

definition IPv4Header_LENGTH :: size_t where
  "IPv4Header_LENGTH = 20"

definition IPv4Header_default :: IPv4Header where
  "IPv4Header_default = \<lparr>ip_ver = 4, ip_hlen = of_nat (IPv4Header_LENGTH div 4), ip_tos = 0, ip_len = 0, ip_id = 0,
     ip_df = True, ip_mf = False, ip_offset = 0, ip_ttl = 128, ip_proto = 6, ip_cksum = 0, ip_src = 0, ip_dst = 0\<rparr>"

text \<open>The header \<open>parse\<close> is called on survives only a buffer that is too short for any header.\<close>

definition IPv4Header_parse :: "IPv4Header \<Rightarrow> NetParser \<Rightarrow> (ParseResult \<times> IPv4Header \<times> NetParser) res" where
  "IPv4Header_parse h0 p =
    (let original_serialized_version = np_buffer p;
         data_size = Buffer_size (np_buffer p)
     in if data_size < IPv4Header_LENGTH then Inr (PacketTooShort, h0, p)
        else
          rbind (NetParser_u8 p) (\<lambda>(first_byte, p).
          rbind (NetParser_u8 p) (\<lambda>(tos, p).
          rbind (NetParser_u16 p) (\<lambda>(len, p).
          rbind (NetParser_u16 p) (\<lambda>(id, p).
          rbind (NetParser_u16 p) (\<lambda>(fo_val, p).
          rbind (NetParser_u8 p) (\<lambda>(ttl, p).
          rbind (NetParser_u8 p) (\<lambda>(proto, p).
          rbind (NetParser_u16 p) (\<lambda>(cksum, p).
          rbind (NetParser_u32 p) (\<lambda>(src, p).
          rbind (NetParser_u32 p) (\<lambda>(dst, p).
            let ver = drop_bit 4 first_byte;
                hlen = first_byte AND 0x0f;
                h = \<lparr>ip_ver = ver, ip_hlen = hlen, ip_tos = tos, ip_len = len, ip_id = id,
                  ip_df = (fo_val AND 0x4000 \<noteq> 0), ip_mf = (fo_val AND 0x2000 \<noteq> 0), ip_offset = fo_val AND 0x1fff,
                  ip_ttl = ttl, ip_proto = proto, ip_cksum = cksum, ip_src = src, ip_dst = dst\<rparr>
            in if data_size < 4 * unat hlen then Inr (PacketTooShort, h, p)
               else if ver \<noteq> 4 then Inr (WrongIPVersion, h, p)
               else if hlen < 5 then Inr (HeaderTooShort, h, p)
               else if data_size \<noteq> unat len then Inr (TruncatedPacket, h, p)
               else rbind (NetParser_remove_prefix p (sub64 (unat hlen * 4) IPv4Header_LENGTH)) (\<lambda>p.
                 if NetParser_error p then Inr (np_error p, h, p)
                 else let check = InternetChecksum_add (InternetChecksum_make 0)
                        (take (4 * unat hlen) (Buffer_str original_serialized_version))
                      in if InternetChecksum_value check \<noteq> 0 then Inr (BadChecksum, h, p)
                         else Inr (NoError, h, p)))))))))))))"

definition IPv4Header_first_byte :: "IPv4Header \<Rightarrow> 8 word" where
  "IPv4Header_first_byte h = (push_bit 4 (ip_ver h) OR (ip_hlen h AND 0xf))"

definition IPv4Header_fo_val :: "IPv4Header \<Rightarrow> 16 word" where
  "IPv4Header_fo_val h =
    ((if ip_df h then 0x4000 else 0) OR (if ip_mf h then 0x2000 else 0) OR (ip_offset h AND 0x1fff))"

definition IPv4Header_serialize :: "IPv4Header \<Rightarrow> bytes res" where
  "IPv4Header_serialize h =
    (if ip_ver h \<noteq> 4 then Inl (RuntimeError ''wrong IP version'')
     else if 4 * unat (ip_hlen h) < IPv4Header_LENGTH then Inl (RuntimeError ''IP header too short'')
     else
      let ret = NetUnparser_u8 [] (IPv4Header_first_byte h);
          ret = NetUnparser_u8 ret (ip_tos h);
          ret = NetUnparser_u16 ret (ip_len h);
          ret = NetUnparser_u16 ret (ip_id h);
          ret = NetUnparser_u16 ret (IPv4Header_fo_val h);
          ret = NetUnparser_u8 ret (ip_ttl h);
          ret = NetUnparser_u8 ret (ip_proto h);
          ret = NetUnparser_u16 ret (ip_cksum h);
          ret = NetUnparser_u32 ret (ip_src h);
          ret = NetUnparser_u32 ret (ip_dst h)
      in Inr (string_resize ret (4 * unat (ip_hlen h))))"

definition IPv4Header_payload_length :: "IPv4Header \<Rightarrow> 16 word" where
  "IPv4Header_payload_length h = ip_len h - 4 * ucast (ip_hlen h)"

definition IPv4Header_pseudo_cksum :: "IPv4Header \<Rightarrow> 32 word" where
  "IPv4Header_pseudo_cksum h =
    (let pcksum = drop_bit 16 (ip_src h) + (ip_src h AND 0xffff);
         pcksum = pcksum + (drop_bit 16 (ip_dst h) + (ip_dst h AND 0xffff));
         pcksum = pcksum + ucast (ip_proto h);
         pcksum = pcksum + ucast (IPv4Header_payload_length h)
     in pcksum)"

section \<open>IPv4Datagram\<close>

record IPv4Datagram =
  dg_header :: IPv4Header
  dg_payload :: BufferList

definition IPv4Datagram_default :: IPv4Datagram where
  "IPv4Datagram_default = \<lparr>dg_header = IPv4Header_default, dg_payload = []\<rparr>"

definition IPv4Datagram_parse :: "IPv4Datagram \<Rightarrow> Buffer \<Rightarrow> (ParseResult \<times> IPv4Datagram) res" where
  "IPv4Datagram_parse dg buffer =
    rbind (IPv4Header_parse (dg_header dg) (NetParser_make buffer)) (\<lambda>(res, h, p).
      let dg' = \<lparr>dg_header = h, dg_payload = BufferList_of_Buffer (np_buffer p)\<rparr>
      in if BufferList_size (dg_payload dg') \<noteq> unat (IPv4Header_payload_length h)
         then Inr (PacketTooShort, dg')
         else Inr (np_error p, dg'))"

definition IPv4Datagram_serialize :: "IPv4Datagram \<Rightarrow> BufferList res" where
  "IPv4Datagram_serialize dg =
    (if BufferList_size (dg_payload dg) \<noteq> unat (IPv4Header_payload_length (dg_header dg))
     then Inl (RuntimeError ''IPv4Datagram::serialize: payload is wrong size'')
     else let header_out = (dg_header dg)\<lparr>ip_cksum := 0\<rparr> in
       rbind (IPv4Header_serialize header_out) (\<lambda>header_zero_checksum.
         let check = InternetChecksum_add (InternetChecksum_make 0) header_zero_checksum;
             header_out = header_out\<lparr>ip_cksum := InternetChecksum_value check\<rparr>
         in rbind (IPv4Header_serialize header_out) (\<lambda>s.
           let ret = BufferList_append [] (BufferList_of_string s)
           in Inr (BufferList_append ret (dg_payload dg)))))"

lemmas [sponge_eval] = IPv4Header_LENGTH_def IPv4Header_default_def IPv4Header_parse_def IPv4Header_first_byte_def
  IPv4Header_fo_val_def IPv4Header_serialize_def IPv4Header_payload_length_def IPv4Header_pseudo_cksum_def
  IPv4Datagram_default_def IPv4Datagram_parse_def IPv4Datagram_serialize_def

section \<open>The wire format of the header\<close>

definition IPv4Header_front :: "IPv4Header \<Rightarrow> bytes" where
  "IPv4Header_front h = be_bytes (IPv4Header_first_byte h) @ be_bytes (ip_tos h) @ be_bytes (ip_len h) @
    be_bytes (ip_id h) @ be_bytes (IPv4Header_fo_val h) @ be_bytes (ip_ttl h) @ be_bytes (ip_proto h)"

definition IPv4Header_back :: "IPv4Header \<Rightarrow> bytes" where
  "IPv4Header_back h = be_bytes (ip_src h) @ be_bytes (ip_dst h) @ replicate (4 * unat (ip_hlen h) - 20) 0"

definition IPv4Header_bytes :: "IPv4Header \<Rightarrow> bytes" where
  "IPv4Header_bytes h = IPv4Header_front h @ be_bytes (ip_cksum h) @ IPv4Header_back h"

definition IPv4Header_valid :: "IPv4Header \<Rightarrow> bool" where
  "IPv4Header_valid h \<longleftrightarrow> ip_ver h = 4 \<and> 5 \<le> ip_hlen h \<and> ip_hlen h \<le> 15 \<and> ip_offset h \<le> 0x1fff"

lemma IPv4Header_hlen:
  assumes "IPv4Header_valid h"
  shows "\<not> ip_hlen h < 5" "5 \<le> unat (ip_hlen h)" "unat (ip_hlen h) \<le> 15" "ip_ver h = 4"
  using assms by (simp_all add: IPv4Header_valid_def word_le_nat_alt word_less_nat_alt)

lemma IPv4Header_cksum [simp]: "IPv4Header_front (h\<lparr>ip_cksum := c\<rparr>) = IPv4Header_front h"
  "IPv4Header_back (h\<lparr>ip_cksum := c\<rparr>) = IPv4Header_back h" "IPv4Header_valid (h\<lparr>ip_cksum := c\<rparr>) = IPv4Header_valid h"
  "IPv4Header_payload_length (h\<lparr>ip_cksum := c\<rparr>) = IPv4Header_payload_length h"
  by (simp_all add: IPv4Header_front_def IPv4Header_back_def IPv4Header_valid_def IPv4Header_first_byte_def
    IPv4Header_fo_val_def IPv4Header_payload_length_def)

lemma length_IPv4Header_front [simp]: "length (IPv4Header_front h) = 10"
  by (simp add: IPv4Header_front_def)

lemma length_IPv4Header_bytes: "IPv4Header_valid h \<Longrightarrow> length (IPv4Header_bytes h) = 4 * unat (ip_hlen h)"
  using IPv4Header_hlen [of h] by (simp add: IPv4Header_bytes_def IPv4Header_back_def)

lemma IPv4Header_serialize_eq:
  assumes "IPv4Header_valid h"
  shows "IPv4Header_serialize h = Inr (IPv4Header_bytes h)"
  using IPv4Header_hlen [OF assms]
  by (simp add: IPv4Header_serialize_def NetUnparser_eqs string_resize_def IPv4Header_bytes_def IPv4Header_front_def
    IPv4Header_back_def IPv4Header_LENGTH_def Let_def)

lemma small_word:
  fixes x :: "'a::len word"
  assumes "unat x < 2 ^ n"
  shows "x AND mask n = x" "drop_bit n x = 0"
proof -
  show "x AND mask n = x"
    using assms by (simp add: word_unat_eq_iff take_bit_eq_mask [symmetric] unsigned_take_bit_eq take_bit_nat_eq_self)
  have "unat (drop_bit n x) = 0"
    unfolding unat_drop_bit_eq using assms by (simp add: drop_bit_eq_div)
  then show "drop_bit n x = 0"
    by (simp add: unat_0_iff)
qed

lemma IPv4Header_first_byte_parts:
  assumes "IPv4Header_valid h"
  shows "drop_bit 4 (IPv4Header_first_byte h) = 4" "IPv4Header_first_byte h AND 0x0f = ip_hlen h"
proof -
  have m: "mask 4 = (0xf :: 8 word)"
    by (simp add: mask_eq_exp_minus_1)
  have "unat (ip_hlen h) < 2 ^ 4"
    using IPv4Header_hlen(3) [OF assms] by simp
  note h = small_word [OF this, unfolded m]
  have "IPv4Header_first_byte h = 0x40 OR ip_hlen h"
    using assms h(1) by (simp add: IPv4Header_first_byte_def IPv4Header_valid_def)
  then show "drop_bit 4 (IPv4Header_first_byte h) = 4" "IPv4Header_first_byte h AND 0x0f = ip_hlen h"
    using h by (simp_all add: drop_bit_or bit.conj_disj_distrib2)
qed

lemma IPv4Header_fo_val_parts:
  assumes "IPv4Header_valid h"
  shows "(IPv4Header_fo_val h AND 0x4000 \<noteq> 0) = ip_df h" "(IPv4Header_fo_val h AND 0x2000 \<noteq> 0) = ip_mf h"
    "IPv4Header_fo_val h AND 0x1fff = ip_offset h"
proof -
  have m: "mask 13 = (0x1fff :: 16 word)"
    by (simp add: mask_eq_exp_minus_1)
  have "unat (ip_offset h) < 2 ^ 13"
    using assms by (simp add: IPv4Header_valid_def word_le_nat_alt)
  note o = small_word(1) [OF this, unfolded m]
  have "ip_offset h AND 0x4000 = ip_offset h AND (0x1fff AND 0x4000)" "ip_offset h AND 0x2000 = ip_offset h AND (0x1fff AND 0x2000)"
    using o by (metis and.assoc)+
  then have "ip_offset h AND 0x4000 = 0" "ip_offset h AND 0x2000 = 0"
    by simp_all
  then show "(IPv4Header_fo_val h AND 0x4000 \<noteq> 0) = ip_df h" "(IPv4Header_fo_val h AND 0x2000 \<noteq> 0) = ip_mf h"
    "IPv4Header_fo_val h AND 0x1fff = ip_offset h"
    using o by (auto simp: IPv4Header_fo_val_def bit.conj_disj_distrib2)
qed

text \<open>
  Reading a well-formed header back: the fields are right, and the result is decided by the length
  field and the checksum.
\<close>

definition IPv4Header_sum_ok :: "IPv4Header \<Rightarrow> bool" where
  "IPv4Header_sum_ok h \<longleftrightarrow> InternetChecksum_value (InternetChecksum_add (InternetChecksum_make 0) (IPv4Header_bytes h)) = 0"

lemma IPv4Header_parse_bytes:
  assumes valid: "IPv4Header_valid h" and ready: "NetParser_ready p" and bytes: "NetParser_str p = IPv4Header_bytes h @ rest"
    and len: "unat (ip_len h) = length (IPv4Header_bytes h) + length rest"
  shows "returns (IPv4Header_parse h0 p) (\<lambda>(res, h', p'). h' = h \<and> NetParser_ready p' \<and> NetParser_str p' = rest \<and>
    res = (if IPv4Header_sum_ok h then NoError else BadChecksum))"
proof -
  note hlen = IPv4Header_hlen [OF valid]
  have str: "NetParser_str p = be_bytes (IPv4Header_first_byte h) @ be_bytes (ip_tos h) @ be_bytes (ip_len h) @
      be_bytes (ip_id h) @ be_bytes (IPv4Header_fo_val h) @ be_bytes (ip_ttl h) @ be_bytes (ip_proto h) @
      be_bytes (ip_cksum h) @ be_bytes (ip_src h) @ be_bytes (ip_dst h) @ replicate (4 * unat (ip_hlen h) - 20) 0 @ rest"
    using bytes by (simp add: IPv4Header_bytes_def IPv4Header_front_def IPv4Header_back_def)
  have size: "Buffer_size (np_buffer p) = unat (ip_len h)" "Buffer_str (np_buffer p) = IPv4Header_bytes h @ rest"
    using bytes len by (simp_all add: Buffer_size_def NetParser_str_def)
  have bounds: "\<not> unat (ip_len h) < IPv4Header_LENGTH" "\<not> unat (ip_len h) < 4 * unat (ip_hlen h)"
    using len hlen by (simp_all add: length_IPv4Header_bytes [OF valid] IPv4Header_LENGTH_def)
  have head: "take (4 * unat (ip_hlen h)) (IPv4Header_bytes h @ r) = IPv4Header_bytes h" for r
    by (simp add: length_IPv4Header_bytes [OF valid])
  have "unat (ip_hlen h) * 4 < W64"
    using hlen W64_gt(1) by linarith
  then have skip: "sub64 (unat (ip_hlen h) * 4) IPv4Header_LENGTH = length (replicate (4 * unat (ip_hlen h) - 20) (0 :: byte))"
    using hlen by (simp add: IPv4Header_LENGTH_def u64_simps)
  show ?thesis
    unfolding IPv4Header_parse_def Let_def size if_not_P [OF bounds(1)]
    by (rule parse_fields(3) [OF ready str], (rule parse_fields, assumption, assumption)+,
      drule (1) NetParser_remove_ready [OF _ _ skip])
      (use hlen bounds(2) in \<open>auto simp: IPv4Header_first_byte_parts [OF valid] IPv4Header_fo_val_parts [OF valid]
        NetParser_ready_def NetParser_error_def head IPv4Header_sum_ok_def simp del: take_append\<close>)
qed

lemma IPv4Header_payload_length_eq:
  assumes "IPv4Header_valid h" "unat (ip_len h) = 4 * unat (ip_hlen h) + n"
  shows "unat (IPv4Header_payload_length h) = n"
proof -
  note hlen = IPv4Header_hlen [OF assms(1)]
  have h4: "unat (4 * ucast (ip_hlen h) :: 16 word) = 4 * unat (ip_hlen h)"
    using hlen by (simp add: unat_word_ariths unsigned_ucast_eq take_bit_eq_mod)
  then have "(4 * ucast (ip_hlen h) :: 16 word) \<le> ip_len h"
    using assms(2) by (simp add: word_le_nat_alt)
  then show ?thesis
    using assms(2) h4 by (simp add: IPv4Header_payload_length_def unat_sub)
qed

text \<open>The datagram parser on a well-formed header of any checksum.\<close>

lemma IPv4Datagram_parse_bytes:
  assumes "IPv4Header_valid h" "Buffer_wf b" "Buffer_str b = IPv4Header_bytes h @ rest"
    and len: "unat (ip_len h) = length (IPv4Header_bytes h) + length rest"
  shows "\<exists>payload. IPv4Datagram_parse dg b = Inr (NoError, \<lparr>dg_header = h, dg_payload = [payload]\<rparr>) \<and>
    Buffer_wf payload \<and> Buffer_str payload = rest"
proof -
  have "NetParser_ready (NetParser_make b)" "NetParser_str (NetParser_make b) = IPv4Header_bytes h @ rest"
    using assms(2,3) by simp_all
  from returnsD [OF IPv4Header_parse_bytes [OF assms(1) this len, of "dg_header dg"]]
  obtain res p where p: "IPv4Header_parse (dg_header dg) (NetParser_make b) = Inr (res, h, p)"
    "NetParser_ready p" "NetParser_str p = rest"
    by auto
  have rest: "length rest < W64"
    using Buffer_wf_length [OF assms(2)] assms(3) by simp
  have "BufferList_size [np_buffer p] = length rest"
    using p(3) rest by (simp add: BufferList_size_def Buffer_size_def NetParser_str_def u64_simps)
  moreover have "unat (IPv4Header_payload_length h) = length rest"
    by (rule IPv4Header_payload_length_eq [OF assms(1)]) (simp add: len length_IPv4Header_bytes [OF assms(1)])
  ultimately show ?thesis
    using p by (simp add: IPv4Datagram_parse_def BufferList_of_Buffer_def NetParser_ready_def NetParser_wf_def
      NetParser_str_def Let_def)
qed

lemma IPv4Datagram_serialize_eq:
  assumes "IPv4Header_valid (dg_header dg)" "list_all Buffer_wf (dg_payload dg)"
    and "unat (ip_len (dg_header dg)) = 4 * unat (ip_hlen (dg_header dg)) + length (BufferList_concatenate (dg_payload dg))"
  shows "IPv4Datagram_serialize dg = Inr (Buffer_of (IPv4Header_bytes ((dg_header dg)\<lparr>ip_cksum :=
      InternetChecksum_value (InternetChecksum_add (InternetChecksum_make 0)
        (IPv4Header_bytes ((dg_header dg)\<lparr>ip_cksum := 0\<rparr>)))\<rparr>)) # dg_payload dg)"
proof -
  have "unat (ip_len (dg_header dg)) < 65536"
    using unsigned_less [of "ip_len (dg_header dg)"] by simp
  then have "length (BufferList_concatenate (dg_payload dg)) < W64"
    using assms(3) W64_gt(1) by linarith
  then have "BufferList_size (dg_payload dg) = unat (IPv4Header_payload_length (dg_header dg))"
    using IPv4Header_payload_length_eq [OF assms(1,3)] by (simp add: BufferList_size_eq)
  then show ?thesis
    using assms(1) by (simp add: IPv4Datagram_serialize_def IPv4Header_serialize_eq BufferList_of_string_def
      BufferList_of_Buffer_def Let_def)
qed

lemma IPv4Header_fill_ok:
  assumes "IPv4Header_valid h"
    and "c = InternetChecksum_value (InternetChecksum_add (InternetChecksum_make 0) (IPv4Header_bytes (h\<lparr>ip_cksum := 0\<rparr>)))"
  shows "IPv4Header_sum_ok (h\<lparr>ip_cksum := c\<rparr>)"
proof -
  have zero: "be_bytes (0 :: 16 word) = [0, 0]"
    by (simp add: be_bytes_def upt_rec)
  have "length (IPv4Header_front h @ [0, 0] @ IPv4Header_back h) \<le> 60"
    using IPv4Header_hlen [OF assms(1)] by (simp add: IPv4Header_back_def)
  then have "ck_weight False (IPv4Header_front h @ [0, 0] @ IPv4Header_back h) \<le> 65280 * 60"
    using ck_weight_bound [of False "IPv4Header_front h @ [0, 0] @ IPv4Header_back h"] by linarith
  then show ?thesis
    unfolding IPv4Header_sum_ok_def IPv4Header_bytes_def IPv4Header_cksum
    using InternetChecksum_fill [of "IPv4Header_front h" 0 "IPv4Header_back h" c] assms(2)
    by (simp add: IPv4Header_bytes_def zero)
qed

text \<open>The pseudo-header's sum leaves room for the segment's.\<close>

lemma IPv4Header_pseudo_cksum_bound: "unat (IPv4Header_pseudo_cksum h) < 2 ^ 23"
proof -
  have half: "unat (drop_bit 16 a + (a AND 0xffff)) \<le> 131070" for a :: "32 word"
  proof -
    have "unat a < 4294967296"
      using unsigned_less [of a] by simp
    then have "unat a div 65536 \<le> 65535"
      by simp
    moreover have "unat a mod 65536 < 65536"
      by simp
    ultimately show ?thesis
      unfolding unat_fold_step by linarith
  qed
  have "unat (ip_proto h) < 256" "unat (IPv4Header_payload_length h) < 65536"
    using unsigned_less [of "ip_proto h"] unsigned_less [of "IPv4Header_payload_length h"] by simp_all
  then have "unat (ucast (ip_proto h) :: 32 word) < 256" "unat (ucast (IPv4Header_payload_length h) :: 32 word) < 65536"
    by (simp_all add: unsigned_ucast_eq take_bit_eq_mod)
  then show ?thesis
    using half [of "ip_src h"] half [of "ip_dst h"]
    by (simp add: IPv4Header_pseudo_cksum_def Let_def unat_plus_if' del: unat_fold_step)
qed

text \<open>A datagram the program can send: a legal header whose length field matches the payload.\<close>

definition IPv4Datagram_wf :: "IPv4Datagram \<Rightarrow> bool" where
  "IPv4Datagram_wf dg \<longleftrightarrow> IPv4Header_valid (dg_header dg) \<and> list_all Buffer_wf (dg_payload dg) \<and>
    unat (ip_len (dg_header dg)) = 4 * unat (ip_hlen (dg_header dg)) + length (BufferList_concatenate (dg_payload dg))"

lemma IPv4Datagram_wire:
  assumes "IPv4Datagram_wf dg"
  shows "\<exists>bl c payload p. IPv4Datagram_serialize dg = Inr bl \<and>
    IPv4Header_parse h0 (NetParser_make (Buffer_of (BufferList_concatenate bl))) =
      Inr (NoError, (dg_header dg)\<lparr>ip_cksum := c\<rparr>, p) \<and>
    IPv4Datagram_parse dg0 (Buffer_of (BufferList_concatenate bl)) =
      Inr (NoError, \<lparr>dg_header = (dg_header dg)\<lparr>ip_cksum := c\<rparr>, dg_payload = [payload]\<rparr>) \<and>
    Buffer_wf payload \<and> Buffer_str payload = BufferList_concatenate (dg_payload dg)"
proof -
  have dg: "IPv4Header_valid (dg_header dg)" "list_all Buffer_wf (dg_payload dg)"
    "unat (ip_len (dg_header dg)) = 4 * unat (ip_hlen (dg_header dg)) + length (BufferList_concatenate (dg_payload dg))"
    using assms by (simp_all add: IPv4Datagram_wf_def)
  let ?h = "dg_header dg" and ?rest = "BufferList_concatenate (dg_payload dg)"
  define c where "c = InternetChecksum_value (InternetChecksum_add (InternetChecksum_make 0) (IPv4Header_bytes (?h\<lparr>ip_cksum := 0\<rparr>)))"
  let ?h' = "?h\<lparr>ip_cksum := c\<rparr>"
  let ?bl = "Buffer_of (IPv4Header_bytes ?h') # dg_payload dg"
  have valid: "IPv4Header_valid ?h'"
    using dg(1) by simp
  have ser: "IPv4Datagram_serialize dg = Inr ?bl"
    using IPv4Datagram_serialize_eq [OF dg] by (simp add: c_def)
  have str: "BufferList_concatenate ?bl = IPv4Header_bytes ?h' @ ?rest"
    by (simp add: BufferList_concatenate_eq)
  have len: "unat (ip_len ?h') = length (IPv4Header_bytes ?h') + length ?rest"
    using dg(3) by (simp add: length_IPv4Header_bytes [OF valid])
  have "unat (ip_len ?h) < 65536"
    using unsigned_less [of "ip_len ?h"] by simp
  then have wf: "Buffer_wf (Buffer_of (IPv4Header_bytes ?h' @ ?rest))"
    using len W64_gt(1) by (simp del: W64_gt)
  obtain payload where "IPv4Datagram_parse dg0 (Buffer_of (IPv4Header_bytes ?h' @ ?rest)) =
      Inr (NoError, \<lparr>dg_header = ?h', dg_payload = [payload]\<rparr>)" "Buffer_wf payload" "Buffer_str payload = ?rest"
    using IPv4Datagram_parse_bytes [OF valid wf _ len, of dg0] by auto
  moreover have "NetParser_ready (NetParser_make (Buffer_of (IPv4Header_bytes ?h' @ ?rest)))"
    "NetParser_str (NetParser_make (Buffer_of (IPv4Header_bytes ?h' @ ?rest))) = IPv4Header_bytes ?h' @ ?rest"
    using wf by simp_all
  from returnsD [OF IPv4Header_parse_bytes [OF valid this len, of h0]]
  obtain p where "IPv4Header_parse h0 (NetParser_make (Buffer_of (IPv4Header_bytes ?h' @ ?rest))) = Inr (NoError, ?h', p)"
    using IPv4Header_fill_ok [OF dg(1) c_def] by auto
  ultimately show ?thesis
    using ser unfolding str [symmetric] by blast
qed

section \<open>Properties\<close>

text \<open>C13: a serialized datagram is parsed back. A datagram with a legal header whose length field
  matches its payload is serialized without an exception; the header checks as correct, and parsing
  the bytes gives the same header, with the checksum filled in, and the same payload.\<close>

theorem IPv4Datagram_roundtrip:
  assumes "IPv4Datagram_wf dg"
  shows "\<exists>bl c payload p. IPv4Datagram_serialize dg = Inr bl \<and>
    IPv4Header_parse h0 (NetParser_make (Buffer_of (BufferList_concatenate bl))) =
      Inr (NoError, (dg_header dg)\<lparr>ip_cksum := c\<rparr>, p) \<and>
    IPv4Datagram_parse dg0 (Buffer_of (BufferList_concatenate bl)) =
      Inr (NoError, \<lparr>dg_header = (dg_header dg)\<lparr>ip_cksum := c\<rparr>, dg_payload = [payload]\<rparr>) \<and>
    Buffer_str payload = BufferList_concatenate (dg_payload dg)"
  using IPv4Datagram_wire [OF assms, of h0 dg0] by blast

theorem IPv4Datagram_roundtrip_witness:
  "\<exists>bl c payload. IPv4Datagram_serialize \<lparr>dg_header = IPv4Header_default\<lparr>ip_len := 23\<rparr>, dg_payload = [Buffer_of [1, 2, 3]]\<rparr> = Inr bl \<and>
    IPv4Datagram_parse IPv4Datagram_default (Buffer_of (BufferList_concatenate bl)) =
      Inr (NoError, \<lparr>dg_header = IPv4Header_default\<lparr>ip_len := 23, ip_cksum := c\<rparr>, dg_payload = [payload]\<rparr>) \<and>
    Buffer_str payload = [1, 2, 3]"
proof -
  let ?dg = "\<lparr>dg_header = IPv4Header_default\<lparr>ip_len := 23\<rparr>, dg_payload = [Buffer_of [1, 2, 3]]\<rparr>"
  have "IPv4Datagram_wf ?dg"
    by (simp add: IPv4Datagram_wf_def IPv4Header_valid_def IPv4Header_default_def IPv4Header_LENGTH_def W64_def BufferList_concatenate_eq)
  from IPv4Datagram_roundtrip [OF this, of IPv4Header_default IPv4Datagram_default]
  show ?thesis
    by (auto simp: BufferList_concatenate_eq)
qed

text \<open>The header checksum is never enforced. For every checksum field, right or wrong, a datagram
  with an otherwise legal header and a matching length field is accepted, also when
  \<open>IPv4Header::parse\<close> reported \<open>BadChecksum\<close>.\<close>

lemma IPv4Datagram_parse_ignores_checksum:
  assumes "IPv4Header_valid h" "Buffer_wf b" "Buffer_str b = IPv4Header_bytes h @ rest"
    and "unat (ip_len h) = length (Buffer_str b)"
    and "InternetChecksum_value (InternetChecksum_add (InternetChecksum_make 0) (IPv4Header_bytes h)) \<noteq> 0"
  shows "\<exists>p payload. IPv4Header_parse (dg_header dg) (NetParser_make b) = Inr (BadChecksum, h, p) \<and>
    IPv4Datagram_parse dg b = Inr (NoError, \<lparr>dg_header = h, dg_payload = [payload]\<rparr>) \<and> Buffer_str payload = rest"
proof -
  have len: "unat (ip_len h) = length (IPv4Header_bytes h) + length rest"
    using assms(3,4) by simp
  have "NetParser_ready (NetParser_make b)" "NetParser_str (NetParser_make b) = IPv4Header_bytes h @ rest"
    using assms(2,3) by simp_all
  from returnsD [OF IPv4Header_parse_bytes [OF assms(1) this len, of "dg_header dg"]]
  show ?thesis
    using IPv4Datagram_parse_bytes [OF assms(1-3) len, of dg] assms(5) by (auto simp: IPv4Header_sum_ok_def)
qed

lemma IPv4Datagram_parse_ignores_checksum_witness:
  "\<exists>p payload. IPv4Header_parse (dg_header IPv4Datagram_default) (NetParser_make (Buffer_of (IPv4Header_bytes (IPv4Header_default\<lparr>ip_len := 20\<rparr>)))) =
      Inr (BadChecksum, IPv4Header_default\<lparr>ip_len := 20\<rparr>, p) \<and>
    IPv4Datagram_parse IPv4Datagram_default (Buffer_of (IPv4Header_bytes (IPv4Header_default\<lparr>ip_len := 20\<rparr>))) =
      Inr (NoError, \<lparr>dg_header = IPv4Header_default\<lparr>ip_len := 20\<rparr>, dg_payload = [payload]\<rparr>) \<and> Buffer_str payload = []"
proof -
  let ?h = "IPv4Header_default\<lparr>ip_len := 20\<rparr>"
  have bytes: "IPv4Header_bytes ?h = [0x45, 0, 0, 20, 0, 0, 0x40, 0, 128, 6, 0, 0, 0, 0, 0, 0, 0, 0, 0, 0]"
    by (simp add: IPv4Header_bytes_def IPv4Header_front_def IPv4Header_back_def IPv4Header_default_def
      IPv4Header_LENGTH_def IPv4Header_first_byte_def IPv4Header_fo_val_def be_bytes_def upt_rec)
  have "IPv4Header_valid ?h" "Buffer_wf (Buffer_of (IPv4Header_bytes ?h))"
    "unat (ip_len ?h) = length (Buffer_str (Buffer_of (IPv4Header_bytes ?h)))"
    "Buffer_str (Buffer_of (IPv4Header_bytes ?h)) = IPv4Header_bytes ?h @ []"
    by (simp_all add: bytes W64_def) (simp add: IPv4Header_valid_def IPv4Header_default_def IPv4Header_LENGTH_def)
  moreover have "InternetChecksum_value (InternetChecksum_add (InternetChecksum_make 0) (IPv4Header_bytes ?h)) \<noteq> 0"
    by (simp add: bytes InternetChecksum_make_def InternetChecksum_add_def InternetChecksum_add_byte_def
      InternetChecksum_value_def InternetChecksum_fold.simps)
  ultimately show ?thesis
    by (intro IPv4Datagram_parse_ignores_checksum)
qed

end
