(* ===== verification/Sponge_Text.thy ===== *)
theory Sponge_Text
  imports Net_Parser
begin

text \<open>
  Text: what the standard library prints for integers in a given base, with a width and a fill
  character, the dotted form of an IPv4 address, and the byte dump of \<open>libsponge/util/util.cc\<close>.
\<close>

section \<open>Integers\<close>

definition digit_char :: "nat \<Rightarrow> char" where
  "digit_char d = char_of (if d < 10 then 48 + d else 87 + d)"

definition char_digit :: "char \<Rightarrow> nat" where
  "char_digit c = (let k = of_char c in if k < 58 then k - 48 else k - (87 :: nat))"

function radix_string :: "nat \<Rightarrow> nat \<Rightarrow> string" where
  "radix_string b n =
    (if n < b \<or> b < 2 then [digit_char n] else radix_string b (n div b) @ [digit_char (n mod b)])"
  by pat_completeness auto
termination
  by (relation "measure snd") auto

declare radix_string.simps [simp del]

definition dec_string :: "nat \<Rightarrow> string" where
  "dec_string n = radix_string 10 n"

definition hex_string :: "nat \<Rightarrow> string" where
  "hex_string n = radix_string 16 n"

text \<open>Output with a width: the fill character is put in front.\<close>

definition pad_left :: "nat \<Rightarrow> char \<Rightarrow> string \<Rightarrow> string" where
  "pad_left w c s = replicate (w - length s) c @ s"

definition boolalpha :: "bool \<Rightarrow> string" where
  "boolalpha b = (if b then ''true'' else ''false'')"

definition radix_value :: "nat \<Rightarrow> string \<Rightarrow> nat" where
  "radix_value b s = foldl (\<lambda>n c. n * b + char_digit c) 0 s"

lemmas [sponge_eval] = digit_char_def char_digit_def radix_string.simps dec_string_def hex_string_def pad_left_def
  boolalpha_def radix_value_def

lemma char_digit_digit_char [simp]: "d < 36 \<Longrightarrow> char_digit (digit_char d) = d"
  by (simp add: char_digit_def digit_char_def of_char_of Let_def)

lemma digit_char_eq_iff: "d < 36 \<Longrightarrow> e < 36 \<Longrightarrow> digit_char d = digit_char e \<longleftrightarrow> d = e"
  by (metis char_digit_digit_char)

lemma radix_value_radix_string:
  assumes "2 \<le> b" "b \<le> 36"
  shows "radix_value b (radix_string b n) = n"
  using assms
proof (induction b n rule: radix_string.induct)
  case (1 b n)
  show ?case
  proof (cases "n < b")
    case True
    then show ?thesis
      using "1.prems" by (subst radix_string.simps) (simp add: radix_value_def)
  next
    case False
    have "n mod b < b" "b \<le> 36"
      using "1.prems" by simp_all
    then have "char_digit (digit_char (n mod b)) = n mod b"
      by (intro char_digit_digit_char) (rule less_le_trans)
    moreover have "radix_value b (radix_string b (n div b)) = n div b"
      using False "1.IH" "1.prems" by simp
    ultimately show ?thesis
      using False "1.prems" by (subst radix_string.simps) (simp add: radix_value_def)
  qed
qed

lemma dec_string_inj [simp]: "dec_string m = dec_string n \<longleftrightarrow> m = n"
proof
  assume "dec_string m = dec_string n"
  then have "radix_value 10 (radix_string 10 m) = radix_value 10 (radix_string 10 n)"
    by (simp add: dec_string_def)
  then show "m = n"
    by (simp add: radix_value_radix_string)
qed simp

lemma radix_string_digits: "2 \<le> b \<Longrightarrow> c \<in> set (radix_string b n) \<Longrightarrow> \<exists>d < b. c = digit_char d"
proof (induction b n rule: radix_string.induct)
  case (1 b n)
  show ?case
  proof (cases "n < b")
    case True
    then show ?thesis
      using "1.prems" by (subst (asm) radix_string.simps) auto
  next
    case False
    then have "c \<in> set (radix_string b (n div b)) \<or> c = digit_char (n mod b)"
      using "1.prems" by (subst (asm) radix_string.simps) auto
    moreover have "\<exists>d < b. digit_char (n mod b) = digit_char d"
      using "1.prems" by (intro exI [of _ "n mod b"]) simp
    ultimately show ?thesis
      using False "1.IH" "1.prems"(1) by auto
  qed
qed

text \<open>A byte in hexadecimal at width two is its two digits.\<close>

lemma hex_byte_text: "n < 256 \<Longrightarrow> pad_left 2 (CHR ''0'') (hex_string n) = [digit_char (n div 16), digit_char (n mod 16)]"
  by (cases "n < 16") (simp_all add: hex_string_def radix_string.simps pad_left_def digit_char_def char_of_def bit_Suc_0_iff)

section \<open>Addresses\<close>

text \<open>The address is given in network byte order, as the four bytes it has in memory.\<close>

fun join :: "'a list \<Rightarrow> 'a list list \<Rightarrow> 'a list" where
  "join sep [] = []"
| "join sep (s # ss) = s @ (if ss \<noteq> [] then sep else []) @ join sep ss"

definition inet_ntoa :: "32 word \<Rightarrow> string" where
  "inet_ntoa a = join ''.'' (map (\<lambda>b. dec_string (unat b)) (be_bytes a))"

fun split_on :: "'a \<Rightarrow> 'a list \<Rightarrow> 'a list list" where
  "split_on c [] = [[]]"
| "split_on c (x # xs) =
    (if x = c then [] # split_on c xs
     else case split_on c xs of [] \<Rightarrow> [[x]] | s # ss \<Rightarrow> (x # s) # ss)"

lemma split_on_end: "c \<notin> set s \<Longrightarrow> split_on c s = [s]"
  by (induction s) auto

lemma split_on_append: "c \<notin> set s \<Longrightarrow> split_on c (s @ c # t) = s # split_on c t"
  by (induction s) auto

lemma split_on_join:
  assumes "\<And>s. s \<in> set ss \<Longrightarrow> c \<notin> set s" "ss \<noteq> []"
  shows "split_on c (join [c] ss) = ss"
  using assms
proof (induction ss)
  case (Cons s ss)
  then show ?case
    by (cases "ss = []") (simp_all add: split_on_end split_on_append)
qed simp

lemma dec_string_no_dot: "CHR ''.'' \<notin> set (dec_string n)" "CHR '':'' \<notin> set (dec_string n)"
proof -
  have "digit_char d \<noteq> CHR ''.'' \<and> digit_char d \<noteq> CHR '':''" if "d < 10" for d
  proof -
    have "of_char (digit_char d) = 48 + d"
      using that by (simp add: digit_char_def of_char_of)
    then show ?thesis
      using that by auto
  qed
  then show "CHR ''.'' \<notin> set (dec_string n)" "CHR '':'' \<notin> set (dec_string n)"
    unfolding dec_string_def using radix_string_digits [of 10] by fastforce+
qed

text \<open>The dotted form determines the address.\<close>

lemma inet_ntoa_bytes: "map (\<lambda>s. of_nat (radix_value 10 s)) (split_on (CHR ''.'') (inet_ntoa a)) = be_bytes a"
proof -
  have "split_on (CHR ''.'') (inet_ntoa a) = map (\<lambda>b. dec_string (unat b)) (be_bytes a)"
    unfolding inet_ntoa_def by (rule split_on_join) (auto simp: dec_string_no_dot be_bytes_def)
  then show ?thesis
    by (simp add: comp_def dec_string_def radix_value_radix_string)
qed

lemma inet_ntoa_inj [simp]: "inet_ntoa a = inet_ntoa b \<longleftrightarrow> a = b"
proof
  assume "inet_ntoa a = inet_ntoa b"
  then have "be_word (be_bytes a) = (be_word (be_bytes b) :: 32 word)"
    using inet_ntoa_bytes [of a] inet_ntoa_bytes [of b] by simp
  then show "a = b"
    by simp
qed simp

section \<open>The byte dump\<close>

text \<open>
  A string stream keeps its characters and the position the next one is written to, which is the
  front after the characters have been set.
\<close>

type_synonym stringstream = "string \<times> nat"

definition stringstream_str :: "string \<Rightarrow> stringstream" where
  "stringstream_str s = (s, 0)"

definition stringstream_put :: "stringstream \<Rightarrow> char \<Rightarrow> stringstream" where
  "stringstream_put ss c = (take (snd ss) (fst ss) @ [c] @ drop (Suc (snd ss)) (fst ss), Suc (snd ss))"

definition isprint :: "byte \<Rightarrow> bool" where
  "isprint x \<longleftrightarrow> 32 \<le> unat x \<and> unat x < 127"

text \<open>One round of the loop: what is written to the output, and the characters collected.\<close>

definition hexdump_step :: "string \<Rightarrow> string \<times> stringstream \<times> nat \<Rightarrow> byte \<Rightarrow> string \<times> stringstream \<times> nat" where
  "hexdump_step indent_string st x =
    (let (out, pchars, printed) = st;
         (out, pchars) =
           (if printed mod 16 = 0 then
              let (out, pchars) =
                (if printed \<noteq> 0 then (out @ ''    '' @ fst pchars @ [CHR 0x0A], stringstream_str '' '') else (out, pchars))
              in (out @ indent_string @ pad_left 8 (CHR ''0'') (hex_string printed) @ '':    '', pchars)
            else if printed mod 2 = 0 then (out @ '' '', pchars)
            else (out, pchars));
         out = out @ pad_left 2 (CHR ''0'') (hex_string (unat x));
         pchars = stringstream_put pchars (if isprint x then char_of (unat x) else CHR ''.'')
     in (out, pchars, printed + 1))"

definition hexdump :: "bytes \<Rightarrow> size_t \<Rightarrow> string" where
  "hexdump data indent =
    (let indent_string = replicate indent (CHR '' '');
         (out, pchars, printed) = foldl (hexdump_step indent_string) ([], stringstream_str '' '', 0) data;
         print_rem = (16 - printed mod 16) mod 16
     in out @ replicate (2 * print_rem + print_rem div 2 + 4) (CHR '' '') @ fst pchars @ [CHR 0x0A, CHR 0x0A])"

lemmas [sponge_eval] = inet_ntoa_def stringstream_str_def stringstream_put_def isprint_def hexdump_step_def hexdump_def

end
