(* ===== verification/Packet_Text.thy ===== *)
theory Packet_Text
  imports TCP_Segment IPv4 Sponge_Text
begin

text \<open>
  The printed forms of TCP and IPv4 headers, \<open>libsponge/tcp_helpers/tcp_header.cc\<close> and
  \<open>ipv4_header.cc\<close>. The streams print in hexadecimal where the code sets that flag.
\<close>

definition newline :: string where
  "newline = [CHR 0x0A]"

definition hex_word :: "'a::len word \<Rightarrow> string" where
  "hex_word w = hex_string (unat w)"

definition dec_word :: "'a::len word \<Rightarrow> string" where
  "dec_word w = dec_string (unat w)"

definition TCPHeader_to_string :: "TCPHeader \<Rightarrow> string" where
  "TCPHeader_to_string h =
    ''TCP source port: '' @ hex_word (th_sport h) @ newline @
    ''TCP dest port: '' @ hex_word (th_dport h) @ newline @
    ''TCP seqno: '' @ hex_word (raw_value (th_seqno h)) @ newline @
    ''TCP ackno: '' @ hex_word (raw_value (th_ackno h)) @ newline @
    ''TCP doff: '' @ hex_word (th_doff h) @ newline @
    ''Flags: urg: '' @ boolalpha (th_urg h) @ '' ack: '' @ boolalpha (th_ack h) @ '' psh: '' @ boolalpha (th_psh h) @
    '' rst: '' @ boolalpha (th_rst h) @ '' syn: '' @ boolalpha (th_syn h) @ '' fin: '' @ boolalpha (th_fin h) @ newline @
    ''TCP winsize: '' @ hex_word (th_win h) @ newline @
    ''TCP cksum: '' @ hex_word (th_cksum h) @ newline @
    ''TCP uptr: '' @ hex_word (th_uptr h) @ newline"

definition TCPHeader_summary :: "TCPHeader \<Rightarrow> string" where
  "TCPHeader_summary h =
    ''Header(flags='' @ (if th_syn h then ''S'' else []) @ (if th_ack h then ''A'' else []) @
    (if th_rst h then ''R'' else []) @ (if th_fin h then ''F'' else []) @
    '',seqno='' @ dec_word (raw_value (th_seqno h)) @ '',ack='' @ dec_word (raw_value (th_ackno h)) @
    '',win='' @ dec_word (th_win h) @ '')''"

definition IPv4Header_to_string :: "IPv4Header \<Rightarrow> string" where
  "IPv4Header_to_string h =
    ''IP version: '' @ hex_word (ip_ver h) @ newline @
    ''IP hdr len: '' @ hex_word (ip_hlen h) @ newline @
    ''IP tos: '' @ hex_word (ip_tos h) @ newline @
    ''IP dgram len: '' @ hex_word (ip_len h) @ newline @
    ''IP id: '' @ hex_word (ip_id h) @ newline @
    ''Flags: df: '' @ boolalpha (ip_df h) @ '' mf: '' @ boolalpha (ip_mf h) @ newline @
    ''Offset: '' @ hex_word (ip_offset h) @ newline @
    ''TTL: '' @ hex_word (ip_ttl h) @ newline @
    ''Protocol: '' @ hex_word (ip_proto h) @ newline @
    ''Checksum: '' @ hex_word (ip_cksum h) @ newline @
    ''Src addr: '' @ hex_word (ip_src h) @ newline @
    ''Dst addr: '' @ hex_word (ip_dst h) @ newline"

definition IPv4Header_summary :: "IPv4Header \<Rightarrow> string" where
  "IPv4Header_summary h =
    ''IPv'' @ hex_word (ip_ver h) @ '', '' @ ''len='' @ hex_word (ip_len h) @ '', '' @ ''protocol='' @ hex_word (ip_proto h) @ '', '' @
    (if 10 \<le> unat (ip_ttl h) then [] else ''ttl='' @ dec_word (ip_ttl h) @ '', '') @
    ''src='' @ inet_ntoa (ip_src h) @ '', '' @ ''dst='' @ inet_ntoa (ip_dst h)"

lemmas [sponge_eval] = newline_def hex_word_def dec_word_def TCPHeader_to_string_def TCPHeader_summary_def
  IPv4Header_to_string_def IPv4Header_summary_def

text \<open>Summaries of headers that differ only in the destination tell them apart.\<close>

lemma hex_word_inj [simp]: "hex_word a = hex_word b \<longleftrightarrow> a = b"
proof
  assume "hex_word a = hex_word b"
  then have "radix_value 16 (radix_string 16 (unat a)) = radix_value 16 (radix_string 16 (unat b))"
    by (simp add: hex_word_def hex_string_def)
  then show "a = b"
    by (simp add: radix_value_radix_string word_unat_eq_iff)
qed simp

lemma IPv4Header_summary_dst:
  assumes "ip_ver h = ip_ver g" "ip_len h = ip_len g" "ip_proto h = ip_proto g" "ip_ttl h = ip_ttl g" "ip_src h = ip_src g"
  shows "IPv4Header_summary h = IPv4Header_summary g \<longleftrightarrow> ip_dst h = ip_dst g"
  using assms by (simp add: IPv4Header_summary_def)

end
