(* ===== verification/Ethernet.thy ===== *)
theory Ethernet
  imports Sponge_Text
begin

text \<open>
  Ethernet frames, \<open>libsponge/tcp_helpers/ethernet_header.hh\<close>, \<open>ethernet_header.cc\<close>,
  \<open>ethernet_frame.hh\<close> and \<open>ethernet_frame.cc\<close>: addresses and their printed form, the
  header with its wire format, and the frame. A serialized frame is parsed back to itself; a frame
  that is too short for a header, however, is accepted.
\<close>

section \<open>EthernetAddress\<close>

text \<open>An address is an array of six bytes.\<close>

type_synonym EthernetAddress = "byte list"

definition EthernetAddress_zero :: EthernetAddress where
  "EthernetAddress_zero = replicate 6 0"

definition ETHERNET_BROADCAST :: EthernetAddress where
  "ETHERNET_BROADCAST = [0xff, 0xff, 0xff, 0xff, 0xff, 0xff]"

definition EthernetAddress_wf :: "EthernetAddress \<Rightarrow> bool" where
  "EthernetAddress_wf a \<longleftrightarrow> length a = 6"

text \<open>The two loops over the bytes of an address.\<close>

fun EthernetAddress_read :: "EthernetAddress \<Rightarrow> NetParser \<Rightarrow> (EthernetAddress \<times> NetParser) res" where
  "EthernetAddress_read [] p = Inr ([], p)"
| "EthernetAddress_read (x # xs) p =
    rbind (NetParser_u8 p) (\<lambda>(byte, p). rbind (EthernetAddress_read xs p) (\<lambda>(bs, p). Inr (byte # bs, p)))"

definition EthernetAddress_write :: "bytes \<Rightarrow> EthernetAddress \<Rightarrow> bytes" where
  "EthernetAddress_write ret a = foldl NetUnparser_u8 ret a"

fun EthernetAddress_to_string :: "EthernetAddress \<Rightarrow> string" where
  "EthernetAddress_to_string [] = []"
| "EthernetAddress_to_string (x # xs) =
    pad_left 2 (CHR ''0'') (hex_string (unat x)) @ (if xs \<noteq> [] then '':'' else []) @ EthernetAddress_to_string xs"

section \<open>EthernetHeader\<close>

record EthernetHeader =
  eh_dst :: EthernetAddress
  eh_src :: EthernetAddress
  eh_type :: "16 word"

definition EthernetHeader_LENGTH :: size_t where
  "EthernetHeader_LENGTH = 14"

definition TYPE_IPv4 :: "16 word" where
  "TYPE_IPv4 = 0x800"

definition TYPE_ARP :: "16 word" where
  "TYPE_ARP = 0x806"

definition EthernetHeader_zero :: EthernetHeader where
  "EthernetHeader_zero = \<lparr>eh_dst = EthernetAddress_zero, eh_src = EthernetAddress_zero, eh_type = 0\<rparr>"

definition EthernetHeader_parse :: "EthernetHeader \<Rightarrow> NetParser \<Rightarrow> (ParseResult \<times> EthernetHeader \<times> NetParser) res" where
  "EthernetHeader_parse h p =
    (if Buffer_size (np_buffer p) < EthernetHeader_LENGTH then Inr (PacketTooShort, h, p)
     else
       rbind (EthernetAddress_read (eh_dst h) p) (\<lambda>(dst, p).
       rbind (EthernetAddress_read (eh_src h) p) (\<lambda>(src, p).
       rbind (NetParser_u16 p) (\<lambda>(type, p).
         Inr (np_error p, \<lparr>eh_dst = dst, eh_src = src, eh_type = type\<rparr>, p)))))"

definition EthernetHeader_serialize :: "EthernetHeader \<Rightarrow> bytes" where
  "EthernetHeader_serialize h =
    (let ret = EthernetAddress_write [] (eh_dst h);
         ret = EthernetAddress_write ret (eh_src h)
     in NetUnparser_u16 ret (eh_type h))"

definition EthernetHeader_to_string :: "EthernetHeader \<Rightarrow> string" where
  "EthernetHeader_to_string h =
    ''dst='' @ EthernetAddress_to_string (eh_dst h) @
    '', src='' @ EthernetAddress_to_string (eh_src h) @
    '', type='' @
    (if eh_type h = TYPE_IPv4 then ''IPv4''
     else if eh_type h = TYPE_ARP then ''ARP''
     else ''[unknown type '' @ hex_string (unat (eh_type h)) @ ''!]'')"

section \<open>EthernetFrame\<close>

record EthernetFrame =
  ef_header :: EthernetHeader
  ef_payload :: BufferList

definition EthernetFrame_default :: EthernetFrame where
  "EthernetFrame_default = \<lparr>ef_header = EthernetHeader_zero, ef_payload = []\<rparr>"

definition EthernetFrame_parse :: "EthernetFrame \<Rightarrow> Buffer \<Rightarrow> (ParseResult \<times> EthernetFrame) res" where
  "EthernetFrame_parse fr buffer =
    rbind (EthernetHeader_parse (ef_header fr) (NetParser_make buffer)) (\<lambda>(res, h, p).
      Inr (np_error p, \<lparr>ef_header = h, ef_payload = BufferList_of_Buffer (np_buffer p)\<rparr>))"

definition EthernetFrame_serialize :: "EthernetFrame \<Rightarrow> BufferList" where
  "EthernetFrame_serialize fr =
    (let ret = BufferList_append [] (BufferList_of_string (EthernetHeader_serialize (ef_header fr)))
     in BufferList_append ret (ef_payload fr))"

lemmas [sponge_eval] = EthernetAddress_zero_def ETHERNET_BROADCAST_def EthernetAddress_wf_def EthernetAddress_write_def
  EthernetHeader_LENGTH_def TYPE_IPv4_def TYPE_ARP_def EthernetHeader_zero_def EthernetHeader_parse_def
  EthernetHeader_serialize_def EthernetHeader_to_string_def EthernetFrame_default_def EthernetFrame_parse_def
  EthernetFrame_serialize_def

section \<open>Addresses on the wire and in print\<close>

lemma EthernetAddress_wf_consts [simp]: "EthernetAddress_wf EthernetAddress_zero" "EthernetAddress_wf ETHERNET_BROADCAST"
  by (simp_all add: EthernetAddress_wf_def EthernetAddress_zero_def ETHERNET_BROADCAST_def)

lemma be_bytes_8: "be_bytes (x :: 8 word) = [x]"
proof -
  have "x AND 0xff = take_bit 8 x"
    by (simp add: take_bit_eq_mask mask_eq_exp_minus_1)
  then show ?thesis
    by (simp add: be_bytes_def take_bit_word_eq_self)
qed

lemma EthernetAddress_write_eq [simp]: "EthernetAddress_write ret a = ret @ a"
  unfolding EthernetAddress_write_def by (induction a arbitrary: ret) (simp_all add: NetUnparser_eqs be_bytes_8)

lemma EthernetAddress_read_emit:
  assumes "length a = length v" "NetParser_ready p" "NetParser_str p = v @ rest"
  shows "\<exists>p'. EthernetAddress_read a p = Inr (v, p') \<and> NetParser_ready p' \<and> NetParser_str p' = rest"
  using assms
proof (induction a v arbitrary: p rule: list_induct2')
  case (4 x xs y ys)
  from u8.parse_emit [where v = y and p = p and rest = "ys @ rest"] 4(3,4)
  obtain p1 where p1: "NetParser_u8 p = Inr (y, p1)" "NetParser_ready p1" "NetParser_str p1 = ys @ rest"
    by (auto simp: NetUnparser_eqs be_bytes_8)
  from "4.IH" [OF _ p1(2,3)] 4(2) show ?case
    by (auto simp: p1(1))
qed simp_all

interpretation ethaddr: codec "EthernetAddress_read EthernetAddress_zero" "EthernetAddress_write []" EthernetAddress_wf
  by unfold_locales (simp add: EthernetAddress_read_emit EthernetAddress_wf_def EthernetAddress_zero_def)

lemma EthernetAddress_read_any:
  assumes "NetParser_skipped n p0 p" "\<And>v p'. length v = length a \<Longrightarrow> NetParser_skipped (n + length a) p0 p' \<Longrightarrow> returns (f v p') Q"
  shows "returns (rbind (EthernetAddress_read a p) (\<lambda>(v, p'). f v p')) Q"
  using assms
proof (induction a arbitrary: n p f)
  case (Cons x xs)
  have "returns (rbind (NetParser_u8 p) (\<lambda>(byte, p1). rbind (EthernetAddress_read xs p1) (\<lambda>(bs, p2). f (byte # bs) p2))) Q"
  proof (rule parse_any(3) [OF Cons.prems(1)])
    fix b p1
    assume p1: "NetParser_skipped (n + 1) p0 p1"
    show "returns (rbind (EthernetAddress_read xs p1) (\<lambda>(bs, p2). f (b # bs) p2)) Q"
      by (rule Cons.IH [OF p1]) (rule Cons.prems(2), simp_all add: add.assoc)
  qed
  then show ?case
    by (simp add: rbind_assoc case_prod_unfold)
qed simp

text \<open>The printed form determines the address, so comparing the one is comparing the other.\<close>

lemma hex_byte_inj:
  "pad_left 2 (CHR ''0'') (hex_string (unat (x :: byte))) @ s = pad_left 2 (CHR ''0'') (hex_string (unat y)) @ t \<longleftrightarrow>
    x = y \<and> s = t"
proof -
  have x: "unat x < 256" and y: "unat y < 256"
    using unsigned_less [of x] unsigned_less [of y] by simp_all
  have "unat x div 16 < 36" "unat y div 16 < 36" "unat x mod 16 < 36" "unat y mod 16 < 36"
    using x y by (simp_all add: less_mult_imp_div_less less_le_trans [OF mod_less_divisor])
  then have "pad_left 2 (CHR ''0'') (hex_string (unat x)) @ s = pad_left 2 (CHR ''0'') (hex_string (unat y)) @ t \<longleftrightarrow>
      unat x div 16 = unat y div 16 \<and> unat x mod 16 = unat y mod 16 \<and> s = t"
    by (simp add: hex_byte_text [OF x] hex_byte_text [OF y] digit_char_eq_iff)
  moreover have "unat x div 16 = unat y div 16 \<and> unat x mod 16 = unat y mod 16 \<longleftrightarrow> unat x = unat y"
    by (metis mult_div_mod_eq)
  ultimately show ?thesis
    by (auto simp: word_unat_eq_iff)
qed

lemma EthernetAddress_to_string_inj:
  assumes "length a = length b"
  shows "EthernetAddress_to_string a = EthernetAddress_to_string b \<longleftrightarrow> a = b"
  using assms by (induction a b rule: list_induct2) (auto simp: hex_byte_inj)

lemma EthernetAddress_text_eq [simp]:
  "EthernetAddress_wf a \<Longrightarrow> EthernetAddress_wf b \<Longrightarrow>
    EthernetAddress_to_string a = EthernetAddress_to_string b \<longleftrightarrow> a = b"
  by (simp add: EthernetAddress_wf_def EthernetAddress_to_string_inj)

section \<open>Headers on the wire\<close>

definition EthernetHeader_wf :: "EthernetHeader \<Rightarrow> bool" where
  "EthernetHeader_wf h \<longleftrightarrow> EthernetAddress_wf (eh_dst h) \<and> EthernetAddress_wf (eh_src h)"

lemma EthernetHeader_wf_zero [simp]: "EthernetHeader_wf EthernetHeader_zero"
  by (simp add: EthernetHeader_wf_def EthernetHeader_zero_def)

lemma EthernetHeader_serialize_eq: "EthernetHeader_serialize h = eh_dst h @ eh_src h @ be_bytes (eh_type h)"
  by (simp add: EthernetHeader_serialize_def NetUnparser_eqs Let_def)

lemma length_EthernetHeader_serialize [simp]: "EthernetHeader_wf h \<Longrightarrow> length (EthernetHeader_serialize h) = 14"
  by (simp add: EthernetHeader_serialize_eq EthernetHeader_wf_def EthernetAddress_wf_def)

lemma EthernetHeader_parse_bytes:
  assumes "EthernetHeader_wf h0" "EthernetHeader_wf h" "NetParser_ready p" "NetParser_str p = EthernetHeader_serialize h @ rest"
  shows "\<exists>p'. EthernetHeader_parse h0 p = Inr (NoError, h, p') \<and> NetParser_ready p' \<and> NetParser_str p' = rest"
proof -
  have len: "length (eh_dst h0) = length (eh_dst h)" "length (eh_src h0) = length (eh_src h)"
    using assms(1,2) by (simp_all add: EthernetHeader_wf_def EthernetAddress_wf_def)
  have str: "NetParser_str p = eh_dst h @ eh_src h @ be_bytes (eh_type h) @ rest"
    using assms(4) by (simp add: EthernetHeader_serialize_eq)
  obtain p1 where p1: "EthernetAddress_read (eh_dst h0) p = Inr (eh_dst h, p1)" "NetParser_ready p1"
    "NetParser_str p1 = eh_src h @ be_bytes (eh_type h) @ rest"
    using EthernetAddress_read_emit [OF len(1) assms(3) str] by blast
  obtain p2 where p2: "EthernetAddress_read (eh_src h0) p1 = Inr (eh_src h, p2)" "NetParser_ready p2"
    "NetParser_str p2 = be_bytes (eh_type h) @ rest"
    using EthernetAddress_read_emit [OF len(2) p1(2,3)] by blast
  obtain p3 where p3: "NetParser_u16 p2 = Inr (eh_type h, p3)" "NetParser_ready p3" "NetParser_str p3 = rest"
    using u16.parse_emit [where v = "eh_type h" and p = p2 and rest = rest] p2(2,3) by (auto simp: NetUnparser_eqs)
  have "\<not> Buffer_size (np_buffer p) < EthernetHeader_LENGTH"
    using assms(4) length_EthernetHeader_serialize [OF assms(2)]
    by (simp add: Buffer_size_def NetParser_str_def EthernetHeader_LENGTH_def)
  then show ?thesis
    using p3 by (simp add: EthernetHeader_parse_def p1(1) p2(1) NetParser_ready_def)
qed

interpretation ethh: codec "\<lambda>p. rbind (EthernetHeader_parse EthernetHeader_zero p) (\<lambda>(res, h, p'). Inr (h, p'))"
  EthernetHeader_serialize EthernetHeader_wf
proof
  show "\<exists>p'. rbind (EthernetHeader_parse EthernetHeader_zero p) (\<lambda>(res, h, p'). Inr (h, p')) = Inr (v, p') \<and>
      NetParser_ready p' \<and> NetParser_str p' = rest"
    if "EthernetHeader_wf v" "NetParser_ready p" "NetParser_str p = EthernetHeader_serialize v @ rest" for v p rest
    using EthernetHeader_parse_bytes [OF EthernetHeader_wf_zero that] by auto
qed

definition EthernetFrame_wf :: "EthernetFrame \<Rightarrow> bool" where
  "EthernetFrame_wf fr \<longleftrightarrow> EthernetHeader_wf (ef_header fr) \<and> list_all Buffer_wf (ef_payload fr)"

lemma EthernetFrame_serialize_str:
  "BufferList_concatenate (EthernetFrame_serialize fr) = EthernetHeader_serialize (ef_header fr) @ BufferList_concatenate (ef_payload fr)"
  by (simp add: EthernetFrame_serialize_def BufferList_of_string_def BufferList_of_Buffer_def BufferList_concatenate_eq Let_def)

lemma EthernetFrame_parse_bytes:
  assumes "EthernetHeader_wf (ef_header fr0)" "EthernetHeader_wf h" "Buffer_wf b" "Buffer_str b = EthernetHeader_serialize h @ rest"
  shows "\<exists>payload. EthernetFrame_parse fr0 b = Inr (NoError, \<lparr>ef_header = h, ef_payload = [payload]\<rparr>) \<and>
    Buffer_wf payload \<and> Buffer_str payload = rest"
proof -
  have "NetParser_ready (NetParser_make b)" "NetParser_str (NetParser_make b) = EthernetHeader_serialize h @ rest"
    using assms(3,4) by simp_all
  from EthernetHeader_parse_bytes [OF assms(1,2) this] obtain p where
    "EthernetHeader_parse (ef_header fr0) (NetParser_make b) = Inr (NoError, h, p)" "NetParser_ready p" "NetParser_str p = rest"
    by blast
  then show ?thesis
    by (simp add: EthernetFrame_parse_def BufferList_of_Buffer_def NetParser_ready_def NetParser_wf_def NetParser_str_def)
qed

section \<open>Properties\<close>

text \<open>C25: frames survive the wire. The bytes of a frame, parsed into any frame, give the same header and
  a payload with the same bytes.\<close>

theorem EthernetFrame_roundtrip:
  assumes "EthernetFrame_wf fr" "EthernetFrame_wf fr0" "length (BufferList_concatenate (ef_payload fr)) + 14 < W64"
  shows "\<exists>payload. EthernetFrame_parse fr0 (Buffer_of (BufferList_concatenate (EthernetFrame_serialize fr))) =
      Inr (NoError, \<lparr>ef_header = ef_header fr, ef_payload = [payload]\<rparr>) \<and>
    Buffer_str payload = BufferList_concatenate (ef_payload fr)"
proof -
  have "EthernetHeader_wf (ef_header fr0)" "EthernetHeader_wf (ef_header fr)"
    using assms(1,2) by (simp_all add: EthernetFrame_wf_def)
  moreover from this(2) have "Buffer_wf (Buffer_of (EthernetHeader_serialize (ef_header fr) @ BufferList_concatenate (ef_payload fr)))"
    using assms(3) by simp
  ultimately show ?thesis
    using EthernetFrame_parse_bytes unfolding EthernetFrame_serialize_str by fastforce
qed

theorem EthernetFrame_roundtrip_witness:
  "\<exists>payload. EthernetFrame_parse EthernetFrame_default (Buffer_of (BufferList_concatenate (EthernetFrame_serialize
      \<lparr>ef_header = \<lparr>eh_dst = ETHERNET_BROADCAST, eh_src = [2, 0, 0, 0, 0, 1], eh_type = TYPE_ARP\<rparr>, ef_payload = [Buffer_of [1], Buffer_of [2, 3]]\<rparr>))) =
      Inr (NoError, \<lparr>ef_header = \<lparr>eh_dst = ETHERNET_BROADCAST, eh_src = [2, 0, 0, 0, 0, 1], eh_type = TYPE_ARP\<rparr>, ef_payload = [payload]\<rparr>) \<and>
    Buffer_str payload = [1, 2, 3]"
proof -
  let ?fr = "\<lparr>ef_header = \<lparr>eh_dst = ETHERNET_BROADCAST, eh_src = [2, 0, 0, 0, 0, 1], eh_type = TYPE_ARP\<rparr>,
    ef_payload = [Buffer_of [1], Buffer_of [2, 3]]\<rparr>"
  have "EthernetFrame_wf ?fr" "EthernetFrame_wf EthernetFrame_default" "length (BufferList_concatenate (ef_payload ?fr)) + 14 < W64"
    by (simp_all add: EthernetFrame_wf_def EthernetHeader_wf_def EthernetAddress_wf_def EthernetFrame_default_def
      EthernetHeader_zero_def EthernetAddress_zero_def ETHERNET_BROADCAST_def BufferList_concatenate_eq W64_def)
  from EthernetFrame_roundtrip [OF this] show ?thesis
    by (simp add: BufferList_concatenate_eq)
qed

text \<open>A short frame is accepted. Fewer than 14 bytes make \<open>EthernetHeader::parse\<close> report
  \<open>PacketTooShort\<close>, but \<open>EthernetFrame::parse\<close> looks only at the parser's error, which
  is not set, and reports success: the frame keeps the header it had and all the bytes become its payload.\<close>

lemma EthernetFrame_parse_accepts_short:
  assumes "length (Buffer_str b) < 14"
  shows "EthernetHeader_parse (ef_header fr) (NetParser_make b) = Inr (PacketTooShort, ef_header fr, NetParser_make b) \<and>
    EthernetFrame_parse fr b = Inr (NoError, fr\<lparr>ef_payload := [b]\<rparr>)"
  using assms by (cases fr) (simp add: EthernetHeader_parse_def EthernetFrame_parse_def NetParser_make_def Buffer_size_def
    EthernetHeader_LENGTH_def BufferList_of_Buffer_def)

lemma EthernetFrame_parse_accepts_short_witness:
  "EthernetFrame_parse EthernetFrame_default (Buffer_of [1, 2, 3]) =
    Inr (NoError, EthernetFrame_default\<lparr>ef_payload := [Buffer_of [1, 2, 3]]\<rparr>)"
  using EthernetFrame_parse_accepts_short [of "Buffer_of [1, 2, 3]" EthernetFrame_default] by simp

end
