(* ===== verification/ARP.thy ===== *)
theory ARP
  imports Ethernet
begin

text \<open>
  ARP messages, \<open>libsponge/tcp_helpers/arp_message.hh\<close> and \<open>arp_message.cc\<close>: the message
  with its wire format. Requests and replies survive the wire; every other combination of fields is
  refused by both directions.
\<close>

section \<open>ARPMessage\<close>

record ARPMessage =
  arp_hardware_type :: "16 word"
  arp_protocol_type :: "16 word"
  arp_hardware_address_size :: "8 word"
  arp_protocol_address_size :: "8 word"
  arp_opcode :: "16 word"
  arp_sender_ethernet_address :: EthernetAddress
  arp_sender_ip_address :: "32 word"
  arp_target_ethernet_address :: EthernetAddress
  arp_target_ip_address :: "32 word"

definition ARPMessage_LENGTH :: size_t where
  "ARPMessage_LENGTH = 28"

definition TYPE_ETHERNET :: "16 word" where
  "TYPE_ETHERNET = 1"

definition OPCODE_REQUEST :: "16 word" where
  "OPCODE_REQUEST = 1"

definition OPCODE_REPLY :: "16 word" where
  "OPCODE_REPLY = 2"

definition ARPMessage_default :: ARPMessage where
  "ARPMessage_default = \<lparr>arp_hardware_type = TYPE_ETHERNET, arp_protocol_type = TYPE_IPv4,
     arp_hardware_address_size = 6, arp_protocol_address_size = 4, arp_opcode = 0,
     arp_sender_ethernet_address = EthernetAddress_zero, arp_sender_ip_address = 0,
     arp_target_ethernet_address = EthernetAddress_zero, arp_target_ip_address = 0\<rparr>"

definition ARPMessage_supported :: "ARPMessage \<Rightarrow> bool" where
  "ARPMessage_supported m \<longleftrightarrow> arp_hardware_type m = TYPE_ETHERNET \<and> arp_protocol_type m = TYPE_IPv4 \<and>
     arp_hardware_address_size m = 6 \<and> arp_protocol_address_size m = 4 \<and>
     (arp_opcode m = OPCODE_REQUEST \<or> arp_opcode m = OPCODE_REPLY)"

definition ARPMessage_parse :: "ARPMessage \<Rightarrow> Buffer \<Rightarrow> (ParseResult \<times> ARPMessage) res" where
  "ARPMessage_parse m buffer =
    (let p = NetParser_make buffer in
      if Buffer_size (np_buffer p) < ARPMessage_LENGTH then Inr (PacketTooShort, m)
      else
        rbind (NetParser_u16 p) (\<lambda>(hardware_type, p).
        rbind (NetParser_u16 p) (\<lambda>(protocol_type, p).
        rbind (NetParser_u8 p) (\<lambda>(hardware_address_size, p).
        rbind (NetParser_u8 p) (\<lambda>(protocol_address_size, p).
        rbind (NetParser_u16 p) (\<lambda>(opcode, p).
          let m = m\<lparr>arp_hardware_type := hardware_type, arp_protocol_type := protocol_type,
            arp_hardware_address_size := hardware_address_size, arp_protocol_address_size := protocol_address_size,
            arp_opcode := opcode\<rparr>
          in if \<not> ARPMessage_supported m then Inr (Unsupported, m)
             else
               rbind (EthernetAddress_read (arp_sender_ethernet_address m) p) (\<lambda>(sender_ethernet_address, p).
               rbind (NetParser_u32 p) (\<lambda>(sender_ip_address, p).
               rbind (EthernetAddress_read (arp_target_ethernet_address m) p) (\<lambda>(target_ethernet_address, p).
               rbind (NetParser_u32 p) (\<lambda>(target_ip_address, p).
                 Inr (np_error p, m\<lparr>arp_sender_ethernet_address := sender_ethernet_address,
                   arp_sender_ip_address := sender_ip_address, arp_target_ethernet_address := target_ethernet_address,
                   arp_target_ip_address := target_ip_address\<rparr>)))))))))))"

definition ARPMessage_serialize :: "ARPMessage \<Rightarrow> bytes res" where
  "ARPMessage_serialize m =
    (if \<not> ARPMessage_supported m then Inl (RuntimeError
       ''ARPMessage::serialize(): unsupported field combination (must be Ethernet/IP, and request or reply)'')
     else
       let ret = NetUnparser_u16 [] (arp_hardware_type m);
           ret = NetUnparser_u16 ret (arp_protocol_type m);
           ret = NetUnparser_u8 ret (arp_hardware_address_size m);
           ret = NetUnparser_u8 ret (arp_protocol_address_size m);
           ret = NetUnparser_u16 ret (arp_opcode m);
           ret = EthernetAddress_write ret (arp_sender_ethernet_address m);
           ret = NetUnparser_u32 ret (arp_sender_ip_address m);
           ret = EthernetAddress_write ret (arp_target_ethernet_address m);
           ret = NetUnparser_u32 ret (arp_target_ip_address m)
       in Inr ret)"

definition ARPMessage_to_string :: "ARPMessage \<Rightarrow> string" where
  "ARPMessage_to_string m =
    (let opcode_str = ''(unknown type)'';
         opcode_str = (if arp_opcode m = OPCODE_REQUEST then ''REQUEST'' else opcode_str);
         opcode_str = (if arp_opcode m = OPCODE_REPLY then ''REPLY'' else opcode_str)
     in ''opcode='' @ opcode_str @ '', sender='' @ EthernetAddress_to_string (arp_sender_ethernet_address m) @ ''/'' @
       inet_ntoa (arp_sender_ip_address m) @ '', target='' @ EthernetAddress_to_string (arp_target_ethernet_address m) @ ''/'' @
       inet_ntoa (arp_target_ip_address m))"

lemmas [sponge_eval] = ARPMessage_LENGTH_def TYPE_ETHERNET_def OPCODE_REQUEST_def OPCODE_REPLY_def ARPMessage_default_def
  ARPMessage_supported_def ARPMessage_parse_def ARPMessage_serialize_def ARPMessage_to_string_def

lemma OPCODE_distinct [simp]: "OPCODE_REQUEST \<noteq> OPCODE_REPLY" "OPCODE_REPLY \<noteq> OPCODE_REQUEST"
  by (simp_all add: OPCODE_REQUEST_def OPCODE_REPLY_def)

section \<open>The wire format\<close>

text \<open>A message whose addresses have the right size and whose other fields are supported.\<close>

definition ARPMessage_wf :: "ARPMessage \<Rightarrow> bool" where
  "ARPMessage_wf m \<longleftrightarrow> EthernetAddress_wf (arp_sender_ethernet_address m) \<and> EthernetAddress_wf (arp_target_ethernet_address m)"

definition ARPMessage_bytes :: "ARPMessage \<Rightarrow> bytes" where
  "ARPMessage_bytes m = be_bytes (arp_hardware_type m) @ be_bytes (arp_protocol_type m) @
     be_bytes (arp_hardware_address_size m) @ be_bytes (arp_protocol_address_size m) @ be_bytes (arp_opcode m) @
     arp_sender_ethernet_address m @ be_bytes (arp_sender_ip_address m) @
     arp_target_ethernet_address m @ be_bytes (arp_target_ip_address m)"

lemma ARPMessage_wf_default [simp]: "ARPMessage_wf ARPMessage_default"
  by (simp add: ARPMessage_wf_def ARPMessage_default_def)

lemma length_ARPMessage_bytes: "ARPMessage_wf m \<Longrightarrow> length (ARPMessage_bytes m) = 28"
  by (simp add: ARPMessage_wf_def ARPMessage_bytes_def EthernetAddress_wf_def)

lemma ARPMessage_serialize_eq:
  "ARPMessage_supported m \<Longrightarrow> ARPMessage_serialize m = Inr (ARPMessage_bytes m)"
  by (simp add: ARPMessage_serialize_def ARPMessage_bytes_def NetUnparser_eqs Let_def)

text \<open>An address as the first step of a longer computation.\<close>

lemma EthernetAddress_read_bind:
  assumes "NetParser_ready p" "NetParser_str p = v @ rest" "length a = length v"
    and "\<And>p'. NetParser_ready p' \<Longrightarrow> NetParser_str p' = rest \<Longrightarrow> returns (f v p') Q"
  shows "returns (rbind (EthernetAddress_read a p) (\<lambda>(x, p'). f x p')) Q"
  using EthernetAddress_read_emit [OF assms(3,1,2)] assms(4) by auto

lemma ARPMessage_parse_bytes:
  assumes "ARPMessage_wf m0" "ARPMessage_wf m" "ARPMessage_supported m" "Buffer_wf b" "Buffer_str b = ARPMessage_bytes m @ rest"
  shows "ARPMessage_parse m0 b = Inr (NoError, m)"
proof -
  let ?m1 = "m0\<lparr>arp_hardware_type := arp_hardware_type m, arp_protocol_type := arp_protocol_type m,
      arp_hardware_address_size := arp_hardware_address_size m, arp_protocol_address_size := arp_protocol_address_size m,
      arp_opcode := arp_opcode m\<rparr>"
  have len: "length (arp_sender_ethernet_address ?m1) = length (arp_sender_ethernet_address m)"
    "length (arp_target_ethernet_address ?m1) = length (arp_target_ethernet_address m)"
    using assms(1,2) by (simp_all add: ARPMessage_wf_def EthernetAddress_wf_def)
  have ready: "NetParser_ready (NetParser_make b)"
    using assms(4) by simp
  have str: "NetParser_str (NetParser_make b) = be_bytes (arp_hardware_type m) @ be_bytes (arp_protocol_type m) @
     be_bytes (arp_hardware_address_size m) @ be_bytes (arp_protocol_address_size m) @ be_bytes (arp_opcode m) @
     arp_sender_ethernet_address m @ be_bytes (arp_sender_ip_address m) @
     arp_target_ethernet_address m @ be_bytes (arp_target_ip_address m) @ rest"
    using assms(5) by (simp add: ARPMessage_bytes_def)
  have size: "\<not> Buffer_size (np_buffer (NetParser_make b)) < ARPMessage_LENGTH"
    using assms(5) length_ARPMessage_bytes [OF assms(2)] by (simp add: Buffer_size_def NetParser_make_def ARPMessage_LENGTH_def)
  have sup: "ARPMessage_supported ?m1"
    using assms(3) by (simp add: ARPMessage_supported_def)
  have "returns (ARPMessage_parse m0 b) (\<lambda>r. r = (NoError, m))"
    unfolding ARPMessage_parse_def Let_def if_not_P [OF size]
    by (rule parse_fields(2) [OF ready str], (rule parse_fields, assumption, assumption)+)
      (simp only: sup not_True_eq_False if_False,
        (rule EthernetAddress_read_bind [OF _ _ len(1)] EthernetAddress_read_bind [OF _ _ len(2)] parse_fields, assumption, assumption)+,
        simp add: NetParser_ready_def)
  then show ?thesis
    by (auto simp: returns_def)
qed

section \<open>Properties\<close>

text \<open>C26: messages survive the wire, and nothing else is sent. A message is serialized exactly when its
  fields are supported (Ethernet and IPv4 addresses, request or reply); the bytes, with whatever
  follows them, are parsed into the same message from any message; otherwise \<open>serialize\<close> throws.\<close>

theorem ARPMessage_roundtrip:
  assumes "ARPMessage_wf m" "ARPMessage_wf m0" "length rest + 28 < W64"
  shows "if ARPMessage_supported m
    then \<exists>s. ARPMessage_serialize m = Inr s \<and> length s = ARPMessage_LENGTH \<and>
      ARPMessage_parse m0 (Buffer_of (s @ rest)) = Inr (NoError, m)
    else \<exists>e. ARPMessage_serialize m = Inl (RuntimeError e)"
proof (cases "ARPMessage_supported m")
  case True
  have "Buffer_wf (Buffer_of (ARPMessage_bytes m @ rest))"
    using assms(3) length_ARPMessage_bytes [OF assms(1)] by simp
  from ARPMessage_parse_bytes [OF assms(2,1) True this] show ?thesis
    using True length_ARPMessage_bytes [OF assms(1)] by (simp add: ARPMessage_serialize_eq ARPMessage_LENGTH_def)
qed (simp add: ARPMessage_serialize_def)

theorem ARPMessage_roundtrip_witness:
  "\<exists>s. ARPMessage_serialize (ARPMessage_default\<lparr>arp_opcode := OPCODE_REPLY, arp_sender_ip_address := 7\<rparr>) = Inr s \<and>
    ARPMessage_parse ARPMessage_default (Buffer_of (s @ [1])) =
      Inr (NoError, ARPMessage_default\<lparr>arp_opcode := OPCODE_REPLY, arp_sender_ip_address := 7\<rparr>)"
proof -
  let ?m = "ARPMessage_default\<lparr>arp_opcode := OPCODE_REPLY, arp_sender_ip_address := 7\<rparr>"
  have "ARPMessage_wf ?m" "ARPMessage_supported ?m" "length [1 :: byte] + 28 < W64"
    by (simp_all add: ARPMessage_wf_def ARPMessage_supported_def ARPMessage_default_def W64_def)
  then show ?thesis
    using ARPMessage_roundtrip [of ?m ARPMessage_default "[1]"] by auto
qed

end
