(* ===== verification/ARP_Cache.thy ===== *)
theory ARP_Cache
  imports Ethernet
begin

text \<open>
  The cache of Ethernet addresses in \<open>libsponge/network_interface.hh\<close> and
  \<open>network_interface.cc\<close>, with its expiry queue, and the contract of a table whose entries live
  for a fixed time. The cache refines such a table: the queue is always sorted, so the loop that stops
  at the first live entry leaves no expired one behind.
\<close>

section \<open>IP2EthernetCache\<close>

record IP2EthernetCache =
  mc_ip_mac_cache :: "32 word \<rightharpoonup> EthernetAddress"
  mc_cach_expire_queue :: "(size_t \<times> 32 word) list"

definition IP2EthernetCache_empty :: IP2EthernetCache where
  "IP2EthernetCache_empty = \<lparr>mc_ip_mac_cache = Map.empty, mc_cach_expire_queue = []\<rparr>"

text \<open>The loop of \<open>set_cache\<close> that erases the first entry of an address.\<close>

fun expire_queue_erase :: "32 word \<Rightarrow> (size_t \<times> 32 word) list \<Rightarrow> (size_t \<times> 32 word) list" where
  "expire_queue_erase ip [] = []"
| "expire_queue_erase ip (e # q) = (if snd e = ip then q else e # expire_queue_erase ip q)"

definition IP2EthernetCache_set_cache ::
  "IP2EthernetCache \<Rightarrow> 32 word \<Rightarrow> EthernetAddress \<Rightarrow> size_t \<Rightarrow> size_t \<Rightarrow> IP2EthernetCache" where
  "IP2EthernetCache_set_cache c ip_address ether_address ms_since_last_tick expire_time =
    (let q = (if mc_ip_mac_cache c ip_address \<noteq> None then expire_queue_erase ip_address (mc_cach_expire_queue c)
              else mc_cach_expire_queue c)
     in \<lparr>mc_ip_mac_cache = (mc_ip_mac_cache c)(ip_address \<mapsto> ether_address),
         mc_cach_expire_queue = q @ [(add64 ms_since_last_tick expire_time, ip_address)]\<rparr>)"

definition IP2EthernetCache_get_cache :: "IP2EthernetCache \<Rightarrow> 32 word \<Rightarrow> EthernetAddress option" where
  "IP2EthernetCache_get_cache c ip_address = mc_ip_mac_cache c ip_address"

text \<open>The loop of \<open>try_clean_expire_cache\<close> over the queue.\<close>

fun expire_loop ::
  "size_t \<Rightarrow> (32 word \<rightharpoonup> EthernetAddress) \<Rightarrow> (size_t \<times> 32 word) list \<Rightarrow> (32 word \<rightharpoonup> EthernetAddress) \<times> (size_t \<times> 32 word) list" where
  "expire_loop current_time m [] = (m, [])"
| "expire_loop current_time m (front # q) =
    (if fst front < current_time then expire_loop current_time (m(snd front := None)) q
     else (m, front # q))"

definition IP2EthernetCache_try_clean_expire_cache :: "IP2EthernetCache \<Rightarrow> size_t \<Rightarrow> IP2EthernetCache" where
  "IP2EthernetCache_try_clean_expire_cache c current_time =
    (let (m, q) = expire_loop current_time (mc_ip_mac_cache c) (mc_cach_expire_queue c)
     in \<lparr>mc_ip_mac_cache = m, mc_cach_expire_queue = q\<rparr>)"

lemmas [sponge_eval] = IP2EthernetCache_empty_def IP2EthernetCache_set_cache_def IP2EthernetCache_get_cache_def
  IP2EthernetCache_try_clean_expire_cache_def

section \<open>The contract of a timed table\<close>

text \<open>
  A table whose entries live for a fixed time. Its history is a sequence of events, the latest first:
  a value is learnt for a key, or time passes.
\<close>

datatype ('k, 'v) table_event = Learn 'k 'v | Pass nat

fun learnt :: "('k, 'v) table_event list \<Rightarrow> 'k \<rightharpoonup> 'v \<times> nat" where
  "learnt [] k = None"
| "learnt (Learn k' v # es) k = (if k' = k then Some (v, 0) else learnt es k)"
| "learnt (Pass d # es) k = map_option (\<lambda>(v, age). (v, age + d)) (learnt es k)"

fun elapsed :: "('k, 'v) table_event list \<Rightarrow> nat" where
  "elapsed [] = 0"
| "elapsed (Learn k v # es) = elapsed es"
| "elapsed (Pass d # es) = elapsed es + d"

fun table_run :: "('s \<Rightarrow> 'k \<Rightarrow> 'v \<Rightarrow> 's) \<Rightarrow> ('s \<Rightarrow> nat \<Rightarrow> 's) \<Rightarrow> 's \<Rightarrow> ('k, 'v) table_event list \<Rightarrow> 's" where
  "table_run learn pass s [] = s"
| "table_run learn pass s (Learn k v # es) = learn (table_run learn pass s es) k v"
| "table_run learn pass s (Pass d # es) = pass (table_run learn pass s es) d"

lemma learnt_age: "learnt es k = Some (v, age) \<Longrightarrow> age \<le> elapsed es"
proof (induction es arbitrary: age)
  case (Cons e es)
  then show ?case
    by (cases e) (auto split: if_splits)
qed simp

locale timed_table =
  fixes inv :: "'s \<Rightarrow> bool"
    and clock :: "'s \<Rightarrow> nat"
    and table :: "'s \<Rightarrow> 'k \<rightharpoonup> 'v \<times> nat"
    and learn :: "'s \<Rightarrow> 'k \<Rightarrow> 'v \<Rightarrow> 's"
    and pass :: "'s \<Rightarrow> nat \<Rightarrow> 's"
    and get :: "'s \<Rightarrow> 'k \<rightharpoonup> 'v"
    and valid :: "'v \<Rightarrow> bool"
    and ttl :: nat
  assumes get_table: "inv s \<Longrightarrow> get s k = map_option fst (table s k)"
    and learn_inv: "inv s \<Longrightarrow> valid v \<Longrightarrow> clock s + ttl < W64 \<Longrightarrow> inv (learn s k v)"
    and learn_clock: "clock (learn s k v) = clock s"
    and learn_table: "inv s \<Longrightarrow> valid v \<Longrightarrow> clock s + ttl < W64 \<Longrightarrow> table (learn s k v) = (table s)(k \<mapsto> (v, clock s + ttl))"
    and pass_inv: "inv s \<Longrightarrow> clock s + d < W64 \<Longrightarrow> inv (pass s d)"
    and pass_clock: "clock s + d < W64 \<Longrightarrow> clock (pass s d) = clock s + d"
    and pass_table: "inv s \<Longrightarrow> clock s + d < W64 \<Longrightarrow>
      table (pass s d) k = (case table s k of None \<Rightarrow> None | Some (v, t) \<Rightarrow> if t < clock s + d then None else Some (v, t))"
begin

lemma run_history:
  assumes "inv s" "table s = Map.empty" "clock s + elapsed es + ttl < W64" "\<And>k v. Learn k v \<in> set es \<Longrightarrow> valid v"
  shows "inv (table_run learn pass s es) \<and> clock (table_run learn pass s es) = clock s + elapsed es \<and>
    table (table_run learn pass s es) k =
      (case learnt es k of None \<Rightarrow> None
       | Some (v, age) \<Rightarrow> if age \<le> ttl then Some (v, clock s + elapsed es - age + ttl) else None)"
  using assms(3,4)
proof (induction es arbitrary: k)
  case Nil
  then show ?case
    using assms(1,2) by simp
next
  case (Cons e es)
  let ?s = "table_run learn pass s es"
  have "clock s + elapsed es + ttl < W64"
    using Cons.prems(1) by (cases e) simp_all
  moreover have "valid v" if "Learn k v \<in> set es" for k v
    using Cons.prems(2) [of k v] that by simp
  ultimately have IH: "inv ?s" "clock ?s = clock s + elapsed es"
    "\<And>k. table ?s k = (case learnt es k of None \<Rightarrow> None
       | Some (v, age) \<Rightarrow> if age \<le> ttl then Some (v, clock s + elapsed es - age + ttl) else None)"
    using Cons.IH by blast+
  show ?case
  proof (cases e)
    case (Learn k' v)
    then have "valid v" "clock ?s + ttl < W64"
      using Cons.prems IH(2) by auto
    then show ?thesis
      unfolding Learn using IH by (cases "learnt es k") (auto simp: learn_inv learn_clock learn_table)
  next
    case (Pass d)
    then have "clock ?s + d < W64"
      using Cons.prems IH(2) by simp
    then show ?thesis
      unfolding Pass using IH learnt_age [of es k] by (cases "learnt es k") (auto simp: pass_inv pass_clock pass_table)
  qed
qed

text \<open>A lookup returns what was learnt last, for as long as the entry lives, and nothing else.\<close>

lemma get_history:
  assumes "inv s" "table s = Map.empty" "clock s + elapsed es + ttl < W64" "\<And>k v. Learn k v \<in> set es \<Longrightarrow> valid v"
  shows "get (table_run learn pass s es) k =
    (case learnt es k of None \<Rightarrow> None | Some (v, age) \<Rightarrow> if age \<le> ttl then Some v else None)"
  using run_history [OF assms, where k = k] by (auto simp: get_table split: option.splits)

end

section \<open>The cache as a timed table\<close>

text \<open>
  The queue is sorted by time and has exactly one entry for each address in the cache.
\<close>

definition IP2EthernetCache_inv :: "size_t \<Rightarrow> IP2EthernetCache \<Rightarrow> bool" where
  "IP2EthernetCache_inv bound c \<longleftrightarrow> sorted (map fst (mc_cach_expire_queue c)) \<and> distinct (map snd (mc_cach_expire_queue c)) \<and>
    snd ` set (mc_cach_expire_queue c) = dom (mc_ip_mac_cache c) \<and> (\<forall>e \<in> set (mc_cach_expire_queue c). fst e \<le> bound) \<and>
    (\<forall>mac \<in> ran (mc_ip_mac_cache c). EthernetAddress_wf mac)"

definition expiry :: "(size_t \<times> 32 word) list \<Rightarrow> 32 word \<rightharpoonup> size_t" where
  "expiry q ip = map_of (map prod.swap q) ip"

definition IP2EthernetCache_table :: "IP2EthernetCache \<Rightarrow> 32 word \<rightharpoonup> EthernetAddress \<times> size_t" where
  "IP2EthernetCache_table c ip =
    (case (mc_ip_mac_cache c ip, expiry (mc_cach_expire_queue c) ip) of
      (Some mac, Some t) \<Rightarrow> Some (mac, t) | _ \<Rightarrow> None)"

lemma expiry_simps [simp]: "expiry [] ip = None" "expiry ((t, a) # q) ip = (if a = ip then Some t else expiry q ip)"
  "expiry (q @ r) ip = (case expiry q ip of None \<Rightarrow> expiry r ip | Some t \<Rightarrow> Some t)"
  by (auto simp: expiry_def map_add_def split: option.splits)

lemma dom_expiry: "dom (expiry q) = snd ` set q"
  by (simp add: expiry_def [abs_def] dom_map_of_conv_image_fst image_image)

lemma expiry_None: "expiry q ip = None \<longleftrightarrow> ip \<notin> snd ` set q"
  using dom_expiry [of q] by (auto simp: domIff)

lemma expire_queue_erase_eq: "distinct (map snd q) \<Longrightarrow> expire_queue_erase ip q = filter (\<lambda>e. snd e \<noteq> ip) q"
proof (induction q)
  case (Cons e q)
  then show ?case
    by (auto simp: image_iff intro!: filter_True [symmetric])
qed simp

lemma sorted_filter_fst: "sorted (map fst q) \<Longrightarrow> sorted (map fst (filter P q))"
  by (induction q) auto

lemma distinct_filter_snd: "distinct (map snd q) \<Longrightarrow> distinct (map snd (filter P q))"
  by (induction q) auto

lemma expiry_filter: "ip \<noteq> a \<Longrightarrow> expiry (filter (\<lambda>e. snd e \<noteq> a) q) ip = expiry q ip"
  by (induction q) auto

text \<open>The erasing loop runs only when there is something to erase; it could run always.\<close>

lemma IP2EthernetCache_set_queue:
  assumes "IP2EthernetCache_inv bound c"
  shows "mc_cach_expire_queue (IP2EthernetCache_set_cache c ip mac now ttl) =
    filter (\<lambda>e. snd e \<noteq> ip) (mc_cach_expire_queue c) @ [(add64 now ttl, ip)]"
proof (cases "mc_ip_mac_cache c ip")
  case None
  then have "filter (\<lambda>e. snd e \<noteq> ip) (mc_cach_expire_queue c) = mc_cach_expire_queue c"
    using assms by (auto simp: IP2EthernetCache_inv_def filter_id_conv)
  then show ?thesis
    using None by (simp add: IP2EthernetCache_set_cache_def)
qed (use assms in \<open>simp add: IP2EthernetCache_set_cache_def IP2EthernetCache_inv_def expire_queue_erase_eq\<close>)

lemma IP2EthernetCache_set_map:
  "mc_ip_mac_cache (IP2EthernetCache_set_cache c ip mac now ttl) = (mc_ip_mac_cache c)(ip \<mapsto> mac)"
  by (simp add: IP2EthernetCache_set_cache_def Let_def)

lemma IP2EthernetCache_set_inv:
  assumes "IP2EthernetCache_inv (now + ttl) c" "EthernetAddress_wf mac" "now + ttl < W64"
  shows "IP2EthernetCache_inv (now + ttl) (IP2EthernetCache_set_cache c ip mac now ttl)"
proof -
  let ?q = "mc_cach_expire_queue c"
  have q: "sorted (map fst ?q)" "distinct (map snd ?q)" "snd ` set ?q = dom (mc_ip_mac_cache c)" "\<forall>e \<in> set ?q. fst e \<le> now + ttl"
    using assms(1) by (auto simp: IP2EthernetCache_inv_def)
  have "sorted (map fst (filter (\<lambda>e. snd e \<noteq> ip) ?q @ [(now + ttl, ip)]))"
    using sorted_filter_fst [OF q(1)] q(4) by (auto simp: sorted_append)
  moreover have "snd ` set (filter (\<lambda>e. snd e \<noteq> ip) ?q @ [(now + ttl, ip)]) = dom ((mc_ip_mac_cache c)(ip \<mapsto> mac))"
    using q(3) by auto
  moreover have "\<forall>m \<in> ran ((mc_ip_mac_cache c)(ip \<mapsto> mac)). EthernetAddress_wf m"
    using assms(1,2) by (auto simp: IP2EthernetCache_inv_def ran_def)
  ultimately show ?thesis
    using q(4) distinct_filter_snd [OF q(2)] assms(3)
    by (auto simp: IP2EthernetCache_inv_def IP2EthernetCache_set_queue [OF assms(1)] IP2EthernetCache_set_map u64_simps)
qed

lemma IP2EthernetCache_set_table:
  assumes "IP2EthernetCache_inv bound c" "now + ttl < W64"
  shows "IP2EthernetCache_table (IP2EthernetCache_set_cache c ip mac now ttl) = (IP2EthernetCache_table c)(ip \<mapsto> (mac, now + ttl))"
proof
  fix a
  show "IP2EthernetCache_table (IP2EthernetCache_set_cache c ip mac now ttl) a = ((IP2EthernetCache_table c)(ip \<mapsto> (mac, now + ttl))) a"
  proof (cases "a = ip")
    case True
    have "expiry (filter (\<lambda>e. snd e \<noteq> ip) (mc_cach_expire_queue c)) ip = None"
      by (auto simp: expiry_None)
    then show ?thesis
      using True assms(2) by (simp add: IP2EthernetCache_table_def IP2EthernetCache_set_queue [OF assms(1)] IP2EthernetCache_set_map u64_simps)
  next
    case False
    then show ?thesis
      by (simp add: IP2EthernetCache_table_def IP2EthernetCache_set_queue [OF assms(1)] IP2EthernetCache_set_map expiry_filter
        split: option.splits)
  qed
qed

text \<open>The loop stops at the first entry that is still alive; as the queue is sorted, so are all others.\<close>

lemma expire_loop_eq:
  assumes "sorted (map fst q)"
  shows "expire_loop now m q =
    (\<lambda>ip. if ip \<in> snd ` {e \<in> set q. fst e < now} then None else m ip, filter (\<lambda>e. \<not> fst e < now) q)"
  using assms
proof (induction q arbitrary: m)
  case (Cons e q)
  show ?case
  proof (cases "fst e < now")
    case True
    then show ?thesis
      using Cons by (auto simp: fun_eq_iff)
  next
    case False
    then have "\<forall>e' \<in> set (e # q). \<not> fst e' < now"
      using Cons.prems by auto
    then show ?thesis
      using False by (auto simp: filter_id_conv fun_eq_iff)
  qed
qed simp

lemma IP2EthernetCache_clean_eq:
  assumes "IP2EthernetCache_inv bound c"
  shows "IP2EthernetCache_try_clean_expire_cache c now =
    \<lparr>mc_ip_mac_cache = (\<lambda>ip. if ip \<in> snd ` {e \<in> set (mc_cach_expire_queue c). fst e < now} then None else mc_ip_mac_cache c ip),
     mc_cach_expire_queue = filter (\<lambda>e. \<not> fst e < now) (mc_cach_expire_queue c)\<rparr>"
  using assms by (simp add: IP2EthernetCache_try_clean_expire_cache_def IP2EthernetCache_inv_def expire_loop_eq)

lemma distinct_snd_eq: "distinct (map snd q) \<Longrightarrow> e \<in> set q \<Longrightarrow> f \<in> set q \<Longrightarrow> snd e = snd f \<Longrightarrow> e = f"
  by (metis distinct_map inj_on_def)

lemma IP2EthernetCache_clean_inv:
  assumes "IP2EthernetCache_inv bound c" "bound \<le> bound'"
  shows "IP2EthernetCache_inv bound' (IP2EthernetCache_try_clean_expire_cache c now)"
proof -
  let ?q = "mc_cach_expire_queue c"
  have q: "sorted (map fst ?q)" "distinct (map snd ?q)" "snd ` set ?q = dom (mc_ip_mac_cache c)" "\<forall>e \<in> set ?q. fst e \<le> bound"
    "\<forall>m \<in> ran (mc_ip_mac_cache c). EthernetAddress_wf m"
    using assms(1) by (auto simp: IP2EthernetCache_inv_def)
  have "snd ` {e \<in> set ?q. \<not> fst e < now} = snd ` set ?q - snd ` {e \<in> set ?q. fst e < now}"
    using distinct_snd_eq [OF q(2)] by blast
  then have "snd ` {e \<in> set ?q. \<not> fst e < now} =
      dom (\<lambda>ip. if ip \<in> snd ` {e \<in> set ?q. fst e < now} then None else mc_ip_mac_cache c ip)"
    unfolding q(3) by (auto simp: dom_def)
  then show ?thesis
    using q(4,5) assms(2) sorted_filter_fst [OF q(1)] distinct_filter_snd [OF q(2)]
    by (auto simp: IP2EthernetCache_inv_def IP2EthernetCache_clean_eq [OF assms(1)] ran_def)
qed

lemma expiry_alive:
  assumes "distinct (map snd q)"
  shows "expiry (filter (\<lambda>e. \<not> fst e < now) q) ip = (case expiry q ip of None \<Rightarrow> None | Some t \<Rightarrow> if t < now then None else Some t)"
  using assms
proof (induction q)
  case (Cons e q)
  then show ?case
    using expiry_None [of q ip] by (cases e) (auto split: option.splits)
qed simp

lemma expiry_dead:
  assumes "distinct (map snd q)"
  shows "ip \<in> snd ` {e \<in> set q. fst e < now} \<longleftrightarrow> (case expiry q ip of None \<Rightarrow> False | Some t \<Rightarrow> t < now)"
proof -
  have entry: "expiry q ip = Some (fst e)" if "e \<in> set q" "ip = snd e" for e
    using assms that by (induction q) (auto simp: image_iff)
  show ?thesis
  proof (cases "expiry q ip")
    case None
    then show ?thesis
      using expiry_None [of q ip] by auto
  next
    case (Some t)
    then have "(t, ip) \<in> set q"
      by (induction q) (auto split: if_splits)
    then have "ip \<in> snd ` {e \<in> set q. fst e < now}" if "t < now"
      using that by (intro image_eqI [of _ _ "(t, ip)"]) simp_all
    moreover have "t < now" if "e \<in> set q" "fst e < now" "ip = snd e" for e
      using entry [OF that(1,3)] Some that(2) by simp
    ultimately have "ip \<in> snd ` {e \<in> set q. fst e < now} \<longleftrightarrow> t < now"
      by blast
    then show ?thesis
      using Some by simp
  qed
qed

lemma IP2EthernetCache_clean_table:
  assumes "IP2EthernetCache_inv bound c"
  shows "IP2EthernetCache_table (IP2EthernetCache_try_clean_expire_cache c now) ip =
    (case IP2EthernetCache_table c ip of None \<Rightarrow> None | Some (mac, t) \<Rightarrow> if t < now then None else Some (mac, t))"
proof -
  have "distinct (map snd (mc_cach_expire_queue c))"
    using assms by (simp add: IP2EthernetCache_inv_def)
  from expiry_dead [OF this] expiry_alive [OF this] show ?thesis
    by (auto simp: IP2EthernetCache_clean_eq [OF assms] IP2EthernetCache_table_def split: option.splits)
qed

lemma IP2EthernetCache_get_table:
  assumes "IP2EthernetCache_inv bound c"
  shows "IP2EthernetCache_get_cache c ip = map_option fst (IP2EthernetCache_table c ip)"
proof -
  have "expiry (mc_cach_expire_queue c) ip = None \<longleftrightarrow> mc_ip_mac_cache c ip = None"
    using assms by (simp add: expiry_None IP2EthernetCache_inv_def domIff)
  then show ?thesis
    by (auto simp: IP2EthernetCache_get_cache_def IP2EthernetCache_table_def split: option.splits)
qed

end
