(* ===== verification/Sponge_Address.thy ===== *)
theory Sponge_Address
  imports Sponge_Text
begin

text \<open>
  Socket addresses, \<open>libsponge/util/address.hh\<close> and \<open>util/address.cc\<close>, at the level of
  the bytes of the \<open>sockaddr_storage\<close>. The resolver of the C library is not part of the program:
  it is an argument, and what the program relies on is that it reads and prints numeric IPv4
  addresses.
\<close>

section \<open>The resolver\<close>

record addrinfo =
  ai_flags :: int
  ai_family :: int

text \<open>
  \<open>getaddrinfo\<close> returns an error number and the first resolved address, if there is one;
  \<open>getnameinfo\<close>, always asked for the numeric form, an error number, the host and the service.
\<close>

record resolver =
  getaddrinfo :: "string \<Rightarrow> string \<Rightarrow> addrinfo \<Rightarrow> int \<times> bytes option"
  getnameinfo :: "bytes \<Rightarrow> int \<times> string \<times> string"

definition AF_INET :: int where
  "AF_INET = 2"

definition AI_NUMERICHOST :: int where
  "AI_NUMERICHOST = 0x4"

definition AI_ALL :: int where
  "AI_ALL = 0x10"

definition AI_NUMERICSERV :: int where
  "AI_NUMERICSERV = 0x400"

definition make_hints :: "int \<Rightarrow> int \<Rightarrow> addrinfo" where
  "make_hints flags family = \<lparr>ai_flags = flags, ai_family = family\<rparr>"

section \<open>Address\<close>

text \<open>The storage has the 128 bytes of a \<open>sockaddr_storage\<close>.\<close>

record Address =
  adr_size :: nat
  adr_storage :: bytes

definition sizeof_sockaddr_storage :: size_t where
  "sizeof_sockaddr_storage = 128"

definition sizeof_sockaddr_in :: size_t where
  "sizeof_sockaddr_in = 16"

definition Address_of_sockaddr :: "bytes \<Rightarrow> size_t \<Rightarrow> Address res" where
  "Address_of_sockaddr addr len =
    (if sizeof_sockaddr_storage < len then Inl (RuntimeError ''invalid sockaddr size'')
     else if length addr < len then Inl OutOfBounds
     else Inr \<lparr>adr_size = len, adr_storage = take len addr @ replicate (sizeof_sockaddr_storage - len) 0\<rparr>)"

definition Address_resolve :: "resolver \<Rightarrow> string \<Rightarrow> string \<Rightarrow> addrinfo \<Rightarrow> Address res" where
  "Address_resolve rs node service hints =
    (let (gai_ret, resolved_address) = getaddrinfo rs node service hints in
      if gai_ret \<noteq> 0 then Inl (TaggedError ''gai_error_category'' (''getaddrinfo('' @ node @ '', '' @ service @ '')'') gai_ret)
      else case resolved_address of
        None \<Rightarrow> Inl (RuntimeError ''getaddrinfo returned successfully but with no results'')
      | Some ai_addr \<Rightarrow> Address_of_sockaddr ai_addr (length ai_addr))"

definition Address_of_host :: "resolver \<Rightarrow> string \<Rightarrow> string \<Rightarrow> Address res" where
  "Address_of_host rs hostname service = Address_resolve rs hostname service (make_hints AI_ALL AF_INET)"

definition Address_of_ip :: "resolver \<Rightarrow> string \<Rightarrow> 16 word \<Rightarrow> Address res" where
  "Address_of_ip rs ip port =
    Address_resolve rs ip (dec_string (unat port)) (make_hints (AI_NUMERICHOST + AI_NUMERICSERV) AF_INET)"

text \<open>\<open>std::stoi\<close>: white space, a sign, digits; what follows is ignored.\<close>

definition stoi :: "string \<Rightarrow> int res" where
  "stoi s =
    (let s = dropWhile (\<lambda>c. of_char c = (32 :: nat) \<or> 9 \<le> (of_char c :: nat) \<and> (of_char c :: nat) \<le> 13) s;
         neg = (s \<noteq> [] \<and> hd s = CHR ''-'');
         s = (if s \<noteq> [] \<and> (hd s = CHR ''-'' \<or> hd s = CHR ''+'') then tl s else s);
         ds = takeWhile (\<lambda>c. 48 \<le> (of_char c :: nat) \<and> (of_char c :: nat) \<le> 57) s;
         n = (if neg then - int (radix_value 10 ds) else int (radix_value 10 ds))
     in if ds = [] then Inl InvalidArgument
        else if n < - (2 ^ 31) \<or> 2 ^ 31 \<le> n then Inl OutOfRange
        else Inr n)"

definition Address_ip_port :: "resolver \<Rightarrow> Address \<Rightarrow> (string \<times> 16 word) res" where
  "Address_ip_port rs a =
    (let (gni_ret, ip, port) = getnameinfo rs (take (adr_size a) (adr_storage a)) in
      if gni_ret \<noteq> 0 then Inl (TaggedError ''gai_error_category'' ''getnameinfo'' gni_ret)
      else rbind (stoi port) (\<lambda>n. Inr (ip, word_of_int n)))"

definition Address_ip :: "resolver \<Rightarrow> Address \<Rightarrow> string res" where
  "Address_ip rs a = rbind (Address_ip_port rs a) (\<lambda>(ip, port). Inr ip)"

definition Address_port :: "resolver \<Rightarrow> Address \<Rightarrow> 16 word res" where
  "Address_port rs a = rbind (Address_ip_port rs a) (\<lambda>(ip, port). Inr port)"

definition Address_to_string :: "resolver \<Rightarrow> Address \<Rightarrow> string res" where
  "Address_to_string rs a = rbind (Address_ip_port rs a) (\<lambda>(ip, port). Inr (ip @ '':'' @ dec_string (unat port)))"

text \<open>The family is the first two bytes in host order (least significant byte first), the port and the
  address follow in network order.\<close>

definition Address_ss_family :: "Address \<Rightarrow> int" where
  "Address_ss_family a = int (unat (adr_storage a ! 0)) + 256 * int (unat (adr_storage a ! 1))"

definition sockaddr_in :: "16 word \<Rightarrow> 32 word \<Rightarrow> bytes" where
  "sockaddr_in port s_addr = [word_of_int (AF_INET mod 256), word_of_int (AF_INET div 256)] @ be_bytes port @ be_bytes s_addr @ replicate 8 0"

definition Address_ipv4_numeric :: "Address \<Rightarrow> 32 word res" where
  "Address_ipv4_numeric a =
    (if Address_ss_family a \<noteq> AF_INET \<or> adr_size a \<noteq> sizeof_sockaddr_in
     then Inl (RuntimeError ''ipv4_numeric called on non-IPV4 address'')
     else Inr (be_word (take 4 (drop 4 (adr_storage a)))))"

definition Address_from_ipv4_numeric :: "32 word \<Rightarrow> Address res" where
  "Address_from_ipv4_numeric ip_address = Address_of_sockaddr (sockaddr_in 0 ip_address) sizeof_sockaddr_in"

definition Address_eq :: "Address \<Rightarrow> Address \<Rightarrow> bool" where
  "Address_eq a b \<longleftrightarrow> adr_size a = adr_size b \<and> take (adr_size a) (adr_storage a) = take (adr_size a) (adr_storage b)"

lemmas [sponge_eval] = AF_INET_def AI_NUMERICHOST_def AI_ALL_def AI_NUMERICSERV_def make_hints_def
  sizeof_sockaddr_storage_def sizeof_sockaddr_in_def Address_of_sockaddr_def Address_resolve_def Address_of_host_def
  Address_of_ip_def stoi_def Address_ip_port_def Address_ip_def Address_port_def Address_to_string_def
  Address_ss_family_def sockaddr_in_def Address_ipv4_numeric_def Address_from_ipv4_numeric_def Address_eq_def

section \<open>IPv4 addresses\<close>

definition IPv4_address :: "32 word \<Rightarrow> 16 word \<Rightarrow> Address" where
  "IPv4_address ip port = \<lparr>adr_size = 16, adr_storage = sockaddr_in port ip @ replicate 112 0\<rparr>"

lemma length_sockaddr_in [simp]: "length (sockaddr_in port ip) = 16"
  by (simp add: sockaddr_in_def)

lemma Address_of_sockaddr_in [simp]: "Address_of_sockaddr (sockaddr_in port ip) 16 = Inr (IPv4_address ip port)"
  by (simp add: Address_of_sockaddr_def sizeof_sockaddr_storage_def IPv4_address_def)

lemma Address_from_ipv4_numeric_eq [simp]: "Address_from_ipv4_numeric ip = Inr (IPv4_address ip 0)"
  by (simp add: Address_from_ipv4_numeric_def sizeof_sockaddr_in_def)

lemma Address_ipv4_numeric_eq [simp]: "Address_ipv4_numeric (IPv4_address ip port) = Inr ip"
proof -
  have "take 4 (drop 4 (adr_storage (IPv4_address ip port))) = be_bytes ip"
    by (simp add: IPv4_address_def sockaddr_in_def)
  moreover have "Address_ss_family (IPv4_address ip port) = AF_INET"
    by (simp add: IPv4_address_def sockaddr_in_def Address_ss_family_def AF_INET_def)
  ultimately show ?thesis
    by (simp add: Address_ipv4_numeric_def sizeof_sockaddr_in_def) (simp add: IPv4_address_def)
qed

lemma IPv4_address_inj [simp]: "IPv4_address ip port = IPv4_address ip' port' \<longleftrightarrow> ip = ip' \<and> port = port'"
proof
  assume eq: "IPv4_address ip port = IPv4_address ip' port'"
  then have "be_bytes port = be_bytes port'" "be_bytes ip = be_bytes ip'"
    by (simp_all add: IPv4_address_def sockaddr_in_def)
  then have "be_word (be_bytes port) = (be_word (be_bytes port') :: 16 word)" "be_word (be_bytes ip) = (be_word (be_bytes ip') :: 32 word)"
    by simp_all
  then show "ip = ip' \<and> port = port'"
    by simp
qed simp

lemma Address_eq_IPv4 [simp]: "Address_eq (IPv4_address ip port) (IPv4_address ip' port') \<longleftrightarrow> ip = ip' \<and> port = port'"
proof -
  have "Address_eq (IPv4_address ip port) (IPv4_address ip' port') \<longleftrightarrow> sockaddr_in port ip = sockaddr_in port' ip'"
    by (simp add: Address_eq_def) (simp add: IPv4_address_def)
  also have "\<dots> \<longleftrightarrow> IPv4_address ip port = IPv4_address ip' port'"
    by (simp add: IPv4_address_def)
  finally show ?thesis
    by simp
qed

text \<open>
  What the program relies on: for IPv4 addresses, the numeric form is printed, and read again, as the
  dotted quad and the decimal port.
\<close>

definition resolver_numeric :: "resolver \<Rightarrow> bool" where
  "resolver_numeric rs \<longleftrightarrow>
    (\<forall>ip port. getnameinfo rs (sockaddr_in port ip) = (0, inet_ntoa ip, dec_string (unat port))) \<and>
    (\<forall>ip port. getaddrinfo rs (inet_ntoa ip) (dec_string (unat port)) (make_hints (AI_NUMERICHOST + AI_NUMERICSERV) AF_INET) =
      (0, Some (sockaddr_in port ip)))"

lemma stoi_dec_string: "n < 2 ^ 31 \<Longrightarrow> stoi (dec_string n) = Inr (int n)"
proof -
  assume n: "n < 2 ^ 31"
  let ?s = "dec_string n"
  have dig: "48 \<le> (of_char c :: nat) \<and> (of_char c :: nat) \<le> 57" if "c \<in> set ?s" for c
    using radix_string_digits [of 10 c n] that by (auto simp: dec_string_def digit_char_def of_char_of)
  have ne: "?s \<noteq> []"
    by (simp add: dec_string_def radix_string.simps [of 10 n])
  then have hd: "48 \<le> (of_char (hd ?s) :: nat)" "(of_char (hd ?s) :: nat) \<le> 57"
    using dig [of "hd ?s"] by simp_all
  have drop: "dropWhile (\<lambda>c. of_char c = (32 :: nat) \<or> 9 \<le> (of_char c :: nat) \<and> (of_char c :: nat) \<le> 13) ?s = ?s"
    using ne hd by (cases ?s) auto
  have sign: "hd ?s \<noteq> CHR ''-''" "hd ?s \<noteq> CHR ''+''"
    using hd by auto
  have tk: "takeWhile (\<lambda>c. 48 \<le> (of_char c :: nat) \<and> (of_char c :: nat) \<le> 57) ?s = ?s"
    using dig by (simp add: takeWhile_eq_all_conv)
  have "radix_value 10 ?s = n"
    by (simp add: dec_string_def radix_value_radix_string)
  then show ?thesis
    using ne sign n by (simp add: stoi_def drop tk Let_def)
qed

lemma Address_ip_port_eq:
  assumes "resolver_numeric rs"
  shows "Address_ip_port rs (IPv4_address ip port) = Inr (inet_ntoa ip, port)"
proof -
  have "unat port < 65536"
    using unsigned_less [of port] by simp
  then have "stoi (dec_string (unat port)) = Inr (int (unat port))"
    by (intro stoi_dec_string) simp
  then show ?thesis
    using assms by (simp add: Address_ip_port_def resolver_numeric_def IPv4_address_def)
qed

lemma Address_of_ip_eq:
  assumes "resolver_numeric rs"
  shows "Address_of_ip rs (inet_ntoa ip) port = Inr (IPv4_address ip port)"
  using assms by (simp add: Address_of_ip_def Address_resolve_def resolver_numeric_def)

lemma Address_port_eq: "resolver_numeric rs \<Longrightarrow> Address_port rs (IPv4_address ip port) = Inr port"
  by (simp add: Address_port_def Address_ip_port_eq)

lemma Address_ip_eq: "resolver_numeric rs \<Longrightarrow> Address_ip rs (IPv4_address ip port) = Inr (inet_ntoa ip)"
  by (simp add: Address_ip_def Address_ip_port_eq)

text \<open>A resolver for numeric addresses only.\<close>

definition numeric_resolver :: resolver where
  "numeric_resolver = \<lparr>
    getaddrinfo = (\<lambda>node service hints.
      (0, Some (sockaddr_in (of_nat (radix_value 10 service))
        (be_word (map (\<lambda>s. of_nat (radix_value 10 s)) (split_on (CHR ''.'') node)))))),
    getnameinfo = (\<lambda>addr.
      (0, inet_ntoa (be_word (take 4 (drop 4 addr))), dec_string (unat (be_word (take 2 (drop 2 addr)) :: 16 word))))\<rparr>"

lemma resolver_numeric_numeric_resolver [simp]: "resolver_numeric numeric_resolver"
proof -
  have "take 4 (drop 4 (sockaddr_in port ip)) = be_bytes ip" "take 2 (drop 2 (sockaddr_in port ip)) = be_bytes port" for port ip
    by (simp_all add: sockaddr_in_def)
  then show ?thesis
    by (simp add: resolver_numeric_def numeric_resolver_def inet_ntoa_bytes dec_string_def radix_value_radix_string)
qed

end
