(* ===== verification/Network_Interface.thy ===== *)
theory Network_Interface
  imports ARP ARP_Cache IPv4 Sponge_Address
begin

text \<open>
  The network interface, \<open>libsponge/network_interface.hh\<close> and \<open>network_interface.cc\<close>: it
  sends datagrams in frames, asks for and answers with Ethernet addresses, and learns them. The
  interface is shown to answer exactly what it has learnt in the last thirty seconds, and two
  interfaces to resolve each other; while one resolution is pending, other datagrams are dropped.
\<close>

section \<open>NetworkInterface\<close>

record NetworkInterface =
  ni_ethernet_address :: EthernetAddress
  ni_ip_address :: Address
  ni_frames_out :: "EthernetFrame list"
  ni_arp_ip_queue :: "32 word \<rightharpoonup> size_t \<times> IPv4Datagram"
  ni_ip_mac_map :: IP2EthernetCache
  ni_ms_since_last_tick :: size_t
  ni_expire_time :: size_t

text \<open>The constructor prints both addresses, for which it resolves the IP address.\<close>

definition NetworkInterface_make :: "resolver \<Rightarrow> EthernetAddress \<Rightarrow> Address \<Rightarrow> NetworkInterface res" where
  "NetworkInterface_make rs ethernet_address ip_address =
    rbind (Address_ip rs ip_address) (\<lambda>_.
      Inr \<lparr>ni_ethernet_address = ethernet_address, ni_ip_address = ip_address, ni_frames_out = [],
        ni_arp_ip_queue = Map.empty, ni_ip_mac_map = IP2EthernetCache_empty, ni_ms_since_last_tick = 0,
        ni_expire_time = 30 * 1000\<rparr>)"

definition NetworkInterface_try_set_cache_if_need :: "NetworkInterface \<Rightarrow> 32 word \<Rightarrow> EthernetAddress \<Rightarrow> NetworkInterface" where
  "NetworkInterface_try_set_cache_if_need s ip_address ether_address =
    (if EthernetAddress_to_string ether_address \<noteq> EthernetAddress_to_string ETHERNET_BROADCAST \<and>
        EthernetAddress_to_string ether_address \<noteq> EthernetAddress_to_string EthernetAddress_zero
     then s\<lparr>ni_ip_mac_map := IP2EthernetCache_set_cache (ni_ip_mac_map s) ip_address ether_address
       (ni_ms_since_last_tick s) (ni_expire_time s)\<rparr>
     else s)"

definition NetworkInterface_push :: "NetworkInterface \<Rightarrow> EthernetFrame \<Rightarrow> NetworkInterface" where
  "NetworkInterface_push s fr = s\<lparr>ni_frames_out := ni_frames_out s @ [fr]\<rparr>"

definition NetworkInterface_send_datagram :: "NetworkInterface \<Rightarrow> IPv4Datagram \<Rightarrow> Address \<Rightarrow> NetworkInterface res" where
  "NetworkInterface_send_datagram s dgram next_hop =
    rbind (Address_ipv4_numeric next_hop) (\<lambda>next_hop_ip.
      case IP2EthernetCache_get_cache (ni_ip_mac_map s) next_hop_ip of
        Some mac \<Rightarrow>
          rbind (IPv4Datagram_serialize dgram) (\<lambda>bl.
            Inr (NetworkInterface_push s
              \<lparr>ef_header = \<lparr>eh_dst = mac, eh_src = ni_ethernet_address s, eh_type = TYPE_IPv4\<rparr>,
               ef_payload = BufferList_of_string (BufferList_concatenate bl)\<rparr>))
      | None \<Rightarrow>
          rbind (Address_ipv4_numeric (ni_ip_address s)) (\<lambda>own_ip.
            if (case ni_arp_ip_queue s own_ip of None \<Rightarrow> False | Some (t, _) \<Rightarrow> ni_ms_since_last_tick s \<le> t)
            then Inr s
            else
              let arp_meg = ARPMessage_default\<lparr>arp_sender_ip_address := own_ip,
                    arp_sender_ethernet_address := ni_ethernet_address s,
                    arp_target_ip_address := next_hop_ip, arp_opcode := OPCODE_REQUEST\<rparr>
              in rbind (ARPMessage_serialize arp_meg) (\<lambda>str.
                Inr (NetworkInterface_push
                  (s\<lparr>ni_arp_ip_queue := (ni_arp_ip_queue s)(own_ip \<mapsto> (add64 (ni_ms_since_last_tick s) (5 * 1000), dgram))\<rparr>)
                  \<lparr>ef_header = \<lparr>eh_dst = ETHERNET_BROADCAST, eh_src = ni_ethernet_address s, eh_type = TYPE_ARP\<rparr>,
                   ef_payload = BufferList_of_string str\<rparr>))))"

text \<open>The branches of \<open>recv_frame\<close>: an IPv4 frame, a request, a reply.\<close>

definition NetworkInterface_recv_ipv4 :: "NetworkInterface \<Rightarrow> EthernetFrame \<Rightarrow> (IPv4Datagram option \<times> NetworkInterface) res" where
  "NetworkInterface_recv_ipv4 s frame =
    (if EthernetAddress_to_string (eh_dst (ef_header frame)) \<noteq> EthernetAddress_to_string (ni_ethernet_address s)
     then Inr (None, s)
     else rbind (IPv4Datagram_parse IPv4Datagram_default (Buffer_of (BufferList_concatenate (ef_payload frame)))) (\<lambda>(r, ip_datagram).
       if r \<noteq> NoError then Inl (RuntimeError ''ip datagram parse error.'')
       else Inr (Some ip_datagram, s)))"

definition NetworkInterface_recv_request :: "NetworkInterface \<Rightarrow> ARPMessage \<Rightarrow> NetworkInterface res" where
  "NetworkInterface_recv_request s get_msg =
    rbind (case IP2EthernetCache_get_cache (ni_ip_mac_map s) (arp_target_ip_address get_msg) of
        Some mac \<Rightarrow> Inr (Some mac)
      | None \<Rightarrow> rbind (Address_ipv4_numeric (ni_ip_address s)) (\<lambda>own_ip.
          Inr (if arp_target_ip_address get_msg = own_ip then Some (ni_ethernet_address s) else None))) (\<lambda>mac_cache.
    rbind (case mac_cache of
        None \<Rightarrow> Inr s
      | Some mac \<Rightarrow>
          let final_arp = ARPMessage_default\<lparr>arp_target_ip_address := arp_sender_ip_address get_msg,
                arp_target_ethernet_address := arp_sender_ethernet_address get_msg,
                arp_sender_ethernet_address := mac,
                arp_sender_ip_address := arp_target_ip_address get_msg,
                arp_opcode := OPCODE_REPLY\<rparr>
          in rbind (ARPMessage_serialize final_arp) (\<lambda>str.
            Inr (NetworkInterface_push s
              \<lparr>ef_header = \<lparr>eh_dst = arp_sender_ethernet_address get_msg, eh_src = ni_ethernet_address s, eh_type = TYPE_ARP\<rparr>,
               ef_payload = BufferList_of_string str\<rparr>))) (\<lambda>s.
      let s = NetworkInterface_try_set_cache_if_need s (arp_sender_ip_address get_msg) (arp_sender_ethernet_address get_msg);
          s = NetworkInterface_try_set_cache_if_need s (arp_target_ip_address get_msg) (arp_target_ethernet_address get_msg)
      in Inr s))"

definition NetworkInterface_recv_reply :: "NetworkInterface \<Rightarrow> ARPMessage \<Rightarrow> NetworkInterface res" where
  "NetworkInterface_recv_reply s get_msg =
    rbind (case ni_arp_ip_queue s (arp_target_ip_address get_msg) of
        None \<Rightarrow> Inr s
      | Some (t, ip_datagram) \<Rightarrow>
          rbind (IPv4Datagram_serialize ip_datagram) (\<lambda>bl.
            Inr ((NetworkInterface_push s
              \<lparr>ef_header = \<lparr>eh_dst = arp_sender_ethernet_address get_msg, eh_src = arp_target_ethernet_address get_msg,
                 eh_type = TYPE_IPv4\<rparr>,
               ef_payload = BufferList_of_string (BufferList_concatenate bl)\<rparr>)
              \<lparr>ni_arp_ip_queue := (ni_arp_ip_queue s)(arp_target_ip_address get_msg := None)\<rparr>))) (\<lambda>s.
      let s = NetworkInterface_try_set_cache_if_need s (arp_sender_ip_address get_msg) (arp_sender_ethernet_address get_msg);
          s = NetworkInterface_try_set_cache_if_need s (arp_target_ip_address get_msg) (arp_target_ethernet_address get_msg)
      in Inr s)"

definition NetworkInterface_recv_frame :: "NetworkInterface \<Rightarrow> EthernetFrame \<Rightarrow> (IPv4Datagram option \<times> NetworkInterface) res" where
  "NetworkInterface_recv_frame s frame =
    (if eh_type (ef_header frame) = TYPE_IPv4 then NetworkInterface_recv_ipv4 s frame
     else if eh_type (ef_header frame) = TYPE_ARP then
       rbind (ARPMessage_parse ARPMessage_default (Buffer_of (BufferList_concatenate (ef_payload frame)))) (\<lambda>(r, get_msg).
         if r \<noteq> NoError then Inl (RuntimeError ''ARP Message parse error.'')
         else if arp_opcode get_msg = OPCODE_REQUEST then
           rbind (NetworkInterface_recv_request s get_msg) (\<lambda>s. Inr (None, s))
         else if arp_opcode get_msg = OPCODE_REPLY then
           rbind (NetworkInterface_recv_reply s get_msg) (\<lambda>s. Inr (None, s))
         else Inr (None, s))
     else Inr (None, s))"

definition NetworkInterface_tick :: "NetworkInterface \<Rightarrow> size_t \<Rightarrow> NetworkInterface" where
  "NetworkInterface_tick s ms_since_last_tick =
    (let s = s\<lparr>ni_ms_since_last_tick := add64 (ni_ms_since_last_tick s) ms_since_last_tick\<rparr>
     in s\<lparr>ni_ip_mac_map := IP2EthernetCache_try_clean_expire_cache (ni_ip_mac_map s) (ni_ms_since_last_tick s)\<rparr>)"

lemmas [sponge_eval] = NetworkInterface_make_def NetworkInterface_try_set_cache_if_need_def
  NetworkInterface_push_def NetworkInterface_send_datagram_def NetworkInterface_recv_ipv4_def
  NetworkInterface_recv_request_def NetworkInterface_recv_reply_def NetworkInterface_recv_frame_def
  NetworkInterface_tick_def

section \<open>The interface as a timed table\<close>

definition EthernetAddress_unicast :: "EthernetAddress \<Rightarrow> bool" where
  "EthernetAddress_unicast mac \<longleftrightarrow> EthernetAddress_wf mac \<and> mac \<noteq> ETHERNET_BROADCAST \<and> mac \<noteq> EthernetAddress_zero"

lemma EthernetAddress_zero_eq: "EthernetAddress_zero = [0, 0, 0, 0, 0, 0]"
  by (simp add: EthernetAddress_zero_def numeral_eq_Suc)

definition NetworkInterface_cache_inv :: "NetworkInterface \<Rightarrow> bool" where
  "NetworkInterface_cache_inv s \<longleftrightarrow> ni_expire_time s = 30000 \<and>
    IP2EthernetCache_inv (ni_ms_since_last_tick s + 30000) (ni_ip_mac_map s)"

lemma NetworkInterface_learn_eq:
  assumes "EthernetAddress_wf mac"
  shows "NetworkInterface_try_set_cache_if_need s ip mac =
    (if EthernetAddress_unicast mac
     then s\<lparr>ni_ip_mac_map := IP2EthernetCache_set_cache (ni_ip_mac_map s) ip mac (ni_ms_since_last_tick s) (ni_expire_time s)\<rparr>
     else s)"
  using assms by (simp add: NetworkInterface_try_set_cache_if_need_def EthernetAddress_unicast_def)

lemma NetworkInterface_learn_simps [simp]:
  "ni_ethernet_address (NetworkInterface_try_set_cache_if_need s ip mac) = ni_ethernet_address s"
  "ni_ip_address (NetworkInterface_try_set_cache_if_need s ip mac) = ni_ip_address s"
  "ni_frames_out (NetworkInterface_try_set_cache_if_need s ip mac) = ni_frames_out s"
  "ni_arp_ip_queue (NetworkInterface_try_set_cache_if_need s ip mac) = ni_arp_ip_queue s"
  "ni_ms_since_last_tick (NetworkInterface_try_set_cache_if_need s ip mac) = ni_ms_since_last_tick s"
  "ni_expire_time (NetworkInterface_try_set_cache_if_need s ip mac) = ni_expire_time s"
  by (simp_all add: NetworkInterface_try_set_cache_if_need_def)

lemma NetworkInterface_learn_inv:
  assumes "NetworkInterface_cache_inv s" "EthernetAddress_wf mac" "ni_ms_since_last_tick s + 30000 < W64"
  shows "NetworkInterface_cache_inv (NetworkInterface_try_set_cache_if_need s ip mac)"
  using assms by (simp add: NetworkInterface_learn_eq NetworkInterface_cache_inv_def IP2EthernetCache_set_inv)

lemma NetworkInterface_tick_inv:
  assumes "NetworkInterface_cache_inv s" "ni_ms_since_last_tick s + d < W64"
  shows "NetworkInterface_cache_inv (NetworkInterface_tick s d)"
  using assms IP2EthernetCache_clean_inv [of "ni_ms_since_last_tick s + 30000" "ni_ip_mac_map s" "ni_ms_since_last_tick s + d + 30000"]
  by (simp add: NetworkInterface_tick_def NetworkInterface_cache_inv_def u64_simps Let_def)

interpretation arp_table: timed_table NetworkInterface_cache_inv ni_ms_since_last_tick "\<lambda>s. IP2EthernetCache_table (ni_ip_mac_map s)"
  NetworkInterface_try_set_cache_if_need NetworkInterface_tick "\<lambda>s. IP2EthernetCache_get_cache (ni_ip_mac_map s)"
  EthernetAddress_unicast 30000
proof
  fix s k v d
  show "NetworkInterface_cache_inv s \<Longrightarrow> IP2EthernetCache_get_cache (ni_ip_mac_map s) k = map_option fst (IP2EthernetCache_table (ni_ip_mac_map s) k)"
    by (auto simp: NetworkInterface_cache_inv_def intro: IP2EthernetCache_get_table)
  show "NetworkInterface_cache_inv (NetworkInterface_try_set_cache_if_need s k v)"
    if "NetworkInterface_cache_inv s" "EthernetAddress_unicast v" "ni_ms_since_last_tick s + 30000 < W64"
    using that by (simp add: NetworkInterface_learn_inv EthernetAddress_unicast_def)
  show "ni_ms_since_last_tick (NetworkInterface_try_set_cache_if_need s k v) = ni_ms_since_last_tick s"
    by simp
  show "IP2EthernetCache_table (ni_ip_mac_map (NetworkInterface_try_set_cache_if_need s k v)) =
      (IP2EthernetCache_table (ni_ip_mac_map s))(k \<mapsto> (v, ni_ms_since_last_tick s + 30000))"
    if "NetworkInterface_cache_inv s" "EthernetAddress_unicast v" "ni_ms_since_last_tick s + 30000 < W64"
    using that IP2EthernetCache_set_table [of "ni_ms_since_last_tick s + 30000" "ni_ip_mac_map s"]
    by (simp add: NetworkInterface_learn_eq EthernetAddress_unicast_def NetworkInterface_cache_inv_def)
  show "NetworkInterface_cache_inv s \<Longrightarrow> ni_ms_since_last_tick s + d < W64 \<Longrightarrow> NetworkInterface_cache_inv (NetworkInterface_tick s d)"
    by (rule NetworkInterface_tick_inv)
  show "ni_ms_since_last_tick s + d < W64 \<Longrightarrow> ni_ms_since_last_tick (NetworkInterface_tick s d) = ni_ms_since_last_tick s + d"
    by (simp add: NetworkInterface_tick_def u64_simps Let_def)
  show "IP2EthernetCache_table (ni_ip_mac_map (NetworkInterface_tick s d)) k =
      (case IP2EthernetCache_table (ni_ip_mac_map s) k of None \<Rightarrow> None
       | Some (v, t) \<Rightarrow> if t < ni_ms_since_last_tick s + d then None else Some (v, t))"
    if "NetworkInterface_cache_inv s" "ni_ms_since_last_tick s + d < W64"
    using that IP2EthernetCache_clean_table [of "ni_ms_since_last_tick s + 30000" "ni_ip_mac_map s"]
    by (simp add: NetworkInterface_tick_def NetworkInterface_cache_inv_def u64_simps Let_def)
qed

section \<open>Asking and answering\<close>

definition arp_request :: "EthernetAddress \<Rightarrow> 32 word \<Rightarrow> 32 word \<Rightarrow> ARPMessage" where
  "arp_request mac own_ip target_ip = ARPMessage_default\<lparr>arp_sender_ip_address := own_ip, arp_sender_ethernet_address := mac,
     arp_target_ip_address := target_ip, arp_opcode := OPCODE_REQUEST\<rparr>"

definition arp_reply :: "EthernetAddress \<Rightarrow> ARPMessage \<Rightarrow> ARPMessage" where
  "arp_reply mac m = ARPMessage_default\<lparr>arp_target_ip_address := arp_sender_ip_address m,
     arp_target_ethernet_address := arp_sender_ethernet_address m, arp_sender_ethernet_address := mac,
     arp_sender_ip_address := arp_target_ip_address m, arp_opcode := OPCODE_REPLY\<rparr>"

definition arp_frame :: "EthernetAddress \<Rightarrow> EthernetAddress \<Rightarrow> ARPMessage \<Rightarrow> EthernetFrame" where
  "arp_frame dst src m = \<lparr>ef_header = \<lparr>eh_dst = dst, eh_src = src, eh_type = TYPE_ARP\<rparr>, ef_payload = [Buffer_of (ARPMessage_bytes m)]\<rparr>"

lemma BufferList_of_string_eq [simp]: "BufferList_of_string str = [Buffer_of str]"
  by (simp add: BufferList_of_string_def BufferList_of_Buffer_def)

lemma BufferList_concatenate_single [simp]: "BufferList_concatenate [b] = Buffer_str b"
  by (simp add: BufferList_concatenate_eq)

lemma arp_message_simps [simp]:
  "ARPMessage_supported (arp_request mac a b)" "ARPMessage_supported (arp_reply mac m)"
  "arp_opcode (arp_request mac a b) = OPCODE_REQUEST" "arp_opcode (arp_reply mac m) = OPCODE_REPLY"
  "arp_sender_ip_address (arp_request mac a b) = a" "arp_target_ip_address (arp_request mac a b) = b"
  "arp_sender_ethernet_address (arp_request mac a b) = mac" "arp_target_ethernet_address (arp_request mac a b) = EthernetAddress_zero"
  "arp_sender_ip_address (arp_reply mac m) = arp_target_ip_address m" "arp_target_ip_address (arp_reply mac m) = arp_sender_ip_address m"
  "arp_sender_ethernet_address (arp_reply mac m) = mac" "arp_target_ethernet_address (arp_reply mac m) = arp_sender_ethernet_address m"
  by (simp_all add: arp_request_def arp_reply_def ARPMessage_supported_def ARPMessage_default_def)

lemma arp_message_wf [simp]:
  "EthernetAddress_wf mac \<Longrightarrow> ARPMessage_wf (arp_request mac a b)"
  "EthernetAddress_wf mac \<Longrightarrow> ARPMessage_wf m \<Longrightarrow> ARPMessage_wf (arp_reply mac m)"
  by (simp_all add: ARPMessage_wf_def)

lemma NetworkInterface_push_simps [simp]:
  "ni_ethernet_address (NetworkInterface_push s fr) = ni_ethernet_address s" "ni_ip_address (NetworkInterface_push s fr) = ni_ip_address s"
  "ni_frames_out (NetworkInterface_push s fr) = ni_frames_out s @ [fr]" "ni_arp_ip_queue (NetworkInterface_push s fr) = ni_arp_ip_queue s"
  "ni_ip_mac_map (NetworkInterface_push s fr) = ni_ip_mac_map s"
  "ni_ms_since_last_tick (NetworkInterface_push s fr) = ni_ms_since_last_tick s" "ni_expire_time (NetworkInterface_push s fr) = ni_expire_time s"
  by (simp_all add: NetworkInterface_push_def)

lemma NetworkInterface_learn_get:
  assumes "EthernetAddress_wf mac"
  shows "IP2EthernetCache_get_cache (ni_ip_mac_map (NetworkInterface_try_set_cache_if_need s ip mac)) k =
    (if EthernetAddress_unicast mac \<and> k = ip then Some mac else IP2EthernetCache_get_cache (ni_ip_mac_map s) k)"
  using assms by (simp add: NetworkInterface_learn_eq IP2EthernetCache_get_cache_def IP2EthernetCache_set_map)

text \<open>An address that is not known is asked for, unless a request is still pending.\<close>

lemma NetworkInterface_send_unresolved:
  assumes "ni_ip_address s = IPv4_address a pa" "IP2EthernetCache_get_cache (ni_ip_mac_map s) b = None"
  shows "NetworkInterface_send_datagram s dgram (IPv4_address b pb) =
    Inr (if (case ni_arp_ip_queue s a of None \<Rightarrow> False | Some (t, _) \<Rightarrow> ni_ms_since_last_tick s \<le> t) then s
      else NetworkInterface_push
        (s\<lparr>ni_arp_ip_queue := (ni_arp_ip_queue s)(a \<mapsto> (add64 (ni_ms_since_last_tick s) 5000, dgram))\<rparr>)
        (arp_frame ETHERNET_BROADCAST (ni_ethernet_address s) (arp_request (ni_ethernet_address s) a b)))"
  using assms arp_message_simps(1) [of "ni_ethernet_address s" a b, unfolded arp_request_def]
  by (simp add: NetworkInterface_send_datagram_def ARPMessage_serialize_eq arp_frame_def arp_request_def Let_def)

lemma NetworkInterface_send_resolved:
  assumes "IP2EthernetCache_get_cache (ni_ip_mac_map s) b = Some mac"
  shows "NetworkInterface_send_datagram s dgram (IPv4_address b pb) =
    rbind (IPv4Datagram_serialize dgram) (\<lambda>bl. Inr (NetworkInterface_push s
      \<lparr>ef_header = \<lparr>eh_dst = mac, eh_src = ni_ethernet_address s, eh_type = TYPE_IPv4\<rparr>,
       ef_payload = [Buffer_of (BufferList_concatenate bl)]\<rparr>))"
  using assms by (simp add: NetworkInterface_send_datagram_def)

lemma ARPMessage_parse_wire:
  assumes "ARPMessage_wf m" "ARPMessage_supported m"
  shows "ARPMessage_parse ARPMessage_default (Buffer_of (ARPMessage_bytes m)) = Inr (NoError, m)"
proof -
  have "Buffer_wf (Buffer_of (ARPMessage_bytes m))"
    using length_ARPMessage_bytes [OF assms(1)] W64_gt(1) by (simp del: W64_gt)
  from ARPMessage_parse_bytes [OF ARPMessage_wf_default assms this, of "[]"] show ?thesis
    by simp
qed

lemma NetworkInterface_recv_arp:
  assumes "ARPMessage_wf m" "ARPMessage_supported m"
  shows "NetworkInterface_recv_frame s (arp_frame dst src m) =
    rbind (if arp_opcode m = OPCODE_REQUEST then NetworkInterface_recv_request s m else NetworkInterface_recv_reply s m) (\<lambda>s. Inr (None, s))"
  using assms(2) ARPMessage_parse_wire [OF assms]
  by (auto simp: NetworkInterface_recv_frame_def arp_frame_def TYPE_IPv4_def TYPE_ARP_def ARPMessage_supported_def)

text \<open>The owner of an address answers, and remembers who asked.\<close>

lemma NetworkInterface_answers:
  assumes "ni_ip_address s = IPv4_address (arp_target_ip_address m) p" "ARPMessage_wf m"
    and "IP2EthernetCache_get_cache (ni_ip_mac_map s) (arp_target_ip_address m) = None"
  shows "NetworkInterface_recv_request s m =
    Inr (NetworkInterface_try_set_cache_if_need
      (NetworkInterface_try_set_cache_if_need
        (NetworkInterface_push s (arp_frame (arp_sender_ethernet_address m) (ni_ethernet_address s) (arp_reply (ni_ethernet_address s) m)))
        (arp_sender_ip_address m) (arp_sender_ethernet_address m))
      (arp_target_ip_address m) (arp_target_ethernet_address m))"
  using assms arp_message_simps(2) [of "ni_ethernet_address s" m, unfolded arp_reply_def]
  by (simp add: NetworkInterface_recv_request_def ARPMessage_serialize_eq arp_frame_def arp_reply_def Let_def)

lemma NetworkInterface_recv_ipv4_own:
  assumes "IPv4Datagram_wf dg" "IPv4Datagram_serialize dg = Inr bl" "EthernetAddress_wf (ni_ethernet_address s)"
  shows "\<exists>c payload. NetworkInterface_recv_frame s
      \<lparr>ef_header = \<lparr>eh_dst = ni_ethernet_address s, eh_src = src, eh_type = TYPE_IPv4\<rparr>, ef_payload = [Buffer_of (BufferList_concatenate bl)]\<rparr> =
        Inr (Some \<lparr>dg_header = (dg_header dg)\<lparr>ip_cksum := c\<rparr>, dg_payload = [payload]\<rparr>, s) \<and>
      Buffer_wf payload \<and> Buffer_str payload = BufferList_concatenate (dg_payload dg)"
  using IPv4Datagram_wire [OF assms(1), of IPv4Header_default IPv4Datagram_default] assms(2,3)
  by (auto simp: NetworkInterface_recv_frame_def NetworkInterface_recv_ipv4_def)

section \<open>Safety of every call\<close>

text \<open>
  The interface has an IPv4 address and keeps well-formed frames and datagrams only. A call meets its
  precondition when a datagram it sends is well-formed and its next hop an IPv4 address, and when a
  frame it receives can be parsed, if it is an ARP message or a datagram for this interface.
\<close>

definition NetworkInterface_inv :: "NetworkInterface \<Rightarrow> bool" where
  "NetworkInterface_inv s \<longleftrightarrow> (\<exists>a p. ni_ip_address s = IPv4_address a p) \<and> EthernetAddress_wf (ni_ethernet_address s) \<and>
    NetworkInterface_cache_inv s \<and> ni_ms_since_last_tick s + 30000 < W64 \<and> list_all EthernetFrame_wf (ni_frames_out s) \<and>
    (\<forall>(t, dg) \<in> ran (ni_arp_ip_queue s). IPv4Datagram_wf dg)"

datatype interface_op = NI_send IPv4Datagram Address | NI_recv EthernetFrame | NI_tick size_t | NI_pop

fun NetworkInterface_op :: "NetworkInterface \<Rightarrow> interface_op \<Rightarrow> NetworkInterface res" where
  "NetworkInterface_op s (NI_send dgram next_hop) = NetworkInterface_send_datagram s dgram next_hop"
| "NetworkInterface_op s (NI_recv frame) = rbind (NetworkInterface_recv_frame s frame) (\<lambda>(dgram, s). Inr s)"
| "NetworkInterface_op s (NI_tick ms) = Inr (NetworkInterface_tick s ms)"
| "NetworkInterface_op s NI_pop = Inr (s\<lparr>ni_frames_out := tl (ni_frames_out s)\<rparr>)"

definition EthernetFrame_readable :: "EthernetAddress \<Rightarrow> EthernetFrame \<Rightarrow> bool" where
  "EthernetFrame_readable own fr \<longleftrightarrow> EthernetFrame_wf fr \<and> length (BufferList_concatenate (ef_payload fr)) < W64 \<and>
    (let b = Buffer_of (BufferList_concatenate (ef_payload fr)) in
      (eh_type (ef_header fr) = TYPE_IPv4 \<and> eh_dst (ef_header fr) = own \<longrightarrow>
        (\<exists>dg. IPv4Datagram_parse IPv4Datagram_default b = Inr (NoError, dg))) \<and>
      (eh_type (ef_header fr) = TYPE_ARP \<longrightarrow> (\<exists>m. ARPMessage_parse ARPMessage_default b = Inr (NoError, m))))"

fun NetworkInterface_ok :: "NetworkInterface \<Rightarrow> interface_op \<Rightarrow> bool" where
  "NetworkInterface_ok s (NI_send dgram next_hop) = (IPv4Datagram_wf dgram \<and> (\<exists>a p. next_hop = IPv4_address a p))"
| "NetworkInterface_ok s (NI_recv frame) = EthernetFrame_readable (ni_ethernet_address s) frame"
| "NetworkInterface_ok s (NI_tick ms) = (ni_ms_since_last_tick s + ms + 30000 < W64)"
| "NetworkInterface_ok s NI_pop = (ni_frames_out s \<noteq> [])"

lemma IPv4Datagram_serialize_length:
  assumes "IPv4Datagram_wf dg" "IPv4Datagram_serialize dg = Inr bl"
  shows "length (BufferList_concatenate bl) < W64"
proof -
  have "length (BufferList_concatenate bl) = unat (ip_len (dg_header dg))"
    using assms by (auto simp: IPv4Datagram_wf_def IPv4Datagram_serialize_eq BufferList_concatenate_eq length_IPv4Header_bytes)
  moreover have "unat (ip_len (dg_header dg)) < 65536"
    using unsigned_less [of "ip_len (dg_header dg)"] by simp
  ultimately show ?thesis
    using W64_gt(1) by linarith
qed

lemma IPv4Datagram_serialize_ok: "IPv4Datagram_wf dg \<Longrightarrow> \<exists>bl. IPv4Datagram_serialize dg = Inr bl \<and> length (BufferList_concatenate bl) < W64"
  using IPv4Datagram_wire [of dg] IPv4Datagram_serialize_length [of dg] by blast

lemma EthernetAddress_read_length: "EthernetAddress_read a p = Inr (v, p') \<Longrightarrow> length v = length a"
  by (induction a arbitrary: p v p') (auto simp: rbind_Inr_iff split: prod.splits)

lemma ARPMessage_parse_wf:
  assumes "ARPMessage_parse m0 b = Inr (r, m)" "ARPMessage_wf m0"
  shows "ARPMessage_wf m" "r = NoError \<Longrightarrow> ARPMessage_supported m"
  using assms by (auto simp: ARPMessage_parse_def ARPMessage_wf_def EthernetAddress_wf_def ARPMessage_supported_def Let_def
    rbind_Inr_iff split: if_splits prod.splits dest!: EthernetAddress_read_length)

lemma EthernetFrame_wf_single [simp]:
  "EthernetFrame_wf \<lparr>ef_header = \<lparr>eh_dst = dst, eh_src = src, eh_type = type\<rparr>, ef_payload = [Buffer_of str]\<rparr> \<longleftrightarrow>
    EthernetAddress_wf dst \<and> EthernetAddress_wf src \<and> length str < W64"
  by (simp add: EthernetFrame_wf_def EthernetHeader_wf_def)

lemma EthernetFrame_wf_arp [simp]:
  "EthernetAddress_wf dst \<Longrightarrow> EthernetAddress_wf src \<Longrightarrow> ARPMessage_wf m \<Longrightarrow> EthernetFrame_wf (arp_frame dst src m)"
  using W64_gt(1) by (simp add: arp_frame_def length_ARPMessage_bytes del: W64_gt)

text \<open>What every operation needs to keep: a frame that is pushed, an address that is learnt.\<close>

lemma NetworkInterface_inv_push [simp]:
  "NetworkInterface_inv s \<Longrightarrow> EthernetFrame_wf fr \<Longrightarrow> NetworkInterface_inv (NetworkInterface_push s fr)"
  by (simp add: NetworkInterface_inv_def NetworkInterface_cache_inv_def)

lemma NetworkInterface_inv_learn [simp]:
  "NetworkInterface_inv s \<Longrightarrow> EthernetAddress_wf mac \<Longrightarrow> NetworkInterface_inv (NetworkInterface_try_set_cache_if_need s ip mac)"
  by (simp add: NetworkInterface_inv_def NetworkInterface_learn_inv)

lemma NetworkInterface_inv_queue:
  "NetworkInterface_inv s \<Longrightarrow> IPv4Datagram_wf dg \<Longrightarrow> NetworkInterface_inv (s\<lparr>ni_arp_ip_queue := (ni_arp_ip_queue s)(a \<mapsto> (t, dg))\<rparr>)"
  "NetworkInterface_inv s \<Longrightarrow> NetworkInterface_inv (s\<lparr>ni_arp_ip_queue := (ni_arp_ip_queue s)(a := None)\<rparr>)"
  by (auto simp: NetworkInterface_inv_def NetworkInterface_cache_inv_def ran_def)

lemma NetworkInterface_inv_cached:
  "NetworkInterface_inv s \<Longrightarrow> IP2EthernetCache_get_cache (ni_ip_mac_map s) ip = Some mac \<Longrightarrow> EthernetAddress_wf mac"
  by (auto simp: NetworkInterface_inv_def NetworkInterface_cache_inv_def IP2EthernetCache_inv_def IP2EthernetCache_get_cache_def ran_def)

lemma NetworkInterface_send_safe:
  assumes "NetworkInterface_inv s" "IPv4Datagram_wf dgram"
  shows "returns (NetworkInterface_send_datagram s dgram (IPv4_address b p)) NetworkInterface_inv"
proof (cases "IP2EthernetCache_get_cache (ni_ip_mac_map s) b")
  case None
  obtain a pa where "ni_ip_address s = IPv4_address a pa"
    using assms(1) by (auto simp: NetworkInterface_inv_def)
  moreover have "EthernetAddress_wf (ni_ethernet_address s)"
    using assms(1) by (simp add: NetworkInterface_inv_def)
  ultimately show ?thesis
    using None assms by (simp add: NetworkInterface_send_unresolved NetworkInterface_inv_queue)
next
  case (Some mac)
  obtain bl where "IPv4Datagram_serialize dgram = Inr bl" "length (BufferList_concatenate bl) < W64"
    using IPv4Datagram_serialize_ok [OF assms(2)] by blast
  moreover have "EthernetAddress_wf (ni_ethernet_address s)" "EthernetAddress_wf mac"
    using assms(1) NetworkInterface_inv_cached [OF assms(1) Some] by (simp_all add: NetworkInterface_inv_def)
  ultimately show ?thesis
    using Some assms(1) by (simp add: NetworkInterface_send_resolved)
qed

lemma NetworkInterface_request_safe:
  assumes "NetworkInterface_inv s" "ARPMessage_wf m"
  shows "returns (NetworkInterface_recv_request s m) NetworkInterface_inv"
proof -
  obtain a p where a: "ni_ip_address s = IPv4_address a p"
    using assms(1) by (auto simp: NetworkInterface_inv_def)
  let ?mac = "case IP2EthernetCache_get_cache (ni_ip_mac_map s) (arp_target_ip_address m) of Some mac \<Rightarrow> Some mac
    | None \<Rightarrow> if arp_target_ip_address m = a then Some (ni_ethernet_address s) else None"
  have wf: "EthernetAddress_wf (ni_ethernet_address s)" "EthernetAddress_wf (arp_sender_ethernet_address m)"
    "EthernetAddress_wf (arp_target_ethernet_address m)"
    using assms by (simp_all add: NetworkInterface_inv_def ARPMessage_wf_def)
  have mac: "EthernetAddress_wf mac" if "?mac = Some mac" for mac
    using that wf(1) NetworkInterface_inv_cached [OF assms(1)] by (auto split: option.splits if_splits)
  have "NetworkInterface_recv_request s m = rbind
    (case ?mac of None \<Rightarrow> Inr s | Some mac \<Rightarrow> Inr (NetworkInterface_push s
      (arp_frame (arp_sender_ethernet_address m) (ni_ethernet_address s) (arp_reply mac m)))) (\<lambda>s. Inr (NetworkInterface_try_set_cache_if_need
        (NetworkInterface_try_set_cache_if_need s (arp_sender_ip_address m) (arp_sender_ethernet_address m))
        (arp_target_ip_address m) (arp_target_ethernet_address m)))"
    using a arp_message_simps(2) [of _ m, unfolded arp_reply_def]
    by (auto simp: NetworkInterface_recv_request_def ARPMessage_serialize_eq arp_frame_def arp_reply_def Let_def split: option.split)
  then show ?thesis
    using assms wf mac by (cases ?mac) simp_all
qed

lemma NetworkInterface_reply_safe:
  assumes "NetworkInterface_inv s" "ARPMessage_wf m"
  shows "returns (NetworkInterface_recv_reply s m) NetworkInterface_inv"
proof -
  have wf: "EthernetAddress_wf (arp_sender_ethernet_address m)" "EthernetAddress_wf (arp_target_ethernet_address m)"
    using assms(2) by (simp_all add: ARPMessage_wf_def)
  show ?thesis
  proof (cases "ni_arp_ip_queue s (arp_target_ip_address m)")
    case None
    then show ?thesis
      using assms(1) wf by (simp add: NetworkInterface_recv_reply_def Let_def)
  next
    case (Some e)
    then obtain t dg where e: "e = (t, dg)" "IPv4Datagram_wf dg"
      using assms(1) by (cases e) (force simp: NetworkInterface_inv_def ran_def)
    obtain bl where "IPv4Datagram_serialize dg = Inr bl" "length (BufferList_concatenate bl) < W64"
      using IPv4Datagram_serialize_ok [OF e(2)] by blast
    then show ?thesis
      using Some e(1) assms(1) wf NetworkInterface_inv_queue(2) [of "NetworkInterface_push s _"]
      by (simp add: NetworkInterface_recv_reply_def Let_def)
  qed
qed

lemma NetworkInterface_recv_safe:
  assumes "NetworkInterface_inv s" "EthernetFrame_readable (ni_ethernet_address s) fr"
  shows "returns (NetworkInterface_recv_frame s fr) (\<lambda>(dgram, s'). NetworkInterface_inv s')"
proof -
  have "EthernetAddress_wf (eh_dst (ef_header fr))" "EthernetAddress_wf (ni_ethernet_address s)"
    using assms by (simp_all add: NetworkInterface_inv_def EthernetFrame_readable_def EthernetFrame_wf_def EthernetHeader_wf_def)
  then have ipv4: "returns (NetworkInterface_recv_ipv4 s fr) (\<lambda>(dgram, s'). NetworkInterface_inv s')" if "eh_type (ef_header fr) = TYPE_IPv4"
    using that assms by (auto simp: NetworkInterface_recv_ipv4_def EthernetFrame_readable_def Let_def)
  have arp: "returns (NetworkInterface_recv_frame s fr) (\<lambda>(dgram, s'). NetworkInterface_inv s')" if type: "eh_type (ef_header fr) = TYPE_ARP"
  proof -
    obtain m where m: "ARPMessage_parse ARPMessage_default (Buffer_of (BufferList_concatenate (ef_payload fr))) = Inr (NoError, m)"
      using assms(2) type by (auto simp: EthernetFrame_readable_def Let_def)
    note wf = ARPMessage_parse_wf(1) [OF m ARPMessage_wf_default]
    show ?thesis
      using type m NetworkInterface_request_safe [OF assms(1) wf] NetworkInterface_reply_safe [OF assms(1) wf] assms(1)
      by (simp add: NetworkInterface_recv_frame_def TYPE_ARP_def TYPE_IPv4_def)
  qed
  show ?thesis
    using ipv4 arp assms(1) by (auto simp: NetworkInterface_recv_frame_def)
qed

interpretation ni_safe: safe_component NetworkInterface_op NetworkInterface_ok NetworkInterface_inv
proof
  fix s c
  assume inv: "NetworkInterface_inv s" and ok: "NetworkInterface_ok s c"
  show "\<exists>s'. NetworkInterface_op s c = Inr s' \<and> NetworkInterface_inv s'"
  proof (cases c)
    case (NI_send dgram next_hop)
    then show ?thesis
      using NetworkInterface_send_safe [OF inv] ok by (auto simp: returns_def)
  next
    case (NI_recv fr)
    then show ?thesis
      using NetworkInterface_recv_safe [OF inv, of fr] ok by (auto simp: returns_def)
  next
    case (NI_tick ms)
    then have t: "ni_ms_since_last_tick s + ms < W64" "ni_ms_since_last_tick s + ms + 30000 < W64"
      using ok by simp_all
    then show ?thesis
      using NI_tick inv NetworkInterface_tick_inv [OF _ t(1)] arp_table.pass_clock [OF t(1)]
      by (simp add: NetworkInterface_inv_def) (simp add: NetworkInterface_tick_def Let_def)
  next
    case NI_pop
    then show ?thesis
      using inv by (cases "ni_frames_out s") (auto simp: NetworkInterface_inv_def NetworkInterface_cache_inv_def)
  qed
qed

section \<open>Properties\<close>

text \<open>C27: the cache is the history. After any sequence of learnt addresses and passed time, an interface
  knows an address exactly when it was learnt at most thirty seconds ago, and then it knows the one
  that was learnt last.\<close>

theorem NetworkInterface_cache_history:
  assumes "NetworkInterface_make rs eth ip = Inr s" "elapsed es + 30000 < W64"
    and "\<forall>k v. Learn k v \<in> set es \<longrightarrow> EthernetAddress_unicast v"
  shows "IP2EthernetCache_get_cache (ni_ip_mac_map (table_run NetworkInterface_try_set_cache_if_need NetworkInterface_tick s es)) k =
    (case learnt es k of None \<Rightarrow> None | Some (mac, age) \<Rightarrow> if age \<le> 30000 then Some mac else None)"
proof -
  have "NetworkInterface_cache_inv s" "IP2EthernetCache_table (ni_ip_mac_map s) = Map.empty" "ni_ms_since_last_tick s = 0"
    using assms(1) by (auto simp: NetworkInterface_make_def rbind_Inr_iff NetworkInterface_cache_inv_def IP2EthernetCache_inv_def
      IP2EthernetCache_table_def IP2EthernetCache_empty_def fun_eq_iff)
  then show ?thesis
    using assms(2,3) by (intro arp_table.get_history) simp_all
qed

theorem NetworkInterface_cache_history_witness:
  "\<exists>s. NetworkInterface_make numeric_resolver [2, 0, 0, 0, 0, 1] (IPv4_address 1 0) = Inr s \<and>
    IP2EthernetCache_get_cache (ni_ip_mac_map (table_run NetworkInterface_try_set_cache_if_need NetworkInterface_tick s
      [Pass 20000, Learn 7 [2, 0, 0, 0, 0, 7], Pass 20000, Learn 8 [2, 0, 0, 0, 0, 8]])) 8 = None"
proof -
  let ?es = "[Pass 20000, Learn 7 [2, 0, 0, 0, 0, 7], Pass 20000, Learn 8 [2, 0, 0, 0, 0, 8]] :: (32 word, EthernetAddress) table_event list"
  obtain s where s: "NetworkInterface_make numeric_resolver [2, 0, 0, 0, 0, 1] (IPv4_address 1 0) = Inr s"
    by (simp add: NetworkInterface_make_def Address_ip_eq)
  moreover have "elapsed ?es + 30000 < W64" "\<forall>k v. Learn k v \<in> set ?es \<longrightarrow> EthernetAddress_unicast v"
    by (simp_all add: W64_def EthernetAddress_unicast_def EthernetAddress_wf_def ETHERNET_BROADCAST_def EthernetAddress_zero_eq)
  ultimately show ?thesis
    using NetworkInterface_cache_history [OF s, of ?es 8] by simp
qed



text \<open>C29: two interfaces find each other. An interface that does not know its next hop broadcasts a
  request; the interface that owns the address answers; the answer makes the first one send the
  datagram it held back, in a frame for the second, which hands it up unchanged but for the checksum
  that was filled in. Both have then learnt the other's address.\<close>

theorem NetworkInterface_resolves:
  assumes A: "ni_ip_address A = IPv4_address a pa" "EthernetAddress_unicast (ni_ethernet_address A)" "ni_arp_ip_queue A a = None"
      "IP2EthernetCache_get_cache (ni_ip_mac_map A) b = None"
    and B: "ni_ip_address B = IPv4_address b pb" "EthernetAddress_unicast (ni_ethernet_address B)"
      "IP2EthernetCache_get_cache (ni_ip_mac_map B) b = None"
    and dgram: "IPv4Datagram_wf dgram" and "a \<noteq> b"
  shows "\<exists>A1 B1 A2 request reply data c payload.
    NetworkInterface_send_datagram A dgram (IPv4_address b p) = Inr A1 \<and> ni_frames_out A1 = ni_frames_out A @ [request] \<and>
    NetworkInterface_recv_frame B request = Inr (None, B1) \<and> ni_frames_out B1 = ni_frames_out B @ [reply] \<and>
    NetworkInterface_recv_frame A1 reply = Inr (None, A2) \<and> ni_frames_out A2 = ni_frames_out A1 @ [data] \<and>
    NetworkInterface_recv_frame B1 data =
      Inr (Some \<lparr>dg_header = (dg_header dgram)\<lparr>ip_cksum := c\<rparr>, dg_payload = [payload]\<rparr>, B1) \<and>
    Buffer_str payload = BufferList_concatenate (dg_payload dgram) \<and>
    IP2EthernetCache_get_cache (ni_ip_mac_map A2) b = Some (ni_ethernet_address B) \<and>
    IP2EthernetCache_get_cache (ni_ip_mac_map B1) a = Some (ni_ethernet_address A)"
proof -
  let ?ma = "ni_ethernet_address A" and ?mb = "ni_ethernet_address B"
  have wf: "EthernetAddress_wf ?ma" "EthernetAddress_wf ?mb"
    using A(2) B(2) by (simp_all add: EthernetAddress_unicast_def)
  let ?q = "arp_request ?ma a b"
  let ?r = "arp_reply ?mb ?q"
  obtain A1 where A1: "NetworkInterface_send_datagram A dgram (IPv4_address b p) = Inr A1"
    "ni_frames_out A1 = ni_frames_out A @ [arp_frame ETHERNET_BROADCAST ?ma ?q]" "ni_ethernet_address A1 = ?ma"
    "ni_arp_ip_queue A1 a = Some (add64 (ni_ms_since_last_tick A) 5000, dgram)" "ni_ip_mac_map A1 = ni_ip_mac_map A"
    using A by (simp add: NetworkInterface_send_unresolved)
  obtain B1 where B1: "NetworkInterface_recv_frame B (arp_frame ETHERNET_BROADCAST ?ma ?q) = Inr (None, B1)"
    "ni_frames_out B1 = ni_frames_out B @ [arp_frame ?ma ?mb ?r]" "ni_ethernet_address B1 = ?mb"
    "IP2EthernetCache_get_cache (ni_ip_mac_map B1) a = Some ?ma"
    using B A(2) wf by (simp add: NetworkInterface_recv_arp NetworkInterface_answers NetworkInterface_learn_get EthernetAddress_unicast_def)
  obtain bl where bl: "IPv4Datagram_serialize dgram = Inr bl"
    using IPv4Datagram_wire [OF dgram] by blast
  let ?data = "\<lparr>ef_header = \<lparr>eh_dst = ?mb, eh_src = ?ma, eh_type = TYPE_IPv4\<rparr>, ef_payload = [Buffer_of (BufferList_concatenate bl)]\<rparr>"
  obtain A2 where A2: "NetworkInterface_recv_frame A1 (arp_frame ?ma ?mb ?r) = Inr (None, A2)"
    "ni_frames_out A2 = ni_frames_out A1 @ [?data]" "IP2EthernetCache_get_cache (ni_ip_mac_map A2) b = Some ?mb"
    using A1(4) B(2) wf bl \<open>a \<noteq> b\<close>
    by (simp add: NetworkInterface_recv_arp NetworkInterface_recv_reply_def NetworkInterface_learn_get)
  obtain c payload where "NetworkInterface_recv_frame B1 ?data =
      Inr (Some \<lparr>dg_header = (dg_header dgram)\<lparr>ip_cksum := c\<rparr>, dg_payload = [payload]\<rparr>, B1)"
    "Buffer_str payload = BufferList_concatenate (dg_payload dgram)"
    using NetworkInterface_recv_ipv4_own [OF dgram bl, of B1 ?ma] wf(2) by (auto simp: B1(3))
  then show ?thesis
    using A1(1,2) B1(1,2,4) A2 by blast
qed

theorem NetworkInterface_resolves_witness:
  "\<exists>A B A1 B1 A2 request reply data c payload.
    NetworkInterface_make numeric_resolver [2, 0, 0, 0, 0, 1] (IPv4_address 0x0a000001 0) = Inr A \<and>
    NetworkInterface_make numeric_resolver [2, 0, 0, 0, 0, 2] (IPv4_address 0x0a000002 0) = Inr B \<and>
    NetworkInterface_send_datagram A \<lparr>dg_header = IPv4Header_default\<lparr>ip_len := 22\<rparr>, dg_payload = [Buffer_of [1, 2]]\<rparr> (IPv4_address 0x0a000002 0) = Inr A1 \<and>
    ni_frames_out A1 = ni_frames_out A @ [request] \<and>
    NetworkInterface_recv_frame B request = Inr (None, B1) \<and> ni_frames_out B1 = ni_frames_out B @ [reply] \<and>
    NetworkInterface_recv_frame A1 reply = Inr (None, A2) \<and> ni_frames_out A2 = ni_frames_out A1 @ [data] \<and>
    NetworkInterface_recv_frame B1 data = Inr (Some \<lparr>dg_header = IPv4Header_default\<lparr>ip_len := 22, ip_cksum := c\<rparr>, dg_payload = [payload]\<rparr>, B1) \<and>
    Buffer_str payload = [1, 2]"
proof -
  let ?dg = "\<lparr>dg_header = IPv4Header_default\<lparr>ip_len := 22\<rparr>, dg_payload = [Buffer_of [1, 2]]\<rparr>"
  obtain A B where AB: "NetworkInterface_make numeric_resolver [2, 0, 0, 0, 0, 1] (IPv4_address 0x0a000001 0) = Inr A"
    "NetworkInterface_make numeric_resolver [2, 0, 0, 0, 0, 2] (IPv4_address 0x0a000002 0) = Inr B"
    by (simp add: NetworkInterface_make_def Address_ip_eq)
  have "IPv4Datagram_wf ?dg"
    by (simp add: IPv4Datagram_wf_def IPv4Header_valid_def IPv4Header_default_def IPv4Header_LENGTH_def W64_def)
  moreover have "ni_ip_address A = IPv4_address 0x0a000001 0" "EthernetAddress_unicast (ni_ethernet_address A)"
    "ni_arp_ip_queue A 0x0a000001 = None" "IP2EthernetCache_get_cache (ni_ip_mac_map A) 0x0a000002 = None"
    "ni_ip_address B = IPv4_address 0x0a000002 0" "EthernetAddress_unicast (ni_ethernet_address B)"
    "IP2EthernetCache_get_cache (ni_ip_mac_map B) 0x0a000002 = None" "(0x0a000001 :: 32 word) \<noteq> 0x0a000002"
    using AB by (auto simp: NetworkInterface_make_def Address_ip_eq EthernetAddress_unicast_def EthernetAddress_wf_def
      ETHERNET_BROADCAST_def EthernetAddress_zero_eq IP2EthernetCache_empty_def IP2EthernetCache_get_cache_def)
  ultimately show ?thesis
    using NetworkInterface_resolves [of A "0x0a000001" 0 "0x0a000002" B 0 ?dg 0] AB by auto
qed

text \<open>One datagram waits at a time. Datagrams that wait for an address are kept under the interface's
  own address, so there is one place for all next hops: while a request is pending, any further
  datagram to an unknown next hop is dropped silently and nothing is asked for; once five seconds have
  passed, the next one takes the place of the first, which is lost.\<close>

lemma NetworkInterface_one_waits:
  assumes "ni_ip_address s = IPv4_address a pa" "ni_arp_ip_queue s a = None" "NetworkInterface_cache_inv s"
    and "IP2EthernetCache_get_cache (ni_ip_mac_map s) b = None" "IP2EthernetCache_get_cache (ni_ip_mac_map s) b' = None"
    and "ni_ms_since_last_tick s + d + 5000 < W64"
  shows "\<exists>s1. NetworkInterface_send_datagram s dgram (IPv4_address b p) = Inr s1 \<and>
    (let s2 = NetworkInterface_tick s1 d in
      if d \<le> 5000 then NetworkInterface_send_datagram s2 dgram' (IPv4_address b' p') = Inr s2
      else \<exists>s3 t. NetworkInterface_send_datagram s2 dgram' (IPv4_address b' p') = Inr s3 \<and>
        ni_arp_ip_queue s3 = (ni_arp_ip_queue s)(a \<mapsto> (t, dgram')))"
proof -
  let ?now = "ni_ms_since_last_tick s"
  let ?s1 = "NetworkInterface_push (s\<lparr>ni_arp_ip_queue := (ni_arp_ip_queue s)(a \<mapsto> (?now + 5000, dgram))\<rparr>)
    (arp_frame ETHERNET_BROADCAST (ni_ethernet_address s) (arp_request (ni_ethernet_address s) a b))"
  let ?s2 = "NetworkInterface_tick ?s1 d"
  have s1: "NetworkInterface_send_datagram s dgram (IPv4_address b p) = Inr ?s1"
    using assms(1,2,4,6) by (simp add: NetworkInterface_send_unresolved u64_simps)
  have "NetworkInterface_cache_inv ?s1"
    using assms(3) by (simp add: NetworkInterface_cache_inv_def)
  then have "IP2EthernetCache_table (ni_ip_mac_map ?s2) b' = None" "NetworkInterface_cache_inv ?s2"
    using arp_table.pass_table [of ?s1 d b'] arp_table.get_table [of s b'] arp_table.pass_inv [of ?s1 d] assms(3,5,6) by simp_all
  then have "IP2EthernetCache_get_cache (ni_ip_mac_map ?s2) b' = None"
    using arp_table.get_table [of ?s2 b'] by simp
  moreover have "ni_ip_address ?s2 = IPv4_address a pa" "ni_ms_since_last_tick ?s2 = ?now + d"
    "ni_arp_ip_queue ?s2 = (ni_arp_ip_queue s)(a \<mapsto> (?now + 5000, dgram))"
    using assms(1,6) by (simp_all add: NetworkInterface_tick_def u64_simps Let_def)
  ultimately show ?thesis
    using s1 by (auto simp: NetworkInterface_send_unresolved Let_def)
qed

lemma NetworkInterface_one_waits_witness:
  "\<exists>s s1. NetworkInterface_make numeric_resolver [2, 0, 0, 0, 0, 1] (IPv4_address 1 0) = Inr s \<and>
    NetworkInterface_send_datagram s IPv4Datagram_default (IPv4_address 2 0) = Inr s1 \<and>
    NetworkInterface_send_datagram (NetworkInterface_tick s1 100) IPv4Datagram_default (IPv4_address 3 0) = Inr (NetworkInterface_tick s1 100)"
proof -
  obtain s where s: "NetworkInterface_make numeric_resolver [2, 0, 0, 0, 0, 1] (IPv4_address 1 0) = Inr s"
    by (simp add: NetworkInterface_make_def Address_ip_eq)
  then have "ni_ip_address s = IPv4_address 1 0" "ni_arp_ip_queue s 1 = None" "NetworkInterface_cache_inv s"
    "IP2EthernetCache_get_cache (ni_ip_mac_map s) 2 = None" "IP2EthernetCache_get_cache (ni_ip_mac_map s) 3 = None"
    "ni_ms_since_last_tick s + 100 + 5000 < W64"
    by (auto simp: NetworkInterface_make_def Address_ip_eq NetworkInterface_cache_inv_def IP2EthernetCache_inv_def
      IP2EthernetCache_get_cache_def IP2EthernetCache_empty_def W64_def)
  from NetworkInterface_one_waits [OF this, of IPv4Datagram_default 0 IPv4Datagram_default 0] show ?thesis
    using s by (auto simp: Let_def)
qed

text \<open>C30: a waiting datagram goes to whoever answers first. The interface does not look at the address a
  reply speaks for: any reply addressed to it, from the host it asked about or from another, releases
  the datagram, in a frame for the sender of that reply.\<close>

theorem NetworkInterface_misdelivers:
  assumes "ni_arp_ip_queue s (arp_target_ip_address m) = Some (t, dgram)" "IPv4Datagram_wf dgram"
    and "ARPMessage_wf m" "ARPMessage_supported m" "arp_opcode m = OPCODE_REPLY"
  shows "\<exists>s' bl. IPv4Datagram_serialize dgram = Inr bl \<and> NetworkInterface_recv_frame s (arp_frame dst src m) = Inr (None, s') \<and>
    ni_frames_out s' = ni_frames_out s @
      [\<lparr>ef_header = \<lparr>eh_dst = arp_sender_ethernet_address m, eh_src = arp_target_ethernet_address m, eh_type = TYPE_IPv4\<rparr>,
        ef_payload = [Buffer_of (BufferList_concatenate bl)]\<rparr>] \<and>
    ni_arp_ip_queue s' (arp_target_ip_address m) = None"
proof -
  obtain bl where "IPv4Datagram_serialize dgram = Inr bl"
    using IPv4Datagram_wire [OF assms(2)] by blast
  then show ?thesis
    using assms(1,5) by (simp add: NetworkInterface_recv_arp [OF assms(3,4)] NetworkInterface_recv_reply_def)
qed

theorem NetworkInterface_misdelivers_witness:
  "\<exists>s s1 s2 bl. NetworkInterface_make numeric_resolver [2, 0, 0, 0, 0, 1] (IPv4_address 1 0) = Inr s \<and>
    NetworkInterface_send_datagram s \<lparr>dg_header = IPv4Header_default\<lparr>ip_len := 22\<rparr>, dg_payload = [Buffer_of [1, 2]]\<rparr> (IPv4_address 2 0) = Inr s1 \<and>
    NetworkInterface_recv_frame s1 (arp_frame [2, 0, 0, 0, 0, 1] [2, 0, 0, 0, 0, 9]
      (arp_reply [2, 0, 0, 0, 0, 9] (arp_request [2, 0, 0, 0, 0, 1] 1 9))) = Inr (None, s2) \<and>
    ni_frames_out s2 = ni_frames_out s1 @
      [\<lparr>ef_header = \<lparr>eh_dst = [2, 0, 0, 0, 0, 9], eh_src = [2, 0, 0, 0, 0, 1], eh_type = TYPE_IPv4\<rparr>,
        ef_payload = [Buffer_of (BufferList_concatenate bl)]\<rparr>]"
proof -
  let ?dg = "\<lparr>dg_header = IPv4Header_default\<lparr>ip_len := 22\<rparr>, dg_payload = [Buffer_of [1, 2]]\<rparr>"
  let ?m = "arp_reply [2, 0, 0, 0, 0, 9] (arp_request [2, 0, 0, 0, 0, 1] 1 9)"
  obtain s where s: "NetworkInterface_make numeric_resolver [2, 0, 0, 0, 0, 1] (IPv4_address 1 0) = Inr s"
    by (simp add: NetworkInterface_make_def Address_ip_eq)
  then obtain s1 t where s1: "NetworkInterface_send_datagram s ?dg (IPv4_address 2 0) = Inr s1"
    "ni_arp_ip_queue s1 (arp_target_ip_address ?m) = Some (t, ?dg)"
    by (auto simp: NetworkInterface_make_def Address_ip_eq NetworkInterface_send_unresolved IP2EthernetCache_get_cache_def
      IP2EthernetCache_empty_def)
  have "IPv4Datagram_wf ?dg" "ARPMessage_wf ?m" "ARPMessage_supported ?m" "arp_opcode ?m = OPCODE_REPLY"
    by (simp_all add: IPv4Datagram_wf_def IPv4Header_valid_def IPv4Header_default_def IPv4Header_LENGTH_def
      EthernetAddress_wf_def ARPMessage_wf_def W64_def del: arp_message_wf)
  from NetworkInterface_misdelivers [OF s1(2) this, of "[2, 0, 0, 0, 0, 1]" "[2, 0, 0, 0, 0, 9]"] show ?thesis
    using s s1(1) by auto
qed

end
