(* ===== verification/Router.thy ===== *)
theory Router
  imports Network_Interface
begin

text \<open>
  The router, \<open>libsponge/router.hh\<close> and \<open>router.cc\<close>: interfaces that keep the datagrams
  they receive, the routing table and the loop that forwards every received datagram. The table is
  searched for the longest matching prefix; routing ends with every queue empty.
\<close>

section \<open>AsyncNetworkInterface\<close>

record AsyncNetworkInterface =
  ani_interface :: NetworkInterface
  ani_datagrams_out :: "IPv4Datagram list"

definition AsyncNetworkInterface_of :: "NetworkInterface \<Rightarrow> AsyncNetworkInterface" where
  "AsyncNetworkInterface_of interface = \<lparr>ani_interface = interface, ani_datagrams_out = []\<rparr>"

definition AsyncNetworkInterface_recv_frame :: "AsyncNetworkInterface \<Rightarrow> EthernetFrame \<Rightarrow> AsyncNetworkInterface res" where
  "AsyncNetworkInterface_recv_frame s frame =
    rbind (NetworkInterface_recv_frame (ani_interface s) frame) (\<lambda>(optional_dgram, interface).
      case optional_dgram of
        None \<Rightarrow> Inr (s\<lparr>ani_interface := interface\<rparr>)
      | Some dgram \<Rightarrow> Inr \<lparr>ani_interface = interface, ani_datagrams_out = ani_datagrams_out s @ [dgram]\<rparr>)"

definition AsyncNetworkInterface_send_datagram :: "AsyncNetworkInterface \<Rightarrow> IPv4Datagram \<Rightarrow> Address \<Rightarrow> AsyncNetworkInterface res" where
  "AsyncNetworkInterface_send_datagram s dgram next_hop =
    rbind (NetworkInterface_send_datagram (ani_interface s) dgram next_hop) (\<lambda>interface. Inr (s\<lparr>ani_interface := interface\<rparr>))"

section \<open>Router\<close>

record RouterInfo =
  ri_router_prefix :: "32 word"
  ri_prefix_length :: "8 word"
  ri_next_hop :: "Address option"
  ri_interface_num :: size_t

record Router =
  rt_interfaces :: "AsyncNetworkInterface list"
  rt_router_list :: "RouterInfo list"

definition Router_empty :: Router where
  "Router_empty = \<lparr>rt_interfaces = [], rt_router_list = []\<rparr>"

definition Router_add_interface :: "Router \<Rightarrow> AsyncNetworkInterface \<Rightarrow> size_t \<times> Router" where
  "Router_add_interface r interface =
    (let r = r\<lparr>rt_interfaces := rt_interfaces r @ [interface]\<rparr> in (length (rt_interfaces r) - 1, r))"

definition Router_interface :: "Router \<Rightarrow> size_t \<Rightarrow> AsyncNetworkInterface res" where
  "Router_interface r N = (if N < length (rt_interfaces r) then Inr (rt_interfaces r ! N) else Inl OutOfRange)"

text \<open>The route is printed before it is added, for which the addresses are resolved.\<close>

definition Router_add_route ::
  "resolver \<Rightarrow> Router \<Rightarrow> 32 word \<Rightarrow> 8 word \<Rightarrow> Address option \<Rightarrow> size_t \<Rightarrow> Router res" where
  "Router_add_route rs r route_prefix prefix_length next_hop interface_num =
    rbind (Address_from_ipv4_numeric route_prefix) (\<lambda>a.
    rbind (Address_ip rs a) (\<lambda>_.
    rbind (case next_hop of None \<Rightarrow> Inr ''(direct)'' | Some hop \<Rightarrow> Address_ip rs hop) (\<lambda>_.
      Inr (r\<lparr>rt_router_list := rt_router_list r @
        [\<lparr>ri_router_prefix = route_prefix, ri_prefix_length = prefix_length, ri_next_hop = next_hop,
          ri_interface_num = interface_num\<rparr>]\<rparr>))))"

text \<open>The shift is in 64 bits; a prefix longer than the address makes its amount negative.\<close>

fun Router_lookup :: "32 word \<Rightarrow> RouterInfo list \<Rightarrow> size_t \<Rightarrow> RouterInfo option \<Rightarrow> RouterInfo option res" where
  "Router_lookup dst [] max_prefix route_info = Inr route_info"
| "Router_lookup dst (it # its) max_prefix route_info =
    (if 32 < unat (ri_prefix_length it) then Inl BadShift
     else
       let shift = 32 - unat (ri_prefix_length it) in
       if drop_bit shift (ucast dst :: 64 word) = drop_bit shift (ucast (ri_router_prefix it)) \<and>
          max_prefix \<le> unat (ri_prefix_length it)
       then Router_lookup dst its (unat (ri_prefix_length it)) (Some it)
       else Router_lookup dst its max_prefix route_info)"

definition Router_route_one_datagram :: "Router \<Rightarrow> IPv4Datagram \<Rightarrow> Router res" where
  "Router_route_one_datagram r dgram =
    (if ip_ttl (dg_header dgram) \<le> 1 then Inr r
     else
       let dst = ip_dst (dg_header dgram) in
       rbind (Router_lookup dst (rt_router_list r) 0 None) (\<lambda>route_info.
         case route_info of
           None \<Rightarrow> Inr r
         | Some info \<Rightarrow>
             rbind (Address_from_ipv4_numeric dst) (\<lambda>address.
             rbind (Router_interface r (ri_interface_num info)) (\<lambda>net_interface.
               let dgram = dgram\<lparr>dg_header := (dg_header dgram)\<lparr>ip_ttl := ip_ttl (dg_header dgram) - 1\<rparr>\<rparr>;
                   address = (case ri_next_hop info of None \<Rightarrow> address | Some hop \<Rightarrow> hop)
               in rbind (AsyncNetworkInterface_send_datagram net_interface dgram address) (\<lambda>net_interface.
                 Inr (r\<lparr>rt_interfaces := (rt_interfaces r)[ri_interface_num info := net_interface]\<rparr>))))))"

definition Router_queue :: "Router \<Rightarrow> size_t \<Rightarrow> IPv4Datagram list" where
  "Router_queue r i = (if i < length (rt_interfaces r) then ani_datagrams_out (rt_interfaces r ! i) else [])"

definition Router_pop :: "Router \<Rightarrow> size_t \<Rightarrow> Router" where
  "Router_pop r i =
    r\<lparr>rt_interfaces := (rt_interfaces r)[i := (rt_interfaces r ! i)\<lparr>ani_datagrams_out := tl (ani_datagrams_out (rt_interfaces r ! i))\<rparr>]\<rparr>"

text \<open>Forwarding a datagram does not touch the queues of received ones.\<close>

lemma AsyncNetworkInterface_send_queue:
  "AsyncNetworkInterface_send_datagram s dgram hop = Inr s' \<Longrightarrow> ani_datagrams_out s' = ani_datagrams_out s"
  by (auto simp: AsyncNetworkInterface_send_datagram_def rbind_Inr_iff)

definition Router_forwarded :: "IPv4Datagram \<Rightarrow> IPv4Datagram" where
  "Router_forwarded dgram = dgram\<lparr>dg_header := (dg_header dgram)\<lparr>ip_ttl := ip_ttl (dg_header dgram) - 1\<rparr>\<rparr>"

definition Router_hop :: "32 word \<Rightarrow> RouterInfo \<Rightarrow> Address" where
  "Router_hop dst info = (case ri_next_hop info of None \<Rightarrow> IPv4_address dst 0 | Some hop \<Rightarrow> hop)"

lemma Router_route_one_eq:
  "Router_route_one_datagram r dgram =
    (if ip_ttl (dg_header dgram) \<le> 1 then Inr r
     else rbind (Router_lookup (ip_dst (dg_header dgram)) (rt_router_list r) 0 None) (\<lambda>route_info.
       case route_info of None \<Rightarrow> Inr r
       | Some info \<Rightarrow> rbind (Router_interface r (ri_interface_num info)) (\<lambda>net_interface.
           rbind (AsyncNetworkInterface_send_datagram net_interface (Router_forwarded dgram) (Router_hop (ip_dst (dg_header dgram)) info)) (\<lambda>net_interface.
             Inr (r\<lparr>rt_interfaces := (rt_interfaces r)[ri_interface_num info := net_interface]\<rparr>)))))"
  by (simp add: Router_route_one_datagram_def Router_forwarded_def Router_hop_def Let_def cong: option.case_cong)

lemma Router_route_one_cases:
  assumes "Router_route_one_datagram r dgram = Inr r'"
  obtains "r' = r"
  | info s where "ri_interface_num info < length (rt_interfaces r)"
      "AsyncNetworkInterface_send_datagram (rt_interfaces r ! ri_interface_num info) (Router_forwarded dgram) (Router_hop (ip_dst (dg_header dgram)) info) = Inr s"
      "r' = r\<lparr>rt_interfaces := (rt_interfaces r)[ri_interface_num info := s]\<rparr>"
proof (cases "ip_ttl (dg_header dgram) \<le> 1")
  case True
  then show ?thesis
    using assms that(1) by (simp add: Router_route_one_eq)
next
  case False
  then obtain route_info where lookup: "Router_lookup (ip_dst (dg_header dgram)) (rt_router_list r) 0 None = Inr route_info"
    using assms by (auto simp: Router_route_one_eq rbind_Inr_iff)
  show ?thesis
  proof (cases route_info)
    case None
    then show ?thesis
      using assms that(1) False lookup by (simp add: Router_route_one_eq)
  next
    case (Some info)
    then show ?thesis
      using assms False lookup that(2) [of info]
      by (auto simp: Router_route_one_eq rbind_Inr_iff Router_interface_def split: if_splits)
  qed
qed

lemma Router_route_one_queue:
  assumes "Router_route_one_datagram r dgram = Inr r'"
  shows "Router_queue r' i = Router_queue r i" "length (rt_interfaces r') = length (rt_interfaces r)"
    "rt_router_list r' = rt_router_list r"
  using assms by (cases rule: Router_route_one_cases;
    auto simp: Router_queue_def nth_list_update dest: AsyncNetworkInterface_send_queue)+

lemma Router_pop_queue:
  "Router_queue (Router_pop r i) j = (if i = j then tl (Router_queue r i) else Router_queue r j)"
  by (auto simp: Router_pop_def Router_queue_def nth_list_update)

declare rbind_cong [fundef_cong]

text \<open>The inner loop of \<open>route\<close>: it ends because each round takes a datagram off the queue.\<close>

function Router_drain :: "size_t \<Rightarrow> Router \<Rightarrow> Router res" where
  "Router_drain i r =
    (case Router_queue r i of
       [] \<Rightarrow> Inr r
     | dgram # _ \<Rightarrow> rbind (Router_route_one_datagram r dgram) (\<lambda>r. Router_drain i (Router_pop r i)))"
  by pat_completeness auto
termination
  by (relation "measure (\<lambda>(i, r). length (Router_queue r i))")
    (auto simp: Router_pop_queue Router_route_one_queue)

declare Router_drain.simps [simp del]

fun Router_route_loop :: "size_t list \<Rightarrow> Router \<Rightarrow> Router res" where
  "Router_route_loop [] r = Inr r"
| "Router_route_loop (i # is) r = rbind (Router_drain i r) (Router_route_loop is)"

definition Router_route :: "Router \<Rightarrow> Router res" where
  "Router_route r = Router_route_loop [0..<length (rt_interfaces r)] r"

lemmas [sponge_eval] = AsyncNetworkInterface_of_def AsyncNetworkInterface_recv_frame_def
  AsyncNetworkInterface_send_datagram_def Router_empty_def Router_add_interface_def Router_interface_def
  Router_add_route_def Router_route_one_datagram_def Router_queue_def Router_pop_def Router_drain.simps Router_route_def

section \<open>Longest prefix match\<close>

text \<open>The reference: two addresses agree on their first bits; among the routes that agree with the
  destination the longest is taken, the latest of several.\<close>

definition same_prefix :: "nat \<Rightarrow> 32 word \<Rightarrow> 32 word \<Rightarrow> bool" where
  "same_prefix n a b \<longleftrightarrow> (\<forall>i < n. bit a (31 - i) = bit b (31 - i))"

definition routes_to :: "32 word \<Rightarrow> RouterInfo list \<Rightarrow> RouterInfo list" where
  "routes_to dst rl = filter (\<lambda>it. same_prefix (unat (ri_prefix_length it)) dst (ri_router_prefix it)) rl"

definition longest_match :: "32 word \<Rightarrow> RouterInfo list \<Rightarrow> RouterInfo option" where
  "longest_match dst rl =
    (let ms = routes_to dst rl; n = Max (set (map (\<lambda>it. unat (ri_prefix_length it)) ms)) in
      if ms = [] then None else Some (last (filter (\<lambda>it. unat (ri_prefix_length it) = n) ms)))"

lemma shift_prefix:
  assumes "n \<le> 32"
  shows "drop_bit (32 - n) (ucast a :: 64 word) = drop_bit (32 - n) (ucast b) \<longleftrightarrow> same_prefix n a b"
proof
  assume eq: "drop_bit (32 - n) (ucast a :: 64 word) = drop_bit (32 - n) (ucast b)"
  show "same_prefix n a b"
    unfolding same_prefix_def
  proof (intro allI impI)
    fix i
    assume "i < n"
    then have "31 - i = (32 - n) + (n - 1 - i)" "31 - i < 64"
      using assms by simp_all
    moreover have "bit (drop_bit (32 - n) (ucast a :: 64 word)) (n - 1 - i) = bit (drop_bit (32 - n) (ucast b :: 64 word)) (n - 1 - i)"
      using eq by simp
    ultimately show "bit a (31 - i) = bit b (31 - i)"
      by (simp add: bit_simps)
  qed
next
  assume same: "same_prefix n a b"
  have "bit a (32 - n + k) = bit b (32 - n + k)" for k
  proof (cases "k < n")
    case True
    then have "32 - n + k = 31 - (n - 1 - k)" "n - 1 - k < n"
      using assms by simp_all
    with same show ?thesis
      unfolding same_prefix_def by metis
  next
    case False
    then have "\<not> 32 - n + k < 32"
      using assms by simp
    then show ?thesis
      using bit_imp_le_length [of a "32 - n + k"] bit_imp_le_length [of b "32 - n + k"] by auto
  qed
  then show "drop_bit (32 - n) (ucast a :: 64 word) = drop_bit (32 - n) (ucast b)"
    by (intro bit_word_eqI) (simp add: bit_simps)
qed

lemma routes_to_simps [simp]:
  "routes_to dst [] = []"
  "routes_to dst (xs @ ys) = routes_to dst xs @ routes_to dst ys"
  "routes_to dst [it] = (if same_prefix (unat (ri_prefix_length it)) dst (ri_router_prefix it) then [it] else [])"
  by (simp_all add: routes_to_def)

text \<open>One more route: it wins if it matches and none that matches so far is longer.\<close>

lemma longest_match_snoc:
  "longest_match dst (rl @ [it]) =
    (if same_prefix (unat (ri_prefix_length it)) dst (ri_router_prefix it) \<and>
        (\<forall>it' \<in> set (routes_to dst rl). unat (ri_prefix_length it') \<le> unat (ri_prefix_length it))
     then Some it else longest_match dst rl)"
proof (cases "same_prefix (unat (ri_prefix_length it)) dst (ri_router_prefix it)")
  case False
  then show ?thesis
    by (simp add: longest_match_def)
next
  case True
  let ?len = "\<lambda>it. unat (ri_prefix_length it)" and ?ms = "routes_to dst rl"
  have ms: "routes_to dst (rl @ [it]) = ?ms @ [it]"
    using True by simp
  show ?thesis
  proof (cases "?ms = []")
    case True
    then show ?thesis
      using \<open>same_prefix (unat (ri_prefix_length it)) dst (ri_router_prefix it)\<close> by (simp add: longest_match_def ms)
  next
    case False
    define n where "n = Max (set (map ?len ?ms))"
    have max: "Max (set (map ?len (?ms @ [it]))) = max (?len it) n"
      using False by (simp add: Max_insert n_def)
    have all: "(\<forall>it' \<in> set ?ms. ?len it' \<le> ?len it) \<longleftrightarrow> n \<le> ?len it"
      using False by (simp add: Max_le_iff n_def)
    show ?thesis
    proof (cases "n \<le> ?len it")
      case True
      then show ?thesis
        using \<open>same_prefix (unat (ri_prefix_length it)) dst (ri_router_prefix it)\<close> all
        unfolding longest_match_def ms max Let_def by (simp add: max_absorb1)
    next
      case le: False
      then have "max (?len it) n = n" "?len it \<noteq> n"
        by simp_all
      then show ?thesis
        using False le all unfolding longest_match_def ms max Let_def n_def [symmetric] by auto
    qed
  qed
qed

lemma Router_lookup_from:
  assumes "list_all (\<lambda>it. unat (ri_prefix_length it) \<le> 32) its"
    and "\<And>l. mx \<le> l \<longleftrightarrow> (\<forall>it \<in> set (routes_to dst rl). unat (ri_prefix_length it) \<le> l)"
  shows "Router_lookup dst its mx (longest_match dst rl) = Inr (longest_match dst (rl @ its))"
  using assms
proof (induction its arbitrary: mx rl)
  case (Cons it its)
  let ?len = "unat (ri_prefix_length it)"
  have len: "?len \<le> 32" "list_all (\<lambda>it. unat (ri_prefix_length it) \<le> 32) its"
    using Cons.prems(1) by simp_all
  show ?case
  proof (cases "same_prefix ?len dst (ri_router_prefix it) \<and> mx \<le> ?len")
    case True
    then have "longest_match dst (rl @ [it]) = Some it"
      using Cons.prems(2) by (simp add: longest_match_snoc)
    moreover have "\<And>l. ?len \<le> l \<longleftrightarrow> (\<forall>it' \<in> set (routes_to dst (rl @ [it])). unat (ri_prefix_length it') \<le> l)"
      using True Cons.prems(2) [of ?len] by (auto dest: order_trans)
    ultimately show ?thesis
      using Cons.IH [OF len(2), of ?len "rl @ [it]"] len(1) True by (simp add: shift_prefix)
  next
    case False
    then have "longest_match dst (rl @ [it]) = longest_match dst rl"
      using Cons.prems(2) [of ?len] by (auto simp: longest_match_snoc)
    moreover have "\<And>l. mx \<le> l \<longleftrightarrow> (\<forall>it' \<in> set (routes_to dst (rl @ [it])). unat (ri_prefix_length it') \<le> l)"
      using False Cons.prems(2) by auto
    ultimately show ?thesis
      using Cons.IH [OF len(2), of mx "rl @ [it]"] len(1) False by (auto simp: shift_prefix)
  qed
qed simp

lemma longest_match_Nil [simp]: "longest_match dst [] = None"
  by (simp add: longest_match_def)

lemma Router_lookup_eq:
  assumes "list_all (\<lambda>it. unat (ri_prefix_length it) \<le> 32) rl"
  shows "Router_lookup dst rl 0 None = Inr (longest_match dst rl)"
  using Router_lookup_from [OF assms, of 0 dst "[]"] by simp

lemma longest_match_set: "longest_match dst rl = Some info \<Longrightarrow> info \<in> set rl"
  by (induction rl rule: rev_induct) (auto simp: longest_match_snoc split: if_splits)

section \<open>Routing ends\<close>

text \<open>Every route names an interface and has a next hop that is an IPv4 address; the interfaces keep
  their invariant and hold datagrams that can be sent.\<close>

definition RouterInfo_ok :: "Router \<Rightarrow> RouterInfo \<Rightarrow> bool" where
  "RouterInfo_ok r it \<longleftrightarrow> unat (ri_prefix_length it) \<le> 32 \<and> ri_interface_num it < length (rt_interfaces r) \<and>
    (case ri_next_hop it of None \<Rightarrow> True | Some hop \<Rightarrow> \<exists>a p. hop = IPv4_address a p)"

definition AsyncNetworkInterface_inv :: "AsyncNetworkInterface \<Rightarrow> bool" where
  "AsyncNetworkInterface_inv s \<longleftrightarrow> NetworkInterface_inv (ani_interface s) \<and> list_all IPv4Datagram_wf (ani_datagrams_out s)"

definition Router_inv :: "Router \<Rightarrow> bool" where
  "Router_inv r \<longleftrightarrow> list_all AsyncNetworkInterface_inv (rt_interfaces r) \<and> list_all (RouterInfo_ok r) (rt_router_list r)"

lemma Router_forwarded_wf [simp]: "IPv4Datagram_wf (Router_forwarded dgram) = IPv4Datagram_wf dgram"
  by (simp add: IPv4Datagram_wf_def IPv4Header_valid_def Router_forwarded_def)

lemma Router_inv_prefixes: "Router_inv r \<Longrightarrow> list_all (\<lambda>it. unat (ri_prefix_length it) \<le> 32) (rt_router_list r)"
  by (auto simp: Router_inv_def RouterInfo_ok_def list_all_iff)

lemma Router_route_one_safe:
  assumes "Router_inv r" "IPv4Datagram_wf dgram"
  shows "returns (Router_route_one_datagram r dgram) Router_inv"
proof (cases "longest_match (ip_dst (dg_header dgram)) (rt_router_list r)")
  case None
  then show ?thesis
    using assms(1) Router_lookup_eq [OF Router_inv_prefixes [OF assms(1)]] by (simp add: Router_route_one_eq)
next
  case (Some info)
  then have info: "RouterInfo_ok r info"
    using assms(1) longest_match_set by (force simp: Router_inv_def list_all_iff)
  let ?i = "ri_interface_num info"
  have i: "?i < length (rt_interfaces r)"
    using info by (simp add: RouterInfo_ok_def)
  then have inv: "AsyncNetworkInterface_inv (rt_interfaces r ! ?i)"
    using assms(1) by (simp add: Router_inv_def list_all_length)
  obtain a p where "Router_hop (ip_dst (dg_header dgram)) info = IPv4_address a p"
    using info by (auto simp: Router_hop_def RouterInfo_ok_def split: option.splits)
  then obtain s where s: "AsyncNetworkInterface_send_datagram (rt_interfaces r ! ?i) (Router_forwarded dgram) (Router_hop (ip_dst (dg_header dgram)) info) = Inr s"
    "AsyncNetworkInterface_inv s"
    using NetworkInterface_send_safe [of "ani_interface (rt_interfaces r ! ?i)" "Router_forwarded dgram" a p] inv assms(2)
    by (auto simp: AsyncNetworkInterface_send_datagram_def AsyncNetworkInterface_inv_def returns_def)
  then have "Router_inv (r\<lparr>rt_interfaces := (rt_interfaces r)[?i := s]\<rparr>)"
    using assms(1) i by (auto simp: Router_inv_def RouterInfo_ok_def list_all_length nth_list_update)
  then show ?thesis
    using Some s(1) i assms(1) Router_lookup_eq [OF Router_inv_prefixes [OF assms(1)]]
    by (simp add: Router_route_one_eq Router_interface_def)
qed

lemma Router_pop_inv:
  assumes "Router_inv r"
  shows "Router_inv (Router_pop r i)"
proof (cases "i < length (rt_interfaces r)")
  case True
  then have "AsyncNetworkInterface_inv (rt_interfaces r ! i)"
    using assms by (simp add: Router_inv_def list_all_length)
  then have "AsyncNetworkInterface_inv ((rt_interfaces r ! i)\<lparr>ani_datagrams_out := tl (ani_datagrams_out (rt_interfaces r ! i))\<rparr>)"
    by (cases "ani_datagrams_out (rt_interfaces r ! i)") (simp_all add: AsyncNetworkInterface_inv_def)
  then show ?thesis
    using assms True by (auto simp: Router_inv_def Router_pop_def RouterInfo_ok_def list_all_length nth_list_update)
next
  case False
  then show ?thesis
    using assms by (simp add: Router_pop_def list_update_beyond)
qed

lemma Router_queue_wf: "Router_inv r \<Longrightarrow> dgram \<in> set (Router_queue r i) \<Longrightarrow> IPv4Datagram_wf dgram"
  by (auto simp: Router_inv_def Router_queue_def AsyncNetworkInterface_inv_def list_all_iff split: if_splits)

lemma Router_drain_safe:
  assumes "Router_inv r"
  shows "returns (Router_drain i r) (\<lambda>r'. Router_inv r' \<and> length (rt_interfaces r') = length (rt_interfaces r) \<and>
    Router_queue r' i = [] \<and> (\<forall>j. j \<noteq> i \<longrightarrow> Router_queue r' j = Router_queue r j))"
  using assms
proof (induction i r rule: Router_drain.induct)
  case (1 i r)
  show ?case
  proof (cases "Router_queue r i")
    case Nil
    then show ?thesis
      using "1.prems" by (simp add: Router_drain.simps [of i r])
  next
    case (Cons dgram q)
    obtain r1 where r1: "Router_route_one_datagram r dgram = Inr r1" "Router_inv r1"
      using returnsD [OF Router_route_one_safe [OF "1.prems" Router_queue_wf [OF "1.prems"]], of dgram i] Cons by auto
    note queue = Router_route_one_queue [OF r1(1)]
    from "1.IH" [OF Cons r1(1) Router_pop_inv [OF r1(2)]] show ?thesis
      unfolding Router_drain.simps [of i r] Cons list.case r1(1) rbind.simps
      by (rule returns_mono) (simp add: Router_pop_queue queue, simp add: Router_pop_def queue)
  qed
qed

lemma Router_route_loop_safe:
  assumes "Router_inv r" "distinct is"
  shows "returns (Router_route_loop is r) (\<lambda>r'. Router_inv r' \<and> length (rt_interfaces r') = length (rt_interfaces r) \<and>
    (\<forall>i \<in> set is. Router_queue r' i = []) \<and> (\<forall>j. j \<notin> set is \<longrightarrow> Router_queue r' j = Router_queue r j))"
  using assms
proof (induction "is" arbitrary: r)
  case (Cons i "is")
  obtain r1 where r1: "Router_drain i r = Inr r1" "Router_inv r1" "length (rt_interfaces r1) = length (rt_interfaces r)"
    "Router_queue r1 i = []" "\<forall>j. j \<noteq> i \<longrightarrow> Router_queue r1 j = Router_queue r j"
    using returnsD [OF Router_drain_safe [OF Cons.prems(1)]] by blast
  have "distinct is" "i \<notin> set is"
    using Cons.prems(2) by simp_all
  from returns_mono [OF Cons.IH [OF r1(2) this(1)]] show ?case
    unfolding Router_route_loop.simps r1(1) rbind.simps by (rule returns_mono) (use r1 \<open>i \<notin> set is\<close> in auto)
qed simp

section \<open>The way of one datagram\<close>

lemma Router_drain_empty [simp]: "Router_queue r i = [] \<Longrightarrow> Router_drain i r = Inr r"
  by (simp add: Router_drain.simps)

lemma Router_route_loop_empty: "\<forall>i \<in> set is. Router_queue r i = [] \<Longrightarrow> Router_route_loop is r = Inr r"
  by (induction "is") simp_all

lemma Router_route_loop_append: "Router_route_loop (is @ js) r = rbind (Router_route_loop is r) (Router_route_loop js)"
proof (induction "is" arbitrary: r)
  case (Cons i "is")
  then have "Router_route_loop (is @ js) = (\<lambda>r. rbind (Router_route_loop is r) (Router_route_loop js))"
    by (simp add: fun_eq_iff)
  then show ?case
    by (simp add: rbind_assoc)
qed simp

lemma Router_route_single:
  assumes "i < length (rt_interfaces r)" "Router_queue r i = [dgram]" "\<And>k. k \<noteq> i \<Longrightarrow> Router_queue r k = []"
  shows "Router_route r = rbind (Router_route_one_datagram r dgram) (\<lambda>r. Inr (Router_pop r i))"
proof -
  have "[0..<length (rt_interfaces r)] = [0..<i] @ i # [Suc i..<length (rt_interfaces r)]"
    using assms(1) upt_add_eq_append [of 0 i "length (rt_interfaces r) - i"] by (simp add: upt_conv_Cons)
  then have "Router_route r = rbind (Router_drain i r) (Router_route_loop [Suc i..<length (rt_interfaces r)])"
    using assms(3) by (simp add: Router_route_def Router_route_loop_append Router_route_loop_empty)
  also have "Router_drain i r = rbind (Router_route_one_datagram r dgram) (\<lambda>r. Inr (Router_pop r i))"
    unfolding Router_drain.simps [of i r] assms(2) list.case
  proof (rule rbind_cong [OF refl])
    fix r'
    assume "Router_route_one_datagram r dgram = Inr r'"
    then show "Router_drain i (Router_pop r' i) = Inr (Router_pop r' i)"
      using assms(2) by (simp add: Router_pop_queue Router_route_one_queue)
  qed
  finally have "Router_route r = rbind (Router_route_one_datagram r dgram)
      (\<lambda>r'. Router_route_loop [Suc i..<length (rt_interfaces r)] (Router_pop r' i))"
    by (simp add: rbind_assoc)
  also have "\<dots> = rbind (Router_route_one_datagram r dgram) (\<lambda>r. Inr (Router_pop r i))"
  proof (rule rbind_cong [OF refl])
    fix r'
    assume "Router_route_one_datagram r dgram = Inr r'"
    then have "Router_queue (Router_pop r' i) k = []" if "k \<noteq> i" for k
      using assms(3) that by (simp add: Router_pop_queue Router_route_one_queue)
    then show "Router_route_loop [Suc i..<length (rt_interfaces r)] (Router_pop r' i) = Inr (Router_pop r' i)"
      by (simp add: Router_route_loop_empty)
  qed
  finally show ?thesis .
qed

text \<open>A frame for an interface puts its datagram into the interface's queue.\<close>

definition Router_received :: "Router \<Rightarrow> size_t \<Rightarrow> AsyncNetworkInterface \<Rightarrow> Router" where
  "Router_received r i s = r\<lparr>rt_interfaces := (rt_interfaces r)[i := s]\<rparr>"

lemma AsyncNetworkInterface_recv_own:
  assumes "IPv4Datagram_parse IPv4Datagram_default (Buffer_of (BufferList_concatenate (ef_payload fr))) = Inr (NoError, dg)"
    and "eh_type (ef_header fr) = TYPE_IPv4" "eh_dst (ef_header fr) = ni_ethernet_address (ani_interface s)"
  shows "AsyncNetworkInterface_recv_frame s fr = Inr (s\<lparr>ani_datagrams_out := ani_datagrams_out s @ [dg]\<rparr>)"
  using assms by (cases s) (simp add: AsyncNetworkInterface_recv_frame_def NetworkInterface_recv_frame_def NetworkInterface_recv_ipv4_def)

lemma Router_received_queue:
  assumes "i < length (rt_interfaces r)" "\<And>k. Router_queue r k = []"
    and "s = (rt_interfaces r ! i)\<lparr>ani_datagrams_out := ani_datagrams_out (rt_interfaces r ! i) @ [dg]\<rparr>"
  shows "Router_queue (Router_received r i s) k = (if k = i then [dg] else [])"
  using assms(1,3) assms(2) [of i] assms(2) [of k]
  by (auto simp: Router_received_def Router_queue_def nth_list_update split: if_splits)

lemma Router_route_one_match:
  assumes "list_all (\<lambda>it. unat (ri_prefix_length it) \<le> 32) (rt_router_list r)" "\<not> ip_ttl (dg_header dgram) \<le> 1"
    and "longest_match (ip_dst (dg_header dgram)) (rt_router_list r) = Some info" "ri_interface_num info < length (rt_interfaces r)"
  shows "Router_route_one_datagram r dgram =
    rbind (AsyncNetworkInterface_send_datagram (rt_interfaces r ! ri_interface_num info) (Router_forwarded dgram) (Router_hop (ip_dst (dg_header dgram)) info))
      (\<lambda>s. Inr (r\<lparr>rt_interfaces := (rt_interfaces r)[ri_interface_num info := s]\<rparr>))"
  using assms by (simp add: Router_route_one_eq Router_lookup_eq Router_interface_def)

text \<open>A single waiting datagram is sent on the interface of its route.\<close>

lemma Router_route_received:
  assumes i: "i < length (rt_interfaces r)" "\<forall>k. Router_queue r k = []"
    and table: "list_all (\<lambda>it. unat (ri_prefix_length it) \<le> 32) (rt_router_list r)"
      "longest_match (ip_dst (dg_header dg)) (rt_router_list r) = Some info" "ri_interface_num info < length (rt_interfaces r)"
    and "\<not> ip_ttl (dg_header dg) \<le> 1"
    and s: "s = (rt_interfaces r ! i)\<lparr>ani_datagrams_out := ani_datagrams_out (rt_interfaces r ! i) @ [dg]\<rparr>"
  shows "case NetworkInterface_send_datagram (ani_interface (rt_interfaces r ! ri_interface_num info)) (Router_forwarded dg) (Router_hop (ip_dst (dg_header dg)) info) of
      Inl e \<Rightarrow> Router_route (Router_received r i s) = Inl e
    | Inr out \<Rightarrow> \<exists>r'. Router_route (Router_received r i s) = Inr r' \<and> ani_interface (rt_interfaces r' ! ri_interface_num info) = out"
proof -
  let ?r1 = "Router_received r i s" and ?j = "ri_interface_num info"
  have "Router_queue ?r1 k = (if k = i then [dg] else [])" for k
    using Router_received_queue [OF i(1) _ s] i(2) by simp
  then have route: "Router_route ?r1 = rbind (Router_route_one_datagram ?r1 dg) (\<lambda>r. Inr (Router_pop r i))"
    using i(1) by (intro Router_route_single) (simp_all add: Router_received_def)
  have one: "Router_route_one_datagram ?r1 dg =
      rbind (AsyncNetworkInterface_send_datagram (rt_interfaces ?r1 ! ?j) (Router_forwarded dg) (Router_hop (ip_dst (dg_header dg)) info))
        (\<lambda>s. Inr (?r1\<lparr>rt_interfaces := (rt_interfaces ?r1)[?j := s]\<rparr>))"
    using Router_route_one_match [of ?r1 dg info] table assms(6) by (simp add: Router_received_def)
  have iface: "ani_interface (rt_interfaces ?r1 ! ?j) = ani_interface (rt_interfaces r ! ?j)"
    using i(1) by (cases "?j = i") (simp_all add: Router_received_def s)
  have "ani_interface (rt_interfaces (Router_pop (?r1\<lparr>rt_interfaces := (rt_interfaces ?r1)[?j := s']\<rparr>) i) ! ?j) = ani_interface s'" for s'
    using i(1) table(3) by (simp add: Router_pop_def Router_received_def nth_list_update)
  then show ?thesis
    unfolding route one AsyncNetworkInterface_send_datagram_def iface by (auto split: sum.split)
qed

text \<open>A header that is legal but for the version: the version is noticed, the datagram accepted.\<close>

lemma IPv4Header_first_byte_any:
  assumes "unat (ip_ver h) < 16" "unat (ip_hlen h) < 16"
  shows "drop_bit 4 (IPv4Header_first_byte h) = ip_ver h" "IPv4Header_first_byte h AND 0x0f = ip_hlen h"
proof -
  have m: "mask 4 = (0xf :: 8 word)"
    by (simp add: mask_eq_exp_minus_1)
  have hlen: "ip_hlen h AND 0xf = ip_hlen h" "drop_bit 4 (ip_hlen h) = 0"
    using small_word [of "ip_hlen h" 4, unfolded m] assms(2) by simp_all
  have ver: "drop_bit 4 (push_bit 4 (ip_ver h)) = ip_ver h" "push_bit 4 (ip_ver h) AND 0xf = 0"
  proof -
    have eq: "ip_ver h AND mask 4 = ip_ver h"
      using small_word(1) [of "ip_ver h" 4] assms(1) by simp
    have "n < 4" if "bit (ip_ver h) n" for n
      using that by (subst (asm) eq [symmetric]) (simp add: bit_simps)
    then show "drop_bit 4 (push_bit 4 (ip_ver h)) = ip_ver h"
      by (intro bit_word_eqI) (auto simp: bit_simps)
    show "push_bit 4 (ip_ver h) AND 0xf = 0"
      unfolding m [symmetric] by (intro bit_word_eqI) (auto simp: bit_simps)
  qed
  show "drop_bit 4 (IPv4Header_first_byte h) = ip_ver h" "IPv4Header_first_byte h AND 0x0f = ip_hlen h"
    using hlen ver by (simp_all add: IPv4Header_first_byte_def drop_bit_or bit.conj_disj_distrib2)
qed

lemma IPv4Header_parse_version:
  assumes ver: "unat (ip_ver h) < 16" "ip_ver h \<noteq> 4" and hlen: "ip_hlen h = 5" and offset: "ip_offset h \<le> 0x1fff"
    and ready: "NetParser_ready p" and bytes: "NetParser_str p = IPv4Header_bytes h @ rest"
  shows "returns (IPv4Header_parse h0 p) (\<lambda>(res, h', p'). res = WrongIPVersion \<and> h' = h \<and> NetParser_ready p' \<and> NetParser_str p' = rest)"
proof -
  have fo: "(IPv4Header_fo_val h AND 0x4000 \<noteq> 0) = ip_df h" "(IPv4Header_fo_val h AND 0x2000 \<noteq> 0) = ip_mf h"
    "IPv4Header_fo_val h AND 0x1fff = ip_offset h"
    using IPv4Header_fo_val_parts [of "h\<lparr>ip_ver := 4\<rparr>"] hlen offset by (simp_all add: IPv4Header_valid_def IPv4Header_fo_val_def)
  have first: "drop_bit 4 (IPv4Header_first_byte h) = ip_ver h" "IPv4Header_first_byte h AND 0x0f = ip_hlen h"
    using IPv4Header_first_byte_any [of h] ver(1) hlen by simp_all
  have str: "NetParser_str p = be_bytes (IPv4Header_first_byte h) @ be_bytes (ip_tos h) @ be_bytes (ip_len h) @
      be_bytes (ip_id h) @ be_bytes (IPv4Header_fo_val h) @ be_bytes (ip_ttl h) @ be_bytes (ip_proto h) @
      be_bytes (ip_cksum h) @ be_bytes (ip_src h) @ be_bytes (ip_dst h) @ rest"
    using bytes hlen by (simp add: IPv4Header_bytes_def IPv4Header_front_def IPv4Header_back_def)
  then have "Buffer_size (np_buffer p) = 20 + length rest"
    by (simp add: Buffer_size_def NetParser_str_def)
  then have size: "\<not> Buffer_size (np_buffer p) < IPv4Header_LENGTH" "\<not> Buffer_size (np_buffer p) < 4 * unat (ip_hlen h)"
    using hlen by (simp_all add: IPv4Header_LENGTH_def)
  show ?thesis
    unfolding IPv4Header_parse_def Let_def if_not_P [OF size(1)]
    by (rule parse_fields(3) [OF ready str], (rule parse_fields, assumption, assumption)+)
      (use ver(2) size(2) in \<open>simp add: fo first\<close>)
qed

lemma IPv4Datagram_parse_version:
  assumes "unat (ip_ver h) < 16" "ip_ver h \<noteq> 4" "ip_hlen h = 5" "ip_offset h \<le> 0x1fff"
    and "length rest < W64 - 20" "unat (ip_len h) = 20 + length rest"
  shows "\<exists>payload. IPv4Datagram_parse dg (Buffer_of (IPv4Header_bytes h @ rest)) = Inr (NoError, \<lparr>dg_header = h, dg_payload = [payload]\<rparr>) \<and>
    Buffer_wf payload \<and> Buffer_str payload = rest"
proof -
  let ?b = "Buffer_of (IPv4Header_bytes h @ rest)"
  have "length (IPv4Header_bytes h) = 20"
    using assms(3) by (simp add: IPv4Header_bytes_def IPv4Header_front_def IPv4Header_back_def)
  then have "NetParser_ready (NetParser_make ?b)" "NetParser_str (NetParser_make ?b) = IPv4Header_bytes h @ rest"
    using assms(5) by simp_all
  from returnsD [OF IPv4Header_parse_version [OF assms(1-4) this, of "dg_header dg"]]
  obtain p where p: "IPv4Header_parse (dg_header dg) (NetParser_make ?b) = Inr (WrongIPVersion, h, p)" "NetParser_ready p" "NetParser_str p = rest"
    by auto
  have "IPv4Header_payload_length h = IPv4Header_payload_length (h\<lparr>ip_ver := 4, ip_offset := 0\<rparr>)"
    by (simp add: IPv4Header_payload_length_def)
  then have "unat (IPv4Header_payload_length h) = length rest"
    using IPv4Header_payload_length_eq [of "h\<lparr>ip_ver := 4, ip_offset := 0\<rparr>" "length rest"] assms(3,6) by (simp add: IPv4Header_valid_def)
  moreover have "BufferList_size [np_buffer p] = length rest"
    using p(3) assms(5) by (simp add: BufferList_size_def Buffer_size_def NetParser_str_def u64_simps)
  ultimately show ?thesis
    using p by (simp add: IPv4Datagram_parse_def BufferList_of_Buffer_def NetParser_ready_def NetParser_wf_def NetParser_str_def Let_def)
qed

lemma IPv4Datagram_serialize_version:
  assumes "ip_ver (dg_header dg) \<noteq> 4" "BufferList_size (dg_payload dg) = unat (IPv4Header_payload_length (dg_header dg))"
  shows "IPv4Datagram_serialize dg = Inl (RuntimeError ''wrong IP version'')"
  using assms by (simp add: IPv4Datagram_serialize_def IPv4Header_serialize_def Let_def)

text \<open>A router between two networks, which knows one host on the second.\<close>

definition example_interface :: "byte \<Rightarrow> 32 word \<Rightarrow> NetworkInterface" where
  "example_interface n ip = \<lparr>ni_ethernet_address = [2, 0, 0, 0, 0, n], ni_ip_address = IPv4_address ip 0, ni_frames_out = [],
    ni_arp_ip_queue = Map.empty,
    ni_ip_mac_map = \<lparr>mc_ip_mac_cache = [0xc0a80105 \<mapsto> [2, 0, 0, 0, 0, 5]], mc_cach_expire_queue = [(30000, 0xc0a80105)]\<rparr>,
    ni_ms_since_last_tick = 0, ni_expire_time = 30000\<rparr>"

definition example_router :: Router where
  "example_router = \<lparr>
    rt_interfaces = [AsyncNetworkInterface_of (example_interface 1 0x0a000001), AsyncNetworkInterface_of (example_interface 2 0xc0a80001)],
    rt_router_list = [
      \<lparr>ri_router_prefix = 0, ri_prefix_length = 0, ri_next_hop = Some (IPv4_address 0x0a000009 0), ri_interface_num = 0\<rparr>,
      \<lparr>ri_router_prefix = 0xc0a80000, ri_prefix_length = 16, ri_next_hop = None, ri_interface_num = 1\<rparr>]\<rparr>"

lemma example_interface_inv:
  "NetworkInterface_inv (example_interface n ip)"
  by (auto simp: NetworkInterface_inv_def NetworkInterface_cache_inv_def example_interface_def IP2EthernetCache_inv_def
    EthernetAddress_wf_def W64_def)

lemma example_router_simps:
  "Router_queue example_router k = []" "length (rt_interfaces example_router) = 2"
  "list_all (\<lambda>it. unat (ri_prefix_length it) \<le> 32) (rt_router_list example_router)"
  "longest_match 0xc0a80105 (rt_router_list example_router) =
    Some \<lparr>ri_router_prefix = 0xc0a80000, ri_prefix_length = 16, ri_next_hop = None, ri_interface_num = 1\<rparr>"
proof -
  have "same_prefix 16 0xc0a80105 0xc0a80000" "same_prefix 0 0xc0a80105 0"
    by (simp_all add: shift_prefix [symmetric])
  then show "longest_match 0xc0a80105 (rt_router_list example_router) =
      Some \<lparr>ri_router_prefix = 0xc0a80000, ri_prefix_length = 16, ri_next_hop = None, ri_interface_num = 1\<rparr>"
    by (simp add: example_router_def longest_match_def routes_to_def)
qed (auto simp: example_router_def Router_queue_def AsyncNetworkInterface_of_def nth_Cons' split: if_splits)

lemma Router_example_inv: "Router_inv example_router"
  by (auto simp: Router_inv_def example_router_def AsyncNetworkInterface_inv_def AsyncNetworkInterface_of_def example_interface_inv RouterInfo_ok_def)

section \<open>Properties\<close>

text \<open>C31: the table is searched for the longest match. The loop over the routes, with its running maximum
  and its shifts in 64 bits, finds what the reference defines: among the routes whose prefix has the
  bits of the destination, the longest, and the last added of several; a route with a prefix longer
  than 32 bits, wherever it stands in the table, makes a shift undefined.\<close>

theorem Router_longest_prefix_match:
  "Router_lookup dst (rt_router_list r) 0 None =
    (if list_all (\<lambda>it. unat (ri_prefix_length it) \<le> 32) (rt_router_list r) then Inr (longest_match dst (rt_router_list r))
     else Inl BadShift)"
proof -
  have "Router_lookup dst its mx info = Inl BadShift" if "\<not> list_all (\<lambda>it. unat (ri_prefix_length it) \<le> 32) its" for its mx info
    using that by (induction dst its mx info rule: Router_lookup.induct) (auto simp: Let_def)
  then show ?thesis
    by (simp add: Router_lookup_eq)
qed



text \<open>C33: the way of a datagram through the router. A frame for one of the router's interfaces with a
  datagram whose time to live is more than one is routed by the longest match: the interface of that
  route, which knows its next hop, sends exactly one more frame, to that hop; its bytes are parsed to
  the same datagram but for the time to live, one less, and the checksum.\<close>

theorem Router_delivers:
  assumes i: "i < length (rt_interfaces r)" "\<forall>k. Router_queue r k = []"
    and table: "list_all (\<lambda>it. unat (ri_prefix_length it) \<le> 32) (rt_router_list r)"
      "longest_match (ip_dst (dg_header dgram)) (rt_router_list r) = Some info" "ri_interface_num info < length (rt_interfaces r)"
    and hop: "Router_hop (ip_dst (dg_header dgram)) info = IPv4_address b p"
      "IP2EthernetCache_get_cache (ni_ip_mac_map (ani_interface (rt_interfaces r ! ri_interface_num info))) b = Some mac"
    and dgram: "IPv4Datagram_wf dgram" "\<not> ip_ttl (dg_header dgram) \<le> 1" "IPv4Datagram_serialize dgram = Inr bl"
    and frame: "eh_type (ef_header fr) = TYPE_IPv4" "eh_dst (ef_header fr) = ni_ethernet_address (ani_interface (rt_interfaces r ! i))"
      "BufferList_concatenate (ef_payload fr) = BufferList_concatenate bl"
  shows "\<exists>s r' out bytes c payload. AsyncNetworkInterface_recv_frame (rt_interfaces r ! i) fr = Inr s \<and>
    Router_route (Router_received r i s) = Inr r' \<and>
    out = ani_interface (rt_interfaces r ! ri_interface_num info) \<and>
    ni_frames_out (ani_interface (rt_interfaces r' ! ri_interface_num info)) = ni_frames_out out @
      [\<lparr>ef_header = \<lparr>eh_dst = mac, eh_src = ni_ethernet_address out, eh_type = TYPE_IPv4\<rparr>, ef_payload = [Buffer_of bytes]\<rparr>] \<and>
    IPv4Datagram_parse IPv4Datagram_default (Buffer_of bytes) =
      Inr (NoError, \<lparr>dg_header = (dg_header dgram)\<lparr>ip_ttl := ip_ttl (dg_header dgram) - 1, ip_cksum := c\<rparr>, dg_payload = [payload]\<rparr>) \<and>
    Buffer_str payload = BufferList_concatenate (dg_payload dgram)"
proof -
  let ?out = "ani_interface (rt_interfaces r ! ri_interface_num info)"
  obtain c0 pl0 where pl0: "IPv4Datagram_parse IPv4Datagram_default (Buffer_of (BufferList_concatenate bl)) =
      Inr (NoError, \<lparr>dg_header = (dg_header dgram)\<lparr>ip_cksum := c0\<rparr>, dg_payload = [pl0]\<rparr>)"
    "Buffer_wf pl0" "Buffer_str pl0 = BufferList_concatenate (dg_payload dgram)"
    using IPv4Datagram_wire [OF dgram(1), of IPv4Header_default IPv4Datagram_default] dgram(3) by auto
  define dg where "dg = \<lparr>dg_header = (dg_header dgram)\<lparr>ip_cksum := c0\<rparr>, dg_payload = [pl0]\<rparr>"
  define s where "s = (rt_interfaces r ! i)\<lparr>ani_datagrams_out := ani_datagrams_out (rt_interfaces r ! i) @ [dg]\<rparr>"
  have recv: "AsyncNetworkInterface_recv_frame (rt_interfaces r ! i) fr = Inr s"
    using AsyncNetworkInterface_recv_own [of fr dg] frame pl0(1) by (simp add: s_def dg_def)
  have same: "dg_header (Router_forwarded dg) = (dg_header dgram)\<lparr>ip_cksum := c0, ip_ttl := ip_ttl (dg_header dgram) - 1\<rparr>"
    "BufferList_concatenate (dg_payload (Router_forwarded dg)) = BufferList_concatenate (dg_payload dgram)"
    "Router_hop (ip_dst (dg_header dg)) info = IPv4_address b p" "ip_dst (dg_header dg) = ip_dst (dg_header dgram)" "ip_ttl (dg_header dg) = ip_ttl (dg_header dgram)"
    using pl0(3) hop(1) by (simp_all add: Router_forwarded_def dg_def Router_hop_def cong: option.case_cong)
  have "IPv4Datagram_wf dg"
    using dgram(1) pl0(2,3) by (simp add: dg_def IPv4Datagram_wf_def)
  then have "IPv4Datagram_wf (Router_forwarded dg)"
    by simp
  then obtain bl' c payload where out: "IPv4Datagram_serialize (Router_forwarded dg) = Inr bl'"
    "IPv4Datagram_parse IPv4Datagram_default (Buffer_of (BufferList_concatenate bl')) =
      Inr (NoError, \<lparr>dg_header = (dg_header (Router_forwarded dg))\<lparr>ip_cksum := c\<rparr>, dg_payload = [payload]\<rparr>)"
    "Buffer_str payload = BufferList_concatenate (dg_payload (Router_forwarded dg))"
    using IPv4Datagram_wire [of "Router_forwarded dg" IPv4Header_default IPv4Datagram_default] by blast
  from Router_route_received [OF i table(1) _ table(3) _ s_def] obtain r' where
    "Router_route (Router_received r i s) = Inr r'"
    "ni_frames_out (ani_interface (rt_interfaces r' ! ri_interface_num info)) = ni_frames_out ?out @
      [\<lparr>ef_header = \<lparr>eh_dst = mac, eh_src = ni_ethernet_address ?out, eh_type = TYPE_IPv4\<rparr>,
        ef_payload = [Buffer_of (BufferList_concatenate bl')]\<rparr>]"
    using NetworkInterface_send_resolved [OF hop(2), of "Router_forwarded dg" p] out(1) table(2) dgram(2) same(3-5) by auto
  moreover have "(dg_header (Router_forwarded dg))\<lparr>ip_cksum := c\<rparr> = (dg_header dgram)\<lparr>ip_ttl := ip_ttl (dg_header dgram) - 1, ip_cksum := c\<rparr>"
    by (simp add: same(1))
  ultimately show ?thesis
    using recv out(2,3) same(2) by metis
qed

theorem Router_delivers_witness:
  "\<exists>bl s r' bytes c payload. IPv4Datagram_serialize \<lparr>dg_header = IPv4Header_default\<lparr>ip_len := 22, ip_dst := 0xc0a80105\<rparr>, dg_payload = [Buffer_of [1, 2]]\<rparr> = Inr bl \<and>
    AsyncNetworkInterface_recv_frame (rt_interfaces example_router ! 0)
      \<lparr>ef_header = \<lparr>eh_dst = [2, 0, 0, 0, 0, 1], eh_src = [2, 0, 0, 0, 0, 9], eh_type = TYPE_IPv4\<rparr>, ef_payload = bl\<rparr> = Inr s \<and>
    Router_route (Router_received example_router 0 s) = Inr r' \<and>
    ni_frames_out (ani_interface (rt_interfaces r' ! 1)) =
      [\<lparr>ef_header = \<lparr>eh_dst = [2, 0, 0, 0, 0, 5], eh_src = [2, 0, 0, 0, 0, 2], eh_type = TYPE_IPv4\<rparr>, ef_payload = [Buffer_of bytes]\<rparr>] \<and>
    IPv4Datagram_parse IPv4Datagram_default (Buffer_of bytes) =
      Inr (NoError, \<lparr>dg_header = IPv4Header_default\<lparr>ip_len := 22, ip_dst := 0xc0a80105, ip_ttl := 127, ip_cksum := c\<rparr>, dg_payload = [payload]\<rparr>) \<and>
    Buffer_str payload = [1, 2]"
proof -
  let ?dg = "\<lparr>dg_header = IPv4Header_default\<lparr>ip_len := 22, ip_dst := 0xc0a80105\<rparr>, dg_payload = [Buffer_of [1, 2]]\<rparr>"
  let ?info = "\<lparr>ri_router_prefix = 0xc0a80000, ri_prefix_length = 16, ri_next_hop = None, ri_interface_num = 1\<rparr>"
  have wf: "IPv4Datagram_wf ?dg"
    by (simp add: IPv4Datagram_wf_def IPv4Header_valid_def IPv4Header_default_def IPv4Header_LENGTH_def W64_def)
  obtain bl where bl: "IPv4Datagram_serialize ?dg = Inr bl"
    using IPv4Datagram_wire [OF wf] by blast
  let ?fr = "\<lparr>ef_header = \<lparr>eh_dst = [2, 0, 0, 0, 0, 1], eh_src = [2, 0, 0, 0, 0, 9], eh_type = TYPE_IPv4\<rparr>, ef_payload = bl\<rparr>"
  have out: "ani_interface (rt_interfaces example_router ! 1) = example_interface 2 0xc0a80001"
    "ni_ethernet_address (ani_interface (rt_interfaces example_router ! 0)) = [2, 0, 0, 0, 0, 1]"
    by (simp_all add: example_router_def AsyncNetworkInterface_of_def example_interface_def)
  have "Router_hop (ip_dst (dg_header ?dg)) ?info = IPv4_address 0xc0a80105 0"
    "IP2EthernetCache_get_cache (ni_ip_mac_map (ani_interface (rt_interfaces example_router ! ri_interface_num ?info))) 0xc0a80105 = Some [2, 0, 0, 0, 0, 5]"
    "\<not> ip_ttl (dg_header ?dg) \<le> 1"
    using out(1) by (simp_all add: Router_hop_def example_interface_def IP2EthernetCache_get_cache_def IPv4Header_default_def word_le_nat_alt)
  from Router_delivers [OF _ _ _ _ _ this(1,2) wf this(3) bl, of 0 ?fr] show ?thesis
    using bl by (simp add: example_router_simps out(2)) (auto simp: out(1) [simplified] example_interface_def IPv4Header_default_def)
qed

text \<open>C34: one malformed packet stops the router. A datagram that is legal but for its version field passes
  the parser, because \<open>IPv4Datagram::parse\<close> ignores what \<open>IPv4Header::parse\<close> reports, and
  waits to be routed; the serializer then throws, and the exception leaves \<open>route\<close>.\<close>

theorem Router_crashes_on_version:
  assumes i: "i < length (rt_interfaces r)" "\<forall>k. Router_queue r k = []"
    and table: "list_all (\<lambda>it. unat (ri_prefix_length it) \<le> 32) (rt_router_list r)"
      "longest_match (ip_dst h) (rt_router_list r) = Some info" "ri_interface_num info < length (rt_interfaces r)"
    and hop: "Router_hop (ip_dst h) info = IPv4_address b p"
      "IP2EthernetCache_get_cache (ni_ip_mac_map (ani_interface (rt_interfaces r ! ri_interface_num info))) b = Some mac"
    and header: "unat (ip_ver h) < 16" "ip_ver h \<noteq> 4" "ip_hlen h = 5" "ip_offset h \<le> 0x1fff" "unat (ip_len h) = 20 + length rest" "\<not> ip_ttl h \<le> 1"
    and frame: "eh_type (ef_header fr) = TYPE_IPv4" "eh_dst (ef_header fr) = ni_ethernet_address (ani_interface (rt_interfaces r ! i))"
      "BufferList_concatenate (ef_payload fr) = IPv4Header_bytes h @ rest"
  shows "\<exists>s. AsyncNetworkInterface_recv_frame (rt_interfaces r ! i) fr = Inr s \<and>
    Router_route (Router_received r i s) = Inl (RuntimeError ''wrong IP version'')"
proof -
  have "unat (ip_len h) < 65536"
    using unsigned_less [of "ip_len h"] by simp
  then have len: "length rest < W64 - 20"
    using header(5) W64_gt(1) by linarith
  obtain payload where pl: "IPv4Datagram_parse IPv4Datagram_default (Buffer_of (IPv4Header_bytes h @ rest)) =
      Inr (NoError, \<lparr>dg_header = h, dg_payload = [payload]\<rparr>)" "Buffer_str payload = rest"
    using IPv4Datagram_parse_version [OF header(1-4) len header(5), of IPv4Datagram_default] by blast
  define dg where "dg = \<lparr>dg_header = h, dg_payload = [payload]\<rparr>"
  define s where "s = (rt_interfaces r ! i)\<lparr>ani_datagrams_out := ani_datagrams_out (rt_interfaces r ! i) @ [dg]\<rparr>"
  have recv: "AsyncNetworkInterface_recv_frame (rt_interfaces r ! i) fr = Inr s"
    using AsyncNetworkInterface_recv_own [of fr dg] frame pl(1) by (simp add: s_def dg_def)
  have "unat (IPv4Header_payload_length h) = length rest"
    using IPv4Header_payload_length_eq [of "h\<lparr>ip_ver := 4, ip_offset := 0\<rparr>" "length rest"] header(3,5)
    by (simp add: IPv4Header_valid_def IPv4Header_payload_length_def)
  then have "IPv4Datagram_serialize (Router_forwarded dg) = Inl (RuntimeError ''wrong IP version'')"
    using header(2) pl(2) len by (intro IPv4Datagram_serialize_version)
      (simp_all add: Router_forwarded_def dg_def BufferList_size_def Buffer_size_def IPv4Header_payload_length_def u64_simps)
  moreover have "Router_hop (ip_dst (dg_header dg)) info = IPv4_address b p"
    using hop(1) by (simp add: Router_hop_def dg_def)
  ultimately have "NetworkInterface_send_datagram (ani_interface (rt_interfaces r ! ri_interface_num info)) (Router_forwarded dg) (Router_hop (ip_dst (dg_header dg)) info) =
      Inl (RuntimeError ''wrong IP version'')"
    using NetworkInterface_send_resolved [OF hop(2), of "Router_forwarded dg" p] by simp
  then show ?thesis
    using recv Router_route_received [OF i table(1) _ table(3) _ s_def, of] table(2) header(6) by (simp add: dg_def)
qed

theorem Router_crashes_on_version_witness:
  "\<exists>s. AsyncNetworkInterface_recv_frame (rt_interfaces example_router ! 0)
      \<lparr>ef_header = \<lparr>eh_dst = [2, 0, 0, 0, 0, 1], eh_src = [2, 0, 0, 0, 0, 9], eh_type = TYPE_IPv4\<rparr>,
       ef_payload = [Buffer_of (IPv4Header_bytes (IPv4Header_default\<lparr>ip_ver := 6, ip_len := 20, ip_dst := 0xc0a80105\<rparr>))]\<rparr> = Inr s \<and>
    Router_route (Router_received example_router 0 s) = Inl (RuntimeError ''wrong IP version'')"
proof -
  let ?h = "IPv4Header_default\<lparr>ip_ver := 6, ip_len := 20, ip_dst := 0xc0a80105\<rparr>"
  let ?info = "\<lparr>ri_router_prefix = 0xc0a80000, ri_prefix_length = 16, ri_next_hop = None, ri_interface_num = 1\<rparr>"
  have out: "ani_interface (rt_interfaces example_router ! 1) = example_interface 2 0xc0a80001"
    "ni_ethernet_address (ani_interface (rt_interfaces example_router ! 0)) = [2, 0, 0, 0, 0, 1]"
    by (simp_all add: example_router_def AsyncNetworkInterface_of_def example_interface_def)
  have "Router_hop (ip_dst ?h) ?info = IPv4_address 0xc0a80105 0"
    "IP2EthernetCache_get_cache (ni_ip_mac_map (ani_interface (rt_interfaces example_router ! ri_interface_num ?info))) 0xc0a80105 = Some [2, 0, 0, 0, 0, 5]"
    "unat (ip_ver ?h) < 16" "ip_ver ?h \<noteq> 4" "ip_hlen ?h = 5" "ip_offset ?h \<le> 0x1fff" "unat (ip_len ?h) = 20 + length ([] :: bytes)" "\<not> ip_ttl ?h \<le> 1"
    using out(1) by (simp_all add: Router_hop_def example_interface_def IP2EthernetCache_get_cache_def IPv4Header_default_def IPv4Header_LENGTH_def word_le_nat_alt)
  from Router_crashes_on_version [OF _ _ _ _ _ this, of 0] show ?thesis
    by (simp add: example_router_simps out(2))
qed

end
