(* ===== verification/Sponge_Buffer.thy ===== *)
theory Sponge_Buffer
  imports Sponge_Prelude
begin

text \<open>
  The byte storage of a stream, \<open>libsponge/buffer.hh\<close> and \<open>buffer.cc\<close> (namespace
  \<open>sponge\<close>): a \<open>Buffer\<close> is a shared string with a read position, a \<open>BufferList\<close> a
  deque of them. The locale \<open>byte_fifo\<close> is the contract a stream relies on; the deque is proved
  to be an instance of it.
\<close>

section \<open>Buffer\<close>

record sponge_Buffer =
  sb_storage :: "bytes option"
  sb_prefix_pointer :: size_t

definition sponge_Buffer_of :: "bytes \<Rightarrow> sponge_Buffer" where
  "sponge_Buffer_of str = \<lparr>sb_storage = Some str, sb_prefix_pointer = 0\<rparr>"

definition sponge_Buffer_remove_prefix :: "sponge_Buffer \<Rightarrow> size_t \<Rightarrow> sponge_Buffer res" where
  "sponge_Buffer_remove_prefix b n =
    (case sb_storage b of
       None \<Rightarrow> Inl NullDeref
     | Some s \<Rightarrow>
         if length s \<le> add64 (sb_prefix_pointer b) n
         then Inr (b\<lparr>sb_prefix_pointer := sub64 (length s) 1\<rparr>)
         else Inr (b\<lparr>sb_prefix_pointer := add64 (sb_prefix_pointer b) n\<rparr>))"

definition sponge_Buffer_get_string :: "sponge_Buffer \<Rightarrow> bytes" where
  "sponge_Buffer_get_string b =
    (case sb_storage b of None \<Rightarrow> [] | Some s \<Rightarrow> drop (sb_prefix_pointer b) s)"

definition sponge_Buffer_size :: "sponge_Buffer \<Rightarrow> size_t" where
  "sponge_Buffer_size b =
    (case sb_storage b of None \<Rightarrow> 0 | Some s \<Rightarrow> sub64 (length s) (sb_prefix_pointer b))"

section \<open>BufferList\<close>

type_synonym sponge_BufferList = "sponge_Buffer list"

fun sponge_BufferList_size :: "sponge_BufferList \<Rightarrow> size_t" where
  "sponge_BufferList_size bl = foldl (\<lambda>result b. add64 result (sponge_Buffer_size b)) 0 bl"

definition sponge_BufferList_push_back :: "bytes \<Rightarrow> sponge_BufferList \<Rightarrow> sponge_BufferList" where
  "sponge_BufferList_push_back str bl = bl @ [sponge_Buffer_of str]"

text \<open>The loop of \<open>peek_output\<close>; the argument is \<open>remain_size\<close>.\<close>

fun sponge_BufferList_peek_output :: "sponge_BufferList \<Rightarrow> size_t \<Rightarrow> bytes" where
  "sponge_BufferList_peek_output [] remain = []"
| "sponge_BufferList_peek_output (item # items) remain =
    (if sponge_Buffer_size item < remain
     then sponge_Buffer_get_string item @
       sponge_BufferList_peek_output items (remain - sponge_Buffer_size item)
     else take remain (sponge_Buffer_get_string item))"

text \<open>
  \<open>remove_prefix\<close> takes its argument by reference and leaves in it what could not be removed;
  the model returns it beside the new list.
\<close>

fun sponge_BufferList_remove_prefix ::
  "sponge_BufferList \<Rightarrow> size_t \<Rightarrow> (sponge_BufferList \<times> size_t) res" where
  "sponge_BufferList_remove_prefix [] n = (if n = 0 then Inr ([], 0) else Inl OutOfRange)"
| "sponge_BufferList_remove_prefix (b # bl) n =
    (if n = 0 then Inr (b # bl, 0)
     else if sponge_Buffer_size b \<le> n
     then sponge_BufferList_remove_prefix bl (n - sponge_Buffer_size b)
     else rbind (sponge_Buffer_remove_prefix b n) (\<lambda>b'. Inr (b' # bl, 0)))"

definition sponge_BufferList_empty :: "sponge_BufferList \<Rightarrow> bool" where
  "sponge_BufferList_empty bl \<longleftrightarrow> bl = []"

lemmas [sponge_eval] = sponge_Buffer_of_def sponge_Buffer_remove_prefix_def
  sponge_Buffer_get_string_def sponge_Buffer_size_def sponge_BufferList_push_back_def
  sponge_BufferList_empty_def

section \<open>The contract of a byte queue\<close>

locale byte_fifo =
  fixes wf :: "'b \<Rightarrow> bool"
    and content :: "'b \<Rightarrow> bytes"
    and size_of :: "'b \<Rightarrow> size_t"
    and push :: "bytes \<Rightarrow> 'b \<Rightarrow> 'b"
    and peek :: "'b \<Rightarrow> size_t \<Rightarrow> bytes"
    and remove :: "'b \<Rightarrow> size_t \<Rightarrow> ('b \<times> size_t) res"
  assumes size_of: "wf b \<Longrightarrow> size_of b = length (content b)"
    and content_bound: "wf b \<Longrightarrow> length (content b) < W64"
    and push_wf: "wf b \<Longrightarrow> length (content b) + length d < W64 \<Longrightarrow> wf (push d b)"
    and push_content: "wf b \<Longrightarrow> length (content b) + length d < W64 \<Longrightarrow> content (push d b) = content b @ d"
    and peek: "wf b \<Longrightarrow> peek b n = take n (content b)"
    and remove: "wf b \<Longrightarrow> n \<le> length (content b) \<Longrightarrow>
      \<exists>b'. remove b n = Inr (b', 0) \<and> wf b' \<and> content b' = drop n (content b)"
    and remove_throws: "wf b \<Longrightarrow> length (content b) < n \<Longrightarrow> remove b n = Inl OutOfRange"
begin

text \<open>A removal that returns has removed everything it was asked to, from the front.\<close>

lemma remove_Inr:
  assumes "wf b" "remove b n = Inr (b', left)"
  shows "wf b'" "left = 0" "n \<le> length (content b)" "content b' = drop n (content b)"
proof -
  show le: "n \<le> length (content b)"
    using assms(2) remove_throws [OF assms(1), of n] by (cases "length (content b) < n") auto
  show "wf b'" "left = 0" "content b' = drop n (content b)"
    using assms remove [OF assms(1) le] by auto
qed

lemma peek_then_remove:
  assumes "wf b" "remove b n = Inr (b', left)"
  shows "peek b n @ content b' = content b"
  using assms by (simp add: peek remove_Inr)

end

section \<open>The deque is a byte queue\<close>

definition sponge_Buffer_wf :: "sponge_Buffer \<Rightarrow> bool" where
  "sponge_Buffer_wf b \<longleftrightarrow>
    (case sb_storage b of None \<Rightarrow> False | Some s \<Rightarrow> sb_prefix_pointer b \<le> length s \<and> length s < W64)"

definition sponge_BufferList_content :: "sponge_BufferList \<Rightarrow> bytes" where
  "sponge_BufferList_content bl = concat (map sponge_Buffer_get_string bl)"

definition sponge_BufferList_wf :: "sponge_BufferList \<Rightarrow> bool" where
  "sponge_BufferList_wf bl \<longleftrightarrow>
    list_all sponge_Buffer_wf bl \<and> length (sponge_BufferList_content bl) < W64"

lemma sponge_content_simps [simp]:
  "sponge_BufferList_content [] = []"
  "sponge_BufferList_content (b # bl) = sponge_Buffer_get_string b @ sponge_BufferList_content bl"
  "sponge_BufferList_content (xs @ ys) = sponge_BufferList_content xs @ sponge_BufferList_content ys"
  by (simp_all add: sponge_BufferList_content_def)

lemma sponge_Buffer_size_eq:
  "sponge_Buffer_wf b \<Longrightarrow> sponge_Buffer_size b = length (sponge_Buffer_get_string b)"
  by (auto simp: sponge_Buffer_wf_def sponge_Buffer_size_def sponge_Buffer_get_string_def u64_simps
    split: option.splits)

lemma sponge_Buffer_of_wf [simp]:
  "length s < W64 \<Longrightarrow> sponge_Buffer_wf (sponge_Buffer_of s)"
  "sponge_Buffer_get_string (sponge_Buffer_of s) = s"
  by (simp_all add: sponge_Buffer_of_def sponge_Buffer_wf_def sponge_Buffer_get_string_def)

lemma sponge_Buffer_remove_prefix_ok:
  assumes "sponge_Buffer_wf b" "n < sponge_Buffer_size b"
  shows "\<exists>b'. sponge_Buffer_remove_prefix b n = Inr b' \<and> sponge_Buffer_wf b' \<and>
    sponge_Buffer_get_string b' = drop n (sponge_Buffer_get_string b)"
proof -
  obtain s where s: "sb_storage b = Some s" "sb_prefix_pointer b \<le> length s" "length s < W64"
    using assms(1) by (auto simp: sponge_Buffer_wf_def split: option.splits)
  then have n: "sb_prefix_pointer b + n < length s"
    using assms(2) by (simp add: sponge_Buffer_size_def u64_simps)
  with s show ?thesis
    by (auto simp: sponge_Buffer_remove_prefix_def sponge_Buffer_wf_def sponge_Buffer_get_string_def
      u64_simps add.commute)
qed

lemma sponge_BufferList_size_foldl:
  "list_all sponge_Buffer_wf bl \<Longrightarrow> n + length (sponge_BufferList_content bl) < W64 \<Longrightarrow>
    foldl (\<lambda>result b. add64 result (sponge_Buffer_size b)) n bl =
    n + length (sponge_BufferList_content bl)"
  by (induction bl arbitrary: n) (auto simp: sponge_Buffer_size_eq u64_simps)

lemma sponge_BufferList_peek_eq:
  "list_all sponge_Buffer_wf bl \<Longrightarrow>
    sponge_BufferList_peek_output bl n = take n (sponge_BufferList_content bl)"
  by (induction bl n rule: sponge_BufferList_peek_output.induct) (auto simp: sponge_Buffer_size_eq)

lemma sponge_BufferList_remove_ok:
  "list_all sponge_Buffer_wf bl \<Longrightarrow> n \<le> length (sponge_BufferList_content bl) \<Longrightarrow>
    \<exists>bl'. sponge_BufferList_remove_prefix bl n = Inr (bl', 0) \<and> list_all sponge_Buffer_wf bl' \<and>
      sponge_BufferList_content bl' = drop n (sponge_BufferList_content bl)"
proof (induction bl n rule: sponge_BufferList_remove_prefix.induct)
  case (2 b bl n)
  show ?case
  proof (cases "n = 0 \<or> sponge_Buffer_size b \<le> n")
    case True
    then show ?thesis
      using 2 by (auto simp: sponge_Buffer_size_eq)
  next
    case False
    then show ?thesis
      using "2.prems" sponge_Buffer_remove_prefix_ok [of b n] by (fastforce simp: sponge_Buffer_size_eq)
  qed
qed simp

lemma sponge_BufferList_remove_throws:
  "list_all sponge_Buffer_wf bl \<Longrightarrow> length (sponge_BufferList_content bl) < n \<Longrightarrow>
    sponge_BufferList_remove_prefix bl n = Inl OutOfRange"
  by (induction bl n rule: sponge_BufferList_remove_prefix.induct) (auto simp: sponge_Buffer_size_eq)

interpretation bl: byte_fifo sponge_BufferList_wf sponge_BufferList_content sponge_BufferList_size
  sponge_BufferList_push_back sponge_BufferList_peek_output sponge_BufferList_remove_prefix
proof unfold_locales
  fix b :: sponge_BufferList and d :: bytes and n :: nat
  assume wf: "sponge_BufferList_wf b"
  show "sponge_BufferList_size b = length (sponge_BufferList_content b)"
    using wf sponge_BufferList_size_foldl [of b 0] by (simp add: sponge_BufferList_wf_def)
  show "length (sponge_BufferList_content b) < W64"
    using wf by (simp add: sponge_BufferList_wf_def)
  show "sponge_BufferList_peek_output b n = take n (sponge_BufferList_content b)"
    using wf by (simp add: sponge_BufferList_wf_def sponge_BufferList_peek_eq)
  show "\<exists>b'. sponge_BufferList_remove_prefix b n = Inr (b', 0) \<and> sponge_BufferList_wf b' \<and>
      sponge_BufferList_content b' = drop n (sponge_BufferList_content b)"
    if "n \<le> length (sponge_BufferList_content b)"
    using wf sponge_BufferList_remove_ok [of b n] that by (auto simp: sponge_BufferList_wf_def)
  show "sponge_BufferList_remove_prefix b n = Inl OutOfRange"
    if "length (sponge_BufferList_content b) < n"
    using wf that by (simp add: sponge_BufferList_wf_def sponge_BufferList_remove_throws)
  assume "length (sponge_BufferList_content b) + length d < W64"
  then show "sponge_BufferList_wf (sponge_BufferList_push_back d b)"
    "sponge_BufferList_content (sponge_BufferList_push_back d b) = sponge_BufferList_content b @ d"
    using wf by (simp_all add: sponge_BufferList_wf_def sponge_BufferList_push_back_def)
qed

text \<open>
  \<open>empty\<close> asks whether the deque has an element, not whether a byte is left: the two agree as
  long as no buffer of the deque is empty.
\<close>

definition sponge_BufferList_tight :: "sponge_BufferList \<Rightarrow> bool" where
  "sponge_BufferList_tight bl \<longleftrightarrow> (\<forall>b \<in> set bl. sponge_Buffer_get_string b \<noteq> [])"

lemma tight_empty_iff:
  "sponge_BufferList_tight bl \<Longrightarrow> sponge_BufferList_empty bl \<longleftrightarrow> sponge_BufferList_content bl = []"
  by (cases bl) (auto simp: sponge_BufferList_tight_def sponge_BufferList_empty_def)

lemma tight_push:
  "sponge_BufferList_tight bl \<Longrightarrow> d \<noteq> [] \<Longrightarrow> sponge_BufferList_tight (sponge_BufferList_push_back d bl)"
  by (auto simp: sponge_BufferList_tight_def sponge_BufferList_push_back_def)

lemma tight_remove:
  "list_all sponge_Buffer_wf bl \<Longrightarrow> sponge_BufferList_tight bl \<Longrightarrow>
    sponge_BufferList_remove_prefix bl n = Inr (bl', m) \<Longrightarrow> sponge_BufferList_tight bl'"
proof (induction bl n rule: sponge_BufferList_remove_prefix.induct)
  case (2 b bl n)
  show ?case
  proof (cases "n = 0 \<or> sponge_Buffer_size b \<le> n")
    case True
    then show ?thesis
      using 2 by (auto simp: sponge_BufferList_tight_def split: if_splits)
  next
    case False
    with "2.prems" sponge_Buffer_remove_prefix_ok [of b n] obtain b' where
      "sponge_Buffer_remove_prefix b n = Inr b'" "sponge_Buffer_get_string b' = drop n (sponge_Buffer_get_string b)"
      by auto
    with False "2.prems" show ?thesis
      by (auto simp: sponge_BufferList_tight_def sponge_Buffer_size_eq)
  qed
qed (simp add: sponge_BufferList_tight_def split: if_splits)

text \<open>An empty buffer at the back is never removed: the loop stops once nothing is left to remove.\<close>

lemma remove_keeps_empty_last:
  "list_all sponge_Buffer_wf bl \<Longrightarrow> n \<le> length (sponge_BufferList_content bl) \<Longrightarrow>
    sponge_BufferList_remove_prefix (bl @ [sponge_Buffer_of []]) n = Inr (bl', m) \<Longrightarrow> bl' \<noteq> []"
proof (induction bl n rule: sponge_BufferList_remove_prefix.induct)
  case (2 b bl n)
  show ?case
  proof (cases "n = 0 \<or> sponge_Buffer_size b \<le> n")
    case True
    then show ?thesis
      using 2 by (auto simp: sponge_Buffer_size_eq split: if_splits)
  next
    case False
    with "2.prems" show ?thesis
      by (auto simp: rbind_Inr_iff)
  qed
qed auto

end
