(* ===== verification/Byte_Stream.thy ===== *)
theory Byte_Stream
  imports Sponge_Buffer
begin

text \<open>
  The flow-controlled in-memory stream of \<open>libsponge/byte_stream.hh\<close> and \<open>byte_stream.cc\<close>:
  the class as a record, its operations, its invariant, and the first-in-first-out property of a
  whole sequence of calls. A call that throws returns the error and ends the sequence.
\<close>

section \<open>The class\<close>

record ByteStream =
  bs_buffers :: sponge_BufferList
  bs_capacity :: size_t
  bs_bytes_read :: size_t
  bs_bytes_written :: size_t
  bs_input_end :: bool
  bs_error :: bool

definition ByteStream_make :: "size_t \<Rightarrow> ByteStream" where
  "ByteStream_make capacity = \<lparr>bs_buffers = [], bs_capacity = capacity, bs_bytes_read = 0,
     bs_bytes_written = 0, bs_input_end = False, bs_error = False\<rparr>"

definition ByteStream_buffer_size :: "ByteStream \<Rightarrow> size_t" where
  "ByteStream_buffer_size s = sponge_BufferList_size (bs_buffers s)"

definition ByteStream_remaining_capacity :: "ByteStream \<Rightarrow> size_t" where
  "ByteStream_remaining_capacity s = sub64 (bs_capacity s) (sponge_BufferList_size (bs_buffers s))"

definition ByteStream_write :: "ByteStream \<Rightarrow> bytes \<Rightarrow> size_t \<times> ByteStream" where
  "ByteStream_write s data =
    (if data = [] then (0, s)
     else let capacity = ByteStream_remaining_capacity s;
              written_size = (if capacity < length data then capacity else length data)
          in (written_size,
              s\<lparr>bs_bytes_written := add64 (bs_bytes_written s) written_size,
                bs_buffers := sponge_BufferList_push_back (take written_size data) (bs_buffers s)\<rparr>))"

definition ByteStream_peek_output :: "ByteStream \<Rightarrow> size_t \<Rightarrow> bytes" where
  "ByteStream_peek_output s len = sponge_BufferList_peek_output (bs_buffers s) len"

definition ByteStream_pop_output :: "ByteStream \<Rightarrow> size_t \<Rightarrow> ByteStream res" where
  "ByteStream_pop_output s len =
    rbind (sponge_BufferList_remove_prefix (bs_buffers s) len) (\<lambda>(buffers, len_left).
      Inr (s\<lparr>bs_buffers := buffers, bs_bytes_read := add64 (bs_bytes_read s) (sub64 len len_left)\<rparr>))"

definition ByteStream_read :: "ByteStream \<Rightarrow> size_t \<Rightarrow> (bytes \<times> ByteStream) res" where
  "ByteStream_read s len =
    (let result = sponge_BufferList_peek_output (bs_buffers s) len;
         s1 = s\<lparr>bs_bytes_read := add64 (bs_bytes_read s) (length result)\<rparr>
     in rbind (sponge_BufferList_remove_prefix (bs_buffers s1) len) (\<lambda>(buffers, len_left).
          Inr (result, s1\<lparr>bs_buffers := buffers\<rparr>)))"

definition ByteStream_end_input :: "ByteStream \<Rightarrow> ByteStream" where
  "ByteStream_end_input s = s\<lparr>bs_input_end := True\<rparr>"

definition ByteStream_set_error :: "ByteStream \<Rightarrow> ByteStream" where
  "ByteStream_set_error s = s\<lparr>bs_error := True\<rparr>"

definition ByteStream_buffer_empty :: "ByteStream \<Rightarrow> bool" where
  "ByteStream_buffer_empty s \<longleftrightarrow> sponge_BufferList_empty (bs_buffers s)"

definition ByteStream_eof :: "ByteStream \<Rightarrow> bool" where
  "ByteStream_eof s \<longleftrightarrow> bs_input_end s \<and> sponge_BufferList_empty (bs_buffers s)"

lemmas [sponge_eval] = ByteStream_make_def ByteStream_buffer_size_def
  ByteStream_remaining_capacity_def ByteStream_write_def ByteStream_peek_output_def
  ByteStream_pop_output_def ByteStream_read_def ByteStream_end_input_def ByteStream_set_error_def
  ByteStream_buffer_empty_def ByteStream_eof_def

section \<open>Invariant\<close>

definition ByteStream_content :: "ByteStream \<Rightarrow> bytes" where
  "ByteStream_content s = sponge_BufferList_content (bs_buffers s)"

definition ByteStream_inv :: "ByteStream \<Rightarrow> bool" where
  "ByteStream_inv s \<longleftrightarrow>
    sponge_BufferList_wf (bs_buffers s) \<and>
    length (ByteStream_content s) \<le> bs_capacity s \<and> bs_capacity s < W64 \<and>
    bs_bytes_written s = add64 (bs_bytes_read s) (length (ByteStream_content s))"

lemma ByteStream_content_update [simp]:
  "ByteStream_content (s\<lparr>bs_buffers := bl'\<rparr>) = sponge_BufferList_content bl'"
  "ByteStream_content (s\<lparr>bs_bytes_read := n\<rparr>) = ByteStream_content s"
  by (simp_all add: ByteStream_content_def)

lemma ByteStream_inv_make [simp]: "capacity < W64 \<Longrightarrow> ByteStream_inv (ByteStream_make capacity)"
  by (simp add: ByteStream_inv_def ByteStream_make_def ByteStream_content_def sponge_BufferList_wf_def)

lemma ByteStream_buffer_size_eq [simp]:
  "ByteStream_inv s \<Longrightarrow> ByteStream_buffer_size s = length (ByteStream_content s)"
  by (simp add: ByteStream_inv_def ByteStream_buffer_size_def ByteStream_content_def bl.size_of
    del: sponge_BufferList_size.simps)

lemma ByteStream_remaining_eq [simp]:
  "ByteStream_inv s \<Longrightarrow> ByteStream_remaining_capacity s = bs_capacity s - length (ByteStream_content s)"
  by (simp add: ByteStream_inv_def ByteStream_remaining_capacity_def ByteStream_content_def bl.size_of
    u64_simps del: sponge_BufferList_size.simps)

text \<open>
  Every operation is described by what it does to the content; the counters and the invariant
  follow along.
\<close>

lemma ByteStream_write_spec:
  assumes "ByteStream_inv s" "ByteStream_write s data = (n, s')"
  shows "n = min (length data) (bs_capacity s - length (ByteStream_content s))"
    "ByteStream_content s' = ByteStream_content s @ take n data"
    "ByteStream_inv s'"
    "bs_capacity s' = bs_capacity s" "bs_input_end s' = bs_input_end s" "bs_error s' = bs_error s"
    "bs_bytes_read s' = bs_bytes_read s"
    "bs_bytes_written s' = (if data = [] then bs_bytes_written s else add64 (bs_bytes_written s) n)"
proof -
  have wf: "sponge_BufferList_wf (bs_buffers s)"
    and cap: "length (sponge_BufferList_content (bs_buffers s)) \<le> bs_capacity s" "bs_capacity s < W64"
    using assms(1) by (simp_all add: ByteStream_inv_def ByteStream_content_def)
  show n: "n = min (length data) (bs_capacity s - length (ByteStream_content s))"
    using assms by (auto simp: ByteStream_write_def Let_def split: if_splits)
  have room: "length (sponge_BufferList_content (bs_buffers s)) + length (take n data) < W64"
    using n cap by (simp add: ByteStream_content_def)
  have s': "s' = (if data = [] then s else s\<lparr>bs_bytes_written := add64 (bs_bytes_written s) n,
      bs_buffers := sponge_BufferList_push_back (take n data) (bs_buffers s)\<rparr>)"
    using assms by (auto simp: ByteStream_write_def Let_def split: if_splits)
  show c: "ByteStream_content s' = ByteStream_content s @ take n data"
    using s' bl.push_content [OF wf room] by (auto simp: ByteStream_content_def)
  show "ByteStream_inv s'"
    using s' c n assms(1) bl.push_wf [OF wf room]
    by (auto simp: ByteStream_inv_def)
  show "bs_capacity s' = bs_capacity s" "bs_input_end s' = bs_input_end s" "bs_error s' = bs_error s"
    "bs_bytes_read s' = bs_bytes_read s"
    "bs_bytes_written s' = (if data = [] then bs_bytes_written s else add64 (bs_bytes_written s) n)"
    using s' by auto
qed

lemma ByteStream_peek_spec:
  "ByteStream_inv s \<Longrightarrow> ByteStream_peek_output s len = take len (ByteStream_content s)"
  by (simp add: ByteStream_inv_def ByteStream_peek_output_def ByteStream_content_def bl.peek)

lemma ByteStream_pop_throws:
  "ByteStream_inv s \<Longrightarrow> length (ByteStream_content s) < len \<Longrightarrow> ByteStream_pop_output s len = Inl OutOfRange"
  by (simp add: ByteStream_inv_def ByteStream_content_def ByteStream_pop_output_def bl.remove_throws)

lemma ByteStream_pop_ok:
  assumes "ByteStream_inv s" "len \<le> length (ByteStream_content s)"
  obtains bl' where
    "ByteStream_pop_output s len =
      Inr (s\<lparr>bs_buffers := bl', bs_bytes_read := add64 (bs_bytes_read s) len\<rparr>)"
    "sponge_BufferList_remove_prefix (bs_buffers s) len = Inr (bl', 0)"
    "sponge_BufferList_content bl' = drop len (ByteStream_content s)"
    "ByteStream_inv (s\<lparr>bs_buffers := bl', bs_bytes_read := add64 (bs_bytes_read s) len\<rparr>)"
proof -
  have wf: "sponge_BufferList_wf (bs_buffers s)"
    and cap: "length (ByteStream_content s) \<le> bs_capacity s" "bs_capacity s < W64"
    using assms(1) by (simp_all add: ByteStream_inv_def)
  obtain bl' where bl': "sponge_BufferList_remove_prefix (bs_buffers s) len = Inr (bl', 0)"
    "sponge_BufferList_wf bl'" "sponge_BufferList_content bl' = drop len (ByteStream_content s)"
    using bl.remove [OF wf] assms(2) by (auto simp: ByteStream_content_def)
  show thesis
    by (rule that [of bl'], insert bl' assms cap)
      (auto simp: ByteStream_pop_output_def ByteStream_content_def ByteStream_inv_def)
qed

lemma ByteStream_read_throws:
  "ByteStream_inv s \<Longrightarrow> length (ByteStream_content s) < len \<Longrightarrow> ByteStream_read s len = Inl OutOfRange"
  by (simp add: ByteStream_inv_def ByteStream_content_def ByteStream_read_def bl.remove_throws)

text \<open>Within the content, a read is a peek followed by a pop.\<close>

lemma ByteStream_read_eq:
  assumes "ByteStream_inv s" "len \<le> length (ByteStream_content s)"
  shows "ByteStream_read s len =
    rbind (ByteStream_pop_output s len) (\<lambda>s'. Inr (take len (ByteStream_content s), s'))"
proof -
  have "sponge_BufferList_peek_output (bs_buffers s) len = take len (ByteStream_content s)"
    using ByteStream_peek_spec [OF assms(1)] by (simp add: ByteStream_peek_output_def)
  moreover obtain bl' where "sponge_BufferList_remove_prefix (bs_buffers s) len = Inr (bl', 0)"
    "ByteStream_pop_output s len = Inr (s\<lparr>bs_buffers := bl', bs_bytes_read := add64 (bs_bytes_read s) len\<rparr>)"
    using ByteStream_pop_ok [OF assms] by metis
  ultimately show ?thesis
    using assms(2) by (simp add: ByteStream_read_def)
qed

lemma ByteStream_end_input_spec [simp]:
  "ByteStream_inv (ByteStream_end_input s) = ByteStream_inv s"
  "ByteStream_content (ByteStream_end_input s) = ByteStream_content s"
  by (simp_all add: ByteStream_inv_def ByteStream_end_input_def ByteStream_content_def)

lemma ByteStream_end_input_fields [simp]:
  "bs_capacity (ByteStream_end_input s) = bs_capacity s"
  "bs_bytes_written (ByteStream_end_input s) = bs_bytes_written s"
  "bs_bytes_read (ByteStream_end_input s) = bs_bytes_read s"
  "bs_input_end (ByteStream_end_input s)"
  "bs_error (ByteStream_end_input s) = bs_error s"
  by (simp_all add: ByteStream_end_input_def)

lemma ByteStream_set_error_fields [simp]:
  "bs_capacity (ByteStream_set_error s) = bs_capacity s"
  "bs_bytes_written (ByteStream_set_error s) = bs_bytes_written s"
  "bs_bytes_read (ByteStream_set_error s) = bs_bytes_read s"
  "bs_input_end (ByteStream_set_error s) = bs_input_end s"
  "bs_error (ByteStream_set_error s)"
  by (simp_all add: ByteStream_set_error_def)

lemma ByteStream_set_error_spec [simp]:
  "ByteStream_inv (ByteStream_set_error s) = ByteStream_inv s"
  "ByteStream_content (ByteStream_set_error s) = ByteStream_content s"
  by (simp_all add: ByteStream_inv_def ByteStream_set_error_def ByteStream_content_def)

section \<open>Sequences of calls\<close>

text \<open>
  A stream together with the history of its use: the bytes the writer got accepted and the bytes
  the reader took out, in order.
\<close>

datatype ByteStream_op =
    Write bytes
  | Pop size_t
  | Read size_t
  | EndInput
  | SetError

record ByteStream_log =
  log_stream :: ByteStream
  log_accepted :: bytes
  log_delivered :: bytes

fun ByteStream_log_step :: "ByteStream_log \<Rightarrow> ByteStream_op \<Rightarrow> ByteStream_log res" where
  "ByteStream_log_step l (Write data) =
    (let (n, s) = ByteStream_write (log_stream l) data
     in Inr (l\<lparr>log_stream := s, log_accepted := log_accepted l @ take n data\<rparr>))"
| "ByteStream_log_step l (Pop len) =
    rbind (ByteStream_pop_output (log_stream l) len) (\<lambda>s.
      Inr (l\<lparr>log_stream := s,
        log_delivered := log_delivered l @ ByteStream_peek_output (log_stream l) len\<rparr>))"
| "ByteStream_log_step l (Read len) =
    rbind (ByteStream_read (log_stream l) len) (\<lambda>(result, s).
      Inr (l\<lparr>log_stream := s, log_delivered := log_delivered l @ result\<rparr>))"
| "ByteStream_log_step l EndInput = Inr (l\<lparr>log_stream := ByteStream_end_input (log_stream l)\<rparr>)"
| "ByteStream_log_step l SetError = Inr (l\<lparr>log_stream := ByteStream_set_error (log_stream l)\<rparr>)"

definition ByteStream_log_make :: "size_t \<Rightarrow> ByteStream_log" where
  "ByteStream_log_make capacity =
    \<lparr>log_stream = ByteStream_make capacity, log_accepted = [], log_delivered = []\<rparr>"

text \<open>The only calls that throw are those that take out more than the stream holds.\<close>

fun ByteStream_op_ok :: "ByteStream_log \<Rightarrow> ByteStream_op \<Rightarrow> bool" where
  "ByteStream_op_ok l (Pop len) = (len \<le> ByteStream_buffer_size (log_stream l))"
| "ByteStream_op_ok l (Read len) = (len \<le> ByteStream_buffer_size (log_stream l))"
| "ByteStream_op_ok l c = True"

definition ByteStream_log_inv :: "size_t \<Rightarrow> ByteStream_log \<Rightarrow> bool" where
  "ByteStream_log_inv capacity l \<longleftrightarrow>
    ByteStream_inv (log_stream l) \<and> bs_capacity (log_stream l) = capacity \<and>
    log_accepted l = log_delivered l @ ByteStream_content (log_stream l)"

lemma ByteStream_log_step_safe:
  assumes "ByteStream_log_inv capacity l" "ByteStream_op_ok l c"
  shows "\<exists>l'. ByteStream_log_step l c = Inr l' \<and> ByteStream_log_inv capacity l'"
proof -
  have inv: "ByteStream_inv (log_stream l)" and cap: "bs_capacity (log_stream l) = capacity"
    and acc: "log_accepted l = log_delivered l @ ByteStream_content (log_stream l)"
    using assms(1) by (simp_all add: ByteStream_log_inv_def)
  show ?thesis
  proof (cases c)
    case (Write data)
    obtain n s where w: "ByteStream_write (log_stream l) data = (n, s)"
      by fastforce
    show ?thesis
      using ByteStream_write_spec [OF inv w] Write w cap acc by (simp add: ByteStream_log_inv_def)
  next
    case (Pop len)
    then have "len \<le> length (ByteStream_content (log_stream l))"
      using assms(2) inv by simp
    from inv this show ?thesis
      by (rule ByteStream_pop_ok) (use Pop cap acc inv in
        \<open>simp add: ByteStream_log_inv_def ByteStream_peek_spec\<close>)
  next
    case (Read len)
    then have len: "len \<le> length (ByteStream_content (log_stream l))"
      using assms(2) inv by simp
    from inv len show ?thesis
      by (rule ByteStream_pop_ok) (use Read cap acc ByteStream_read_eq [OF inv len] in
        \<open>simp add: ByteStream_log_inv_def\<close>)
  qed (use inv cap acc in \<open>simp_all add: ByteStream_log_inv_def ByteStream_end_input_def ByteStream_set_error_def ByteStream_inv_def ByteStream_content_def\<close>)
qed

interpretation bs_log: safe_component ByteStream_log_step ByteStream_op_ok "ByteStream_log_inv capacity"
  for capacity
  by unfold_locales (rule ByteStream_log_step_safe)

lemma ByteStream_log_inv_make:
  "capacity < W64 \<Longrightarrow> ByteStream_log_inv capacity (ByteStream_log_make capacity)"
  by (simp add: ByteStream_log_inv_def ByteStream_log_make_def)
    (simp add: ByteStream_make_def ByteStream_content_def)

section \<open>End of stream\<close>

text \<open>
  The end-of-stream flag is exact on streams whose deque has no empty buffer. This is kept by
  every operation except a write of a non-empty string into a full stream.
\<close>

definition ByteStream_tight :: "ByteStream \<Rightarrow> bool" where
  "ByteStream_tight s \<longleftrightarrow> sponge_BufferList_tight (bs_buffers s)"

lemma ByteStream_tight_make [simp]: "ByteStream_tight (ByteStream_make capacity)"
  by (simp add: ByteStream_tight_def ByteStream_make_def sponge_BufferList_tight_def)

lemma ByteStream_tight_flags [simp]:
  "ByteStream_tight (ByteStream_end_input s) = ByteStream_tight s"
  "ByteStream_tight (ByteStream_set_error s) = ByteStream_tight s"
  by (simp_all add: ByteStream_tight_def ByteStream_end_input_def ByteStream_set_error_def)

lemma ByteStream_tight_eof:
  "ByteStream_inv s \<Longrightarrow> ByteStream_tight s \<Longrightarrow>
    ByteStream_eof s \<longleftrightarrow> bs_input_end s \<and> ByteStream_content s = []"
  by (simp add: ByteStream_eof_def ByteStream_tight_def tight_empty_iff ByteStream_content_def)

lemma ByteStream_tight_write:
  assumes "ByteStream_tight s" "ByteStream_write s data = (n, s')"
    "data = [] \<or> 0 < ByteStream_remaining_capacity s"
  shows "ByteStream_tight s'"
  using assms tight_push [of "bs_buffers s" "take n data"]
  by (auto simp: ByteStream_write_def ByteStream_tight_def Let_def split: if_splits)

lemma ByteStream_tight_pop:
  assumes "ByteStream_inv s" "ByteStream_tight s" "ByteStream_pop_output s len = Inr s'"
  shows "ByteStream_tight s'"
  using assms tight_remove [of "bs_buffers s" len]
  by (auto simp: ByteStream_pop_output_def ByteStream_tight_def ByteStream_inv_def
    sponge_BufferList_wf_def rbind_Inr_iff)

lemma ByteStream_tight_read:
  assumes "ByteStream_inv s" "ByteStream_tight s" "ByteStream_read s len = Inr (d, s')"
  shows "ByteStream_tight s'"
  using assms tight_remove [of "bs_buffers s" len]
  by (auto simp: ByteStream_read_def ByteStream_tight_def ByteStream_inv_def
    sponge_BufferList_wf_def rbind_Inr_iff Let_def)

fun ByteStream_op_tight :: "ByteStream_log \<Rightarrow> ByteStream_op \<Rightarrow> bool" where
  "ByteStream_op_tight l (Write data) = (data = [] \<or> 0 < ByteStream_remaining_capacity (log_stream l))"
| "ByteStream_op_tight l c = ByteStream_op_ok l c"

lemma ByteStream_log_step_tight:
  assumes "ByteStream_log_inv capacity l \<and> ByteStream_tight (log_stream l)" "ByteStream_op_tight l c"
  shows "\<exists>l'. ByteStream_log_step l c = Inr l' \<and>
    ByteStream_log_inv capacity l' \<and> ByteStream_tight (log_stream l')"
proof -
  have "ByteStream_op_ok l c"
    using assms(2) by (cases c) auto
  then obtain l' where l': "ByteStream_log_step l c = Inr l'" "ByteStream_log_inv capacity l'"
    using ByteStream_log_step_safe assms(1) by blast
  have inv: "ByteStream_inv (log_stream l)"
    using assms(1) by (simp add: ByteStream_log_inv_def)
  have "ByteStream_tight (log_stream l')"
  proof (cases c)
    case (Write data)
    then show ?thesis
      using l' assms ByteStream_tight_write by (auto split: prod.splits)
  next
    case (Pop len)
    then show ?thesis
      using l' assms inv ByteStream_tight_pop by (auto simp: rbind_Inr_iff)
  next
    case (Read len)
    then show ?thesis
      using l' assms inv ByteStream_tight_read by (auto simp: rbind_Inr_iff)
  qed (use l' assms in auto)
  with l' show ?thesis by blast
qed

interpretation bs_tight: safe_component ByteStream_log_step ByteStream_op_tight
  "\<lambda>l. ByteStream_log_inv capacity l \<and> ByteStream_tight (log_stream l)"
  for capacity
  by unfold_locales (rule ByteStream_log_step_tight)

section \<open>Properties\<close>

text \<open>C5: the stream is first in, first out and bounded. Whatever sequence of writes, pops, reads
  and end or error signals is applied to a fresh stream, no call throws as long as none takes out
  more bytes than the stream holds; the bytes accepted from the writer are then exactly the bytes
  delivered to the reader followed by the bytes still buffered, of which there are never more than
  the capacity.\<close>

theorem ByteStream_fifo:
  assumes "capacity < W64"
    and "admissible ByteStream_log_step ByteStream_op_ok (ByteStream_log_make capacity) ops"
  shows "\<exists>l. run_ops ByteStream_log_step (ByteStream_log_make capacity) ops = Inr l \<and>
    log_accepted l = log_delivered l @ ByteStream_peek_output (log_stream l) (ByteStream_buffer_size (log_stream l)) \<and>
    ByteStream_buffer_size (log_stream l) \<le> capacity \<and>
    bs_bytes_written (log_stream l) = add64 (bs_bytes_read (log_stream l)) (ByteStream_buffer_size (log_stream l))"
proof -
  obtain l where l: "run_ops ByteStream_log_step (ByteStream_log_make capacity) ops = Inr l"
    "ByteStream_log_inv capacity l"
    using bs_log.run_safe [OF ByteStream_log_inv_make [OF assms(1)] assms(2)] by blast
  then show ?thesis
    by (auto simp: ByteStream_log_inv_def ByteStream_peek_spec) (simp_all add: ByteStream_inv_def)
qed

theorem ByteStream_fifo_witness:
  "(4 :: nat) < W64 \<and>
   admissible ByteStream_log_step ByteStream_op_ok (ByteStream_log_make 4) [Write [1, 2, 3], Read 2, Write [4, 5, 6, 7], Pop 1, EndInput] \<and>
   (\<exists>l. run_ops ByteStream_log_step (ByteStream_log_make 4) [Write [1, 2, 3], Read 2, Write [4, 5, 6, 7], Pop 1, EndInput] = Inr l \<and>
    log_accepted l = log_delivered l @ ByteStream_peek_output (log_stream l) (ByteStream_buffer_size (log_stream l)))"
proof -
  have h1: "(4 :: nat) < W64"
    by (simp add: W64_def)
  have h2: "admissible ByteStream_log_step ByteStream_op_ok (ByteStream_log_make 4)
    [Write [1, 2, 3], Read 2, Write [4, 5, 6, 7], Pop 1, EndInput]"
    by (simp add: sponge_eval ByteStream_log_make_def)
  show ?thesis
    using h1 h2 ByteStream_fifo [OF h1 h2] by blast
qed

text \<open>As long as no non-empty string is written into a full stream, \<open>eof\<close> answers exactly
  whether the input has ended and every byte has been taken out.\<close>

lemma ByteStream_eof_exact:
  assumes "capacity < W64"
    and "admissible ByteStream_log_step ByteStream_op_tight (ByteStream_log_make capacity) ops"
  shows "\<exists>l. run_ops ByteStream_log_step (ByteStream_log_make capacity) ops = Inr l \<and>
    (ByteStream_eof (log_stream l) \<longleftrightarrow>
      bs_input_end (log_stream l) \<and> log_delivered l = log_accepted l)"
proof -
  obtain l where "run_ops ByteStream_log_step (ByteStream_log_make capacity) ops = Inr l"
    "ByteStream_log_inv capacity l" "ByteStream_tight (log_stream l)"
    using bs_tight.run_safe [of capacity "ByteStream_log_make capacity" ops]
      ByteStream_log_inv_make [OF assms(1)] assms(2) by (auto simp: ByteStream_log_make_def)
  then show ?thesis
    by (auto simp: ByteStream_log_inv_def ByteStream_tight_eof)
qed

lemma ByteStream_eof_exact_witness:
  "(2 :: nat) < W64 \<and>
   admissible ByteStream_log_step ByteStream_op_tight (ByteStream_log_make 2) [Write [1, 2, 3], EndInput, Pop 2] \<and>
   (\<exists>l. run_ops ByteStream_log_step (ByteStream_log_make 2) [Write [1, 2, 3], EndInput, Pop 2] = Inr l \<and>
    (ByteStream_eof (log_stream l) \<longleftrightarrow> bs_input_end (log_stream l) \<and> log_delivered l = log_accepted l))"
proof -
  have h1: "(2 :: nat) < W64"
    by (simp add: W64_def)
  have h2: "admissible ByteStream_log_step ByteStream_op_tight (ByteStream_log_make 2)
    [Write [1, 2, 3], EndInput, Pop 2]"
    by (simp add: sponge_eval ByteStream_log_make_def)
  show ?thesis
    using h1 h2 ByteStream_eof_exact [OF h1 h2] by blast
qed

text \<open>A write of a non-empty string into a full stream is not harmless. It accepts nothing but
  leaves an empty buffer in the deque, so that after the reader has taken every byte out and the
  writer has ended the input the stream still denies \<open>eof\<close> and \<open>buffer_empty\<close>.\<close>

lemma ByteStream_write_full_hides_eof:
  assumes "ByteStream_inv s" "ByteStream_remaining_capacity s = 0" "data \<noteq> []"
    and "ByteStream_write s data = (n, s1)"
    and "ByteStream_read s1 (ByteStream_buffer_size s1) = Inr (d, s2)"
  shows "n = 0 \<and> ByteStream_buffer_size s2 = 0 \<and> \<not> ByteStream_buffer_empty s2 \<and>
    \<not> ByteStream_eof (ByteStream_end_input s2)"
proof -
  have n: "n = 0" and b: "bs_buffers s1 = bs_buffers s @ [sponge_Buffer_of []]"
    using assms(2-4) by (auto simp: ByteStream_write_def sponge_BufferList_push_back_def)
  have inv1: "ByteStream_inv s1" and c1: "ByteStream_content s1 = ByteStream_content s"
    using ByteStream_write_spec [OF assms(1,4)] n by simp_all
  have wf: "list_all sponge_Buffer_wf (bs_buffers s)"
    using assms(1) by (simp add: ByteStream_inv_def sponge_BufferList_wf_def)
  obtain m where "sponge_BufferList_remove_prefix (bs_buffers s @ [sponge_Buffer_of []])
      (length (sponge_BufferList_content (bs_buffers s))) = Inr (bs_buffers s2, m)"
    using assms(5) inv1 c1 b by (auto simp: ByteStream_read_def Let_def rbind_Inr_iff ByteStream_content_def)
  then have ne: "bs_buffers s2 \<noteq> []"
    by (rule remove_keeps_empty_last [OF wf order_refl])
  have le: "length (ByteStream_content s) \<le> length (ByteStream_content s1)"
    by (simp add: c1)
  obtain s' where "ByteStream_pop_output s1 (length (ByteStream_content s)) = Inr s'"
    "ByteStream_content s' = []" "ByteStream_inv s'"
    by (rule ByteStream_pop_ok [OF inv1 le]) (use c1 in simp)
  moreover from this have "s' = s2"
    using assms(5) ByteStream_read_eq [OF inv1 le] c1 inv1 by simp
  ultimately show ?thesis
    using n ne by (simp add: ByteStream_buffer_empty_def ByteStream_eof_def ByteStream_end_input_def
      sponge_BufferList_empty_def)
qed

lemma ByteStream_write_full_hides_eof_witness:
  "\<exists>s s1 s2 d. ByteStream_inv s \<and> ByteStream_remaining_capacity s = 0 \<and> ByteStream_write s [9] = (0, s1) \<and>
    ByteStream_read s1 (ByteStream_buffer_size s1) = Inr (d, s2) \<and>
    ByteStream_buffer_size s2 = 0 \<and> \<not> ByteStream_eof (ByteStream_end_input s2)"
proof -
  define s where "s = snd (ByteStream_write (ByteStream_make 2) [1, 2])"
  define s1 where "s1 = snd (ByteStream_write s [9])"
  define r where "r = projr (ByteStream_read s1 (ByteStream_buffer_size s1))"
  have "ByteStream_inv (ByteStream_make 2)"
    by (simp add: W64_def)
  then have h1: "ByteStream_inv s"
    unfolding s_def by (rule ByteStream_write_spec(3)) (rule surjective_pairing)
  have h2: "ByteStream_remaining_capacity s = 0"
    unfolding s_def by (simp add: sponge_eval ByteStream_log_make_def)
  have h3: "([9] :: bytes) \<noteq> []"
    by simp
  have h4: "ByteStream_write s [9] = (0, s1)"
    unfolding s_def s1_def by (simp add: sponge_eval ByteStream_log_make_def)
  have h5: "ByteStream_read s1 (ByteStream_buffer_size s1) = Inr (fst r, snd r)"
    unfolding s_def s1_def r_def by (simp add: sponge_eval ByteStream_log_make_def)
  show ?thesis
    using h1 h2 h4 h5 ByteStream_write_full_hides_eof [OF h1 h2 h3 h4 h5] by blast
qed

end
