(* ===== verification/Segments.thy ===== *)
theory Segments
  imports Sponge_Prelude
begin

text \<open>
  What a store of out-of-order substrings is for: a sorted list of separated segments of a stream,
  a reference insertion, and the map from stream indices to bytes that such a list stands for. The
  deque of \<open>libsponge/buffer_string.cc\<close> is proved to implement it, and the reassembler is
  verified against it.
\<close>

section \<open>Sorted, separated segments\<close>

datatype seg = Seg (seg_start: nat) (seg_bytes: bytes) (seg_eof: bool)

definition seg_end :: "seg \<Rightarrow> nat" where
  "seg_end x = seg_start x + length (seg_bytes x)"

lemma seg_end_Seg [simp]: "seg_end (Seg i d e) = i + length d"
  by (simp add: seg_end_def)

lemma seg_start_le_end [simp]: "seg_start x \<le> seg_end x"
  by (simp add: seg_end_def)

definition segs_wf :: "seg list \<Rightarrow> bool" where
  "segs_wf l \<longleftrightarrow> sorted_wrt (\<lambda>x y. seg_end x < seg_start y) l \<and> (\<forall>x \<in> set l. seg_end x < W64)"

text \<open>
  The reference insertion: the segments to the left of the new one, those that touch it, those to
  its right. A segment contained in the first one it touches changes nothing; otherwise everything
  it touches is replaced by one segment.
\<close>

definition seg_merge :: "seg \<Rightarrow> seg list \<Rightarrow> bool \<Rightarrow> seg" where
  "seg_merge x touched at_end =
    (let a = hd touched; z = last touched in
      Seg (min (seg_start a) (seg_start x))
        (take (seg_start x - seg_start a) (seg_bytes a) @ seg_bytes x @
          drop (seg_end x - seg_start z) (seg_bytes z))
        (seg_eof x \<or> at_end \<and> seg_eof z))"

definition seg_insert :: "seg \<Rightarrow> seg list \<Rightarrow> seg list" where
  "seg_insert x l =
    (let before = takeWhile (\<lambda>y. seg_end y < seg_start x) l;
         rest = dropWhile (\<lambda>y. seg_end y < seg_start x) l;
         touched = takeWhile (\<lambda>y. seg_start y \<le> seg_end x) rest;
         beyond = dropWhile (\<lambda>y. seg_start y \<le> seg_end x) rest
     in if touched = [] then before @ x # beyond
        else if seg_start (hd touched) \<le> seg_start x \<and> seg_end x \<le> seg_end (hd touched) then l
        else before @ seg_merge x touched (beyond = []) # beyond)"

text \<open>A well-formed list splits around the new segment.\<close>

lemma segs_wf_split:
  assumes "segs_wf l"
  obtains A M B where "l = A @ M @ B"
    "\<And>y. y \<in> set A \<Longrightarrow> seg_end y < seg_start x"
    "\<And>y. y \<in> set M \<Longrightarrow> seg_start x \<le> seg_end y \<and> seg_start y \<le> seg_end x"
    "\<And>y. y \<in> set B \<Longrightarrow> seg_end x < seg_start y"
    "takeWhile (\<lambda>y. seg_end y < seg_start x) l = A"
    "dropWhile (\<lambda>y. seg_end y < seg_start x) l = M @ B"
    "takeWhile (\<lambda>y. seg_start y \<le> seg_end x) (M @ B) = M"
    "dropWhile (\<lambda>y. seg_start y \<le> seg_end x) (M @ B) = B"
proof -
  let ?p = "\<lambda>y. seg_end y < seg_start x" and ?q = "\<lambda>y. seg_start y \<le> seg_end x"
  define A R where "A = takeWhile ?p l" and "R = dropWhile ?p l"
  define M B where "M = takeWhile ?q R" and "B = dropWhile ?q R"
  have l: "l = A @ M @ B"
    by (simp add: A_def R_def M_def B_def)
  have R: "R = M @ B"
    by (simp add: M_def B_def)
  have sorted: "sorted_wrt (\<lambda>x y. seg_end x < seg_start y) (A @ M @ B)"
    using assms l by (simp add: segs_wf_def)
  have R_ge: "seg_start x \<le> seg_end y" if "y \<in> set R" for y
  proof (cases R)
    case (Cons r R')
    then have "\<not> ?p r"
      using hd_dropWhile [of ?p l] by (simp add: R_def)
    moreover have "sorted_wrt (\<lambda>x y. seg_end x < seg_start y) (r # R')"
      using sorted unfolding R [symmetric] Cons by (simp add: sorted_wrt_append)
    then have "seg_end r \<le> seg_end y"
      using that Cons by (auto intro: order_trans [OF less_imp_le_nat seg_start_le_end])
    ultimately show ?thesis by simp
  qed (use that in simp)
  have B_gt: "seg_end x < seg_start y" if "y \<in> set B" for y
  proof (cases B)
    case (Cons b B')
    then have "\<not> ?q b"
      using hd_dropWhile [of ?q R] by (simp add: B_def)
    moreover have "seg_start b \<le> seg_start y"
      using that sorted Cons
      by (auto simp: sorted_wrt_append intro: order_trans [OF seg_start_le_end less_imp_le_nat])
    ultimately show ?thesis by simp
  qed (use that in simp)
  show thesis
  proof (rule that [of A M B])
    show "seg_end y < seg_start x" if "y \<in> set A" for y
      using that set_takeWhileD unfolding A_def by metis
    show "seg_start x \<le> seg_end y \<and> seg_start y \<le> seg_end x" if "y \<in> set M" for y
      using that R_ge R set_takeWhileD [of y ?q R] unfolding M_def by auto
    show "takeWhile ?p l = A" "dropWhile ?p l = M @ B"
      by (simp_all only: A_def R_def [symmetric] R)
    show "takeWhile ?q (M @ B) = M" "dropWhile ?q (M @ B) = B"
      by (simp_all only: R [symmetric]) (simp_all only: M_def B_def)
  qed (fact l, fact B_gt)
qed

lemma seg_insert_split:
  assumes "segs_wf l"
  obtains A M B where "l = A @ M @ B"
    "\<And>y. y \<in> set A \<Longrightarrow> seg_end y < seg_start x"
    "\<And>y. y \<in> set M \<Longrightarrow> seg_start x \<le> seg_end y \<and> seg_start y \<le> seg_end x"
    "\<And>y. y \<in> set B \<Longrightarrow> seg_end x < seg_start y"
    "seg_insert x l = (if M = [] then A @ x # B
      else if seg_start (hd M) \<le> seg_start x \<and> seg_end x \<le> seg_end (hd M) then l
      else A @ seg_merge x M (B = []) # B)"
proof (rule segs_wf_split [OF assms, of x])
  fix A M B
  assume l: "l = A @ M @ B"
    and parts: "\<And>y. y \<in> set A \<Longrightarrow> seg_end y < seg_start x"
      "\<And>y. y \<in> set M \<Longrightarrow> seg_start x \<le> seg_end y \<and> seg_start y \<le> seg_end x"
      "\<And>y. y \<in> set B \<Longrightarrow> seg_end x < seg_start y"
    and eqs: "takeWhile (\<lambda>y. seg_end y < seg_start x) l = A"
      "dropWhile (\<lambda>y. seg_end y < seg_start x) l = M @ B"
      "takeWhile (\<lambda>y. seg_start y \<le> seg_end x) (M @ B) = M"
      "dropWhile (\<lambda>y. seg_start y \<le> seg_end x) (M @ B) = B"
  show thesis
    by (rule that [OF l parts]) (simp_all only: seg_insert_def Let_def eqs)
qed

lemma seg_merge_bounds:
  assumes "M \<noteq> []" "seg_start x \<le> seg_end (hd M)" "seg_start (last M) \<le> seg_end x"
  shows "seg_start (seg_merge x M b) = min (seg_start (hd M)) (seg_start x)"
    "seg_end (seg_merge x M b) = max (seg_end (last M)) (seg_end x)"
  using assms by (auto simp: seg_merge_def Let_def seg_end_def)

lemma seg_insert_wf:
  assumes "segs_wf l" "seg_end x < W64"
  shows "segs_wf (seg_insert x l)"
proof -
  obtain A M B where l: "l = A @ M @ B"
    and A: "\<And>y. y \<in> set A \<Longrightarrow> seg_end y < seg_start x"
    and M: "\<And>y. y \<in> set M \<Longrightarrow> seg_start x \<le> seg_end y \<and> seg_start y \<le> seg_end x"
    and B: "\<And>y. y \<in> set B \<Longrightarrow> seg_end x < seg_start y"
    and ins: "seg_insert x l = (if M = [] then A @ x # B
      else if seg_start (hd M) \<le> seg_start x \<and> seg_end x \<le> seg_end (hd M) then l
      else A @ seg_merge x M (B = []) # B)"
    by (rule seg_insert_split [OF assms(1), of x]) blast
  have sorted: "sorted_wrt (\<lambda>x y. seg_end x < seg_start y) (A @ M @ B)"
    and bound: "\<And>y. y \<in> set (A @ M @ B) \<Longrightarrow> seg_end y < W64"
    using assms l by (simp_all add: segs_wf_def)
  show ?thesis
  proof (cases "M = []")
    case True
    then show ?thesis
      using ins A B sorted bound assms(2) le_less_trans [OF seg_start_le_end, of x]
      by (auto simp: segs_wf_def sorted_wrt_append)
  next
    case False
    then have hd: "hd M \<in> set M" and last: "last M \<in> set M"
      by simp_all
    note mb = seg_merge_bounds [OF False, of x "B = []"]
    have "segs_wf (A @ seg_merge x M (B = []) # B)"
      using A B M sorted bound assms(2) mb M [OF hd] M [OF last] hd last
      by (auto simp: segs_wf_def sorted_wrt_append)
    then show ?thesis
      using ins False assms(1) by auto
  qed
qed

section \<open>What a list of segments stores\<close>

text \<open>
  The bytes a list holds, as a map from stream indices. Consistency with a stream is inclusion of
  maps: the stream's own map has an entry for each of its indices.
\<close>

definition seg_map :: "seg \<Rightarrow> nat \<rightharpoonup> byte" where
  "seg_map x k = (if seg_start x \<le> k \<and> k < seg_end x then Some (seg_bytes x ! (k - seg_start x)) else None)"

fun segs_map :: "seg list \<Rightarrow> nat \<rightharpoonup> byte" where
  "segs_map [] = Map.empty"
| "segs_map (x # l) = segs_map l ++ seg_map x"

lemma segs_map_append [simp]: "segs_map (xs @ ys) = segs_map ys ++ segs_map xs"
  by (induction xs) (auto simp: map_add_assoc)

lemma segs_map_None: "(\<forall>x \<in> set l. seg_map x k = None) \<Longrightarrow> segs_map l k = None"
  by (induction l) (auto simp: map_add_None)

lemma seg_map_None_iff: "seg_map x k = None \<longleftrightarrow> \<not> (seg_start x \<le> k \<and> k < seg_end x)"
  by (simp add: seg_map_def)

text \<open>In a separated list at most one segment has an entry for an index.\<close>

lemma segs_map_unique:
  assumes "sorted_wrt (\<lambda>x y. seg_end x < seg_start y) l" "x \<in> set l" "seg_map x k = Some v"
  shows "segs_map l k = Some v"
  using assms
proof (induction l)
  case (Cons y l)
  show ?case
  proof (cases "x = y")
    case False
    then have "seg_end y < seg_start x"
      using Cons.prems by auto
    then have "seg_map y k = None"
      using Cons.prems(3) by (auto simp: seg_map_def split: if_splits)
    then show ?thesis
      using Cons False by (simp add: map_add_Some_iff)
  qed (use Cons.prems in simp)
qed simp

lemma sorted_segs_extremes:
  assumes "sorted_wrt (\<lambda>x y. seg_end x < seg_start y) M" "y \<in> set M"
  shows "seg_start (hd M) \<le> seg_start y" "seg_end y \<le> seg_end (last M)"
proof -
  show "seg_start (hd M) \<le> seg_start y"
    using assms by (cases M) (auto intro: order_trans [OF seg_start_le_end less_imp_le_nat])
  show "seg_end y \<le> seg_end (last M)"
    using assms by (cases M rule: rev_cases)
      (auto simp: sorted_wrt_append intro: order_trans [OF less_imp_le_nat seg_start_le_end])
qed

lemma seg_map_shift:
  "seg_start x + i = k \<Longrightarrow> i < length (seg_bytes x) \<Longrightarrow> seg_map x k = Some (seg_bytes x ! i)"
  by (auto simp: seg_map_def seg_end_def)

lemma seg_merge_map:
  assumes sorted: "sorted_wrt (\<lambda>x y. seg_end x < seg_start y) M" and "M \<noteq> []"
    and touch: "\<And>y. y \<in> set M \<Longrightarrow> seg_start x \<le> seg_end y \<and> seg_start y \<le> seg_end x"
  shows "seg_map (seg_merge x M b) = segs_map M ++ seg_map x"
proof
  fix k
  let ?a = "hd M" and ?z = "last M" and ?m = "seg_merge x M b"
  define p where "p = take (seg_start x - seg_start ?a) (seg_bytes ?a)"
  define q where "q = drop (seg_end x - seg_start ?z) (seg_bytes ?z)"
  have a: "?a \<in> set M" "seg_start x \<le> seg_end ?a" and z: "?z \<in> set M" "seg_start ?z \<le> seg_end x"
    using assms(2) touch by simp_all
  note mb = seg_merge_bounds [OF assms(2) a(2) z(2), of b]
  have m: "seg_bytes ?m = p @ seg_bytes x @ q" "seg_start ?m + length p = seg_start x"
    using a(2) by (auto simp: seg_merge_def Let_def p_def q_def seg_end_def)
  have M_None: "segs_map M k = None" if "k < seg_start ?a \<or> seg_end ?z \<le> k"
    using that sorted_segs_extremes [OF sorted] by (fastforce intro!: segs_map_None simp: seg_map_None_iff)
  consider (new) i where "k = seg_start x + i" "i < length (seg_bytes x)"
    | (first) i where "k = seg_start ?a + i" "k < seg_start x"
    | (final) i where "k = seg_end x + i" "k < seg_end ?z"
    | (neither) "\<not> (seg_start x \<le> k \<and> k < seg_end x)" "k < seg_start ?a \<or> seg_end ?z \<le> k"
      "\<not> (seg_start ?m \<le> k \<and> k < seg_end ?m)"
  proof -
    consider "seg_start x \<le> k \<and> k < seg_end x" | "seg_start ?a \<le> k \<and> k < seg_start x"
      | "seg_end x \<le> k \<and> k < seg_end ?z" | "k < seg_start x \<and> k < seg_start ?a" | "seg_end x \<le> k \<and> seg_end ?z \<le> k"
      by linarith
    then show thesis
    proof cases
      case 1
      then show thesis
        by (intro that(1) [of "k - seg_start x"]) (auto simp: seg_end_def)
    next
      case 2
      then show thesis
        by (intro that(2) [of "k - seg_start ?a"]) simp_all
    next
      case 3
      then show thesis
        by (intro that(3) [of "k - seg_end x"]) simp_all
    next
      case 4
      then show thesis
        by (intro that(4)) (auto simp: mb)
    next
      case 5
      then show thesis
        by (intro that(4)) (auto simp: mb)
    qed
  qed
  then show "seg_map ?m k = (segs_map M ++ seg_map x) k"
  proof cases
    case new
    have "seg_map ?m k = Some (seg_bytes ?m ! (length p + i))"
      using new m by (intro seg_map_shift) auto
    moreover have "seg_bytes ?m ! (length p + i) = seg_bytes x ! i"
      using new by (simp add: m nth_append)
    moreover have "seg_map x k = Some (seg_bytes x ! i)"
      using new by (intro seg_map_shift) auto
    ultimately show ?thesis
      by simp
  next
    case first
    have i: "i < length p" "i < length (seg_bytes ?a)" "seg_start ?m = seg_start ?a"
      using first a(2) mb by (auto simp: p_def seg_end_def)
    have "segs_map M k = Some (seg_bytes ?a ! i)"
      using first i by (intro segs_map_unique [OF sorted a(1)] seg_map_shift) auto
    moreover have "seg_map ?m k = Some (seg_bytes ?m ! i)"
      using first m i by (intro seg_map_shift) auto
    moreover have "seg_bytes ?m ! i = seg_bytes ?a ! i"
      using i by (simp add: m nth_append) (simp add: p_def)
    moreover have "seg_map x k = None"
      using first by (simp add: seg_map_def)
    ultimately show ?thesis
      by (simp add: map_add_def)
  next
    case final
    have i: "i < length q" "seg_end x - seg_start ?z + i < length (seg_bytes ?z)"
      "seg_start ?z + (seg_end x - seg_start ?z + i) = k" "seg_start ?m + (length p + (length (seg_bytes x) + i)) = k"
      using final z(2) m(2) by (auto simp: q_def seg_end_def)
    have "segs_map M k = Some (seg_bytes ?z ! (seg_end x - seg_start ?z + i))"
      using i by (intro segs_map_unique [OF sorted z(1)] seg_map_shift) auto
    moreover have "seg_map ?m k = Some (seg_bytes ?m ! (length p + (length (seg_bytes x) + i)))"
      using m(1) i by (intro seg_map_shift) auto
    moreover have "seg_bytes ?m ! (length p + (length (seg_bytes x) + i)) = q ! i"
      by (simp add: m nth_append)
    moreover have "q ! i = seg_bytes ?z ! (seg_end x - seg_start ?z + i)"
      using i by (simp add: q_def)
    moreover have "seg_map x k = None"
      using final by (simp add: seg_map_def)
    ultimately show ?thesis
      by (simp add: map_add_def)
  next
    case neither
    then show ?thesis
      using M_None by (simp add: seg_map_def map_add_def)
  qed
qed

text \<open>
  Inserting a segment stores its bytes. Where it overlaps earlier ones its bytes win, unless it
  lies inside a single earlier segment, which is then left alone.
\<close>

lemma seg_insert_map:
  assumes "segs_wf l"
  shows "segs_map (seg_insert x l) = segs_map l ++ seg_map x \<or>
    seg_insert x l = l \<and> (\<exists>y \<in> set l. seg_start y \<le> seg_start x \<and> seg_end x \<le> seg_end y)"
proof -
  obtain A M B where l: "l = A @ M @ B"
    and A: "\<And>y. y \<in> set A \<Longrightarrow> seg_end y < seg_start x"
    and M: "\<And>y. y \<in> set M \<Longrightarrow> seg_start x \<le> seg_end y \<and> seg_start y \<le> seg_end x"
    and B: "\<And>y. y \<in> set B \<Longrightarrow> seg_end x < seg_start y"
    and ins: "seg_insert x l = (if M = [] then A @ x # B
      else if seg_start (hd M) \<le> seg_start x \<and> seg_end x \<le> seg_end (hd M) then l
      else A @ seg_merge x M (B = []) # B)"
    by (rule seg_insert_split [OF assms(1), of x]) blast
  have sorted: "sorted_wrt (\<lambda>x y. seg_end x < seg_start y) M"
    using assms l by (simp add: segs_wf_def sorted_wrt_append)
  have A_dom: "segs_map A k = None" if "seg_map x k \<noteq> None" for k
    using that A by (intro segs_map_None) (fastforce simp: seg_map_def split: if_splits)
  show ?thesis
  proof (cases "M = []")
    case True
    then have "segs_map (seg_insert x l) = segs_map l ++ seg_map x"
      using ins l A_dom by (auto simp: fun_eq_iff map_add_def split: option.splits)
    then show ?thesis ..
  next
    case False
    show ?thesis
    proof (cases "seg_start (hd M) \<le> seg_start x \<and> seg_end x \<le> seg_end (hd M)")
      case True
      then show ?thesis
        using ins False l hd_in_set [OF False] by auto
    next
      case nc: False
      have "segs_map (seg_insert x l) = segs_map l ++ seg_map x"
        using ins l A_dom False nc seg_merge_map [OF sorted False M]
        by (auto simp: fun_eq_iff map_add_def split: option.splits)
      then show ?thesis ..
    qed
  qed
qed

text \<open>Either way the indices stored are the old ones and the new ones.\<close>

lemma seg_map_dom: "dom (seg_map x) = {seg_start x..<seg_end x}"
  by (auto simp: seg_map_def dom_def)

lemma segs_map_dom: "dom (segs_map l) = (\<Union>x \<in> set l. {seg_start x..<seg_end x})"
  by (induction l) (auto simp: seg_map_dom)

lemma segs_map_front: "\<forall>y \<in> set l. T < seg_start y \<Longrightarrow> T \<notin> dom (segs_map l)"
  unfolding segs_map_dom by fastforce

lemma seg_insert_dom:
  assumes "segs_wf l"
  shows "dom (segs_map (seg_insert x l)) = dom (segs_map l) \<union> {seg_start x..<seg_end x}"
proof -
  have "{seg_start x..<seg_end x} \<subseteq> dom (segs_map l)"
    if "y \<in> set l" "seg_start y \<le> seg_start x" "seg_end x \<le> seg_end y" for y
    using that by (auto simp: segs_map_dom intro!: bexI [of _ y])
  then show ?thesis
    using seg_insert_map [OF assms, of x]
    by (elim disjE conjE bexE) (simp add: seg_map_dom Un_commute, simp add: Un_absorb2)
qed

lemma segs_card:
  assumes "sorted_wrt (\<lambda>x y. seg_end x < seg_start y) l"
  shows "card (dom (segs_map l)) = sum_list (map (\<lambda>x. length (seg_bytes x)) l)"
  using assms
proof (induction l)
  case (Cons x l)
  have "{seg_start y..<seg_end y} \<inter> {seg_start x..<seg_end x} = {}" if "y \<in> set l" for y
    using Cons.prems that by auto
  then have "dom (segs_map l) \<inter> {seg_start x..<seg_end x} = {}"
    unfolding segs_map_dom by blast
  then have "card (dom (segs_map l) \<union> {seg_start x..<seg_end x}) =
      card (dom (segs_map l)) + card {seg_start x..<seg_end x}"
    by (intro card_Un_disjoint) (simp_all add: segs_map_dom)
  then show ?case
    using Cons by (simp add: seg_map_dom Un_commute) (simp add: seg_end_def)
qed simp

lemma segs_total:
  assumes "segs_wf l" "l \<noteq> []"
  shows "seg_start (hd l) + sum_list (map (\<lambda>x. length (seg_bytes x)) l) \<le> seg_end (last l)"
  using assms
proof (induction l)
  case (Cons x l)
  show ?case
  proof (cases "l = []")
    case False
    then have "seg_end x < seg_start (hd l)" "segs_wf l"
      using Cons.prems by (simp_all add: segs_wf_def)
    then show ?thesis
      using Cons.IH False by (simp add: seg_end_def)
  qed (simp add: seg_end_def)
qed simp

section \<open>Segments of one stream\<close>

text \<open>
  A segment fits a stream of bytes starting at an index when its bytes are those of the stream and
  its end mark, if it has one, is at the end of the stream. An empty segment without a mark fits
  anywhere.
\<close>

definition seg_fits :: "nat \<Rightarrow> bytes \<Rightarrow> seg \<Rightarrow> bool" where
  "seg_fits off S x \<longleftrightarrow> seg_map x \<subseteq>\<^sub>m seg_map (Seg off S True) \<and> (seg_eof x \<longrightarrow> seg_end x = off + length S)"

lemma seg_fits_bounds:
  assumes "seg_fits off S x" "seg_start x < seg_end x"
  shows "off \<le> seg_start x" "seg_end x \<le> off + length S"
proof -
  have "dom (seg_map x) \<subseteq> dom (seg_map (Seg off S True))"
    using assms(1) by (simp add: seg_fits_def map_le_implies_dom_le)
  then show "off \<le> seg_start x" "seg_end x \<le> off + length S"
    using assms(2) by (auto simp: seg_map_dom)
qed

lemma seg_fits_bytes:
  assumes "seg_fits off S x" "seg_start x < seg_end x"
  shows "seg_bytes x = take (length (seg_bytes x)) (drop (seg_start x - off) S)"
proof (rule nth_equalityI)
  show "length (seg_bytes x) = length (take (length (seg_bytes x)) (drop (seg_start x - off) S))"
    using seg_fits_bounds [OF assms] by (simp add: seg_end_def)
  fix i
  assume i: "i < length (seg_bytes x)"
  then have "seg_map x (seg_start x + i) = Some (seg_bytes x ! i)"
    by (simp add: seg_map_shift)
  then have "seg_map (Seg off S True) (seg_start x + i) = Some (seg_bytes x ! i)"
    using assms(1) unfolding seg_fits_def map_le_def by (metis domI)
  then show "seg_bytes x ! i = take (length (seg_bytes x)) (drop (seg_start x - off) S) ! i"
    using i seg_fits_bounds [OF assms] by (auto simp: seg_map_def seg_end_def split: if_splits)
qed

lemma segs_map_le: "(\<And>x. x \<in> set l \<Longrightarrow> seg_map x \<subseteq>\<^sub>m m) \<Longrightarrow> segs_map l \<subseteq>\<^sub>m m"
  by (induction l) (auto intro: map_add_le_mapI)

lemma seg_insert_fits:
  assumes wf: "segs_wf l" and l_fits: "\<And>y. y \<in> set l \<Longrightarrow> seg_fits off S y" and x_fits: "seg_fits off S x"
    and y: "y \<in> set (seg_insert x l)"
  shows "seg_fits off S y"
proof -
  obtain A M B where l: "l = A @ M @ B"
    and M: "\<And>y. y \<in> set M \<Longrightarrow> seg_start x \<le> seg_end y \<and> seg_start y \<le> seg_end x"
    and ins: "seg_insert x l = (if M = [] then A @ x # B
      else if seg_start (hd M) \<le> seg_start x \<and> seg_end x \<le> seg_end (hd M) then l
      else A @ seg_merge x M (B = []) # B)"
    by (rule seg_insert_split [OF wf, of x]) blast
  show ?thesis
  proof (cases "M \<noteq> [] \<and> y = seg_merge x M (B = [])")
    case True
    then have "M \<noteq> []"
      by simp
    let ?z = "last M"
    have hz: "hd M \<in> set M" "?z \<in> set M"
      using \<open>M \<noteq> []\<close> by simp_all
    have sorted: "sorted_wrt (\<lambda>x y. seg_end x < seg_start y) M"
      using wf l by (simp add: segs_wf_def sorted_wrt_append)
    have "segs_map M ++ seg_map x \<subseteq>\<^sub>m seg_map (Seg off S True)"
      using l l_fits x_fits by (intro map_add_le_mapI segs_map_le) (auto simp: seg_fits_def)
    then have "seg_map y \<subseteq>\<^sub>m seg_map (Seg off S True)"
      using True seg_merge_map [OF sorted \<open>M \<noteq> []\<close> M] by simp
    moreover have "seg_end y = off + length S" if "seg_eof y"
    proof -
      have z: "seg_fits off S ?z" "seg_start ?z \<le> seg_end x"
        using l l_fits hz M by auto
      have "seg_start x \<le> seg_end ?z"
        using M hz by auto
      moreover have "seg_end y = max (seg_end ?z) (seg_end x)"
        using True seg_merge_bounds(2) [OF \<open>M \<noteq> []\<close>, of x] M hz by auto
      moreover have "seg_eof x \<or> seg_eof ?z"
        using that True by (auto simp: seg_merge_def Let_def)
      then have "seg_end x = off + length S \<or> seg_end ?z = off + length S"
        using x_fits z(1) by (auto simp: seg_fits_def)
      ultimately show ?thesis
        using seg_fits_bounds(2) [OF x_fits] seg_fits_bounds(2) [OF z(1)] z(2)
          seg_start_le_end [of x] seg_start_le_end [of ?z] by linarith
    qed
    ultimately show ?thesis
      by (simp add: seg_fits_def)
  next
    case False
    then show ?thesis
      using y ins l l_fits x_fits by (auto split: if_splits)
  qed
qed

text \<open>Where the segments of a list lie after an insertion.\<close>

lemma seg_insert_starts:
  assumes "segs_wf l" "y \<in> set (seg_insert x l)"
  shows "seg_start y = seg_start x \<or> (\<exists>z \<in> set l. seg_start y = seg_start z)"
    "seg_end y = seg_end x \<or> (\<exists>z \<in> set l. seg_end y = seg_end z)"
proof -
  obtain A M B where l: "l = A @ M @ B"
    and M: "\<And>y. y \<in> set M \<Longrightarrow> seg_start x \<le> seg_end y \<and> seg_start y \<le> seg_end x"
    and ins: "seg_insert x l = (if M = [] then A @ x # B
      else if seg_start (hd M) \<le> seg_start x \<and> seg_end x \<le> seg_end (hd M) then l
      else A @ seg_merge x M (B = []) # B)"
    by (rule seg_insert_split [OF assms(1), of x]) blast
  have merged: "(seg_start m = seg_start x \<or> (\<exists>z \<in> set M. seg_start m = seg_start z)) \<and>
      (seg_end m = seg_end x \<or> (\<exists>z \<in> set M. seg_end m = seg_end z))"
    if "M \<noteq> []" "m = seg_merge x M (B = [])" for m
  proof -
    have hz: "hd M \<in> set M" "last M \<in> set M"
      using that by simp_all
    then have "seg_start m = min (seg_start (hd M)) (seg_start x)" "seg_end m = max (seg_end (last M)) (seg_end x)"
      using seg_merge_bounds [OF that(1), of x] M that(2) by auto
    then show ?thesis
      using hz by (metis max_def min_def)
  qed
  show "seg_start y = seg_start x \<or> (\<exists>z \<in> set l. seg_start y = seg_start z)"
    "seg_end y = seg_end x \<or> (\<exists>z \<in> set l. seg_end y = seg_end z)"
    using assms(2) ins l merged [of y] by (auto split: if_splits)
qed

lemma seg_insert_eof:
  assumes "segs_wf l" "y \<in> set (seg_insert x l)" "seg_eof y"
  shows "seg_eof x \<or> (\<exists>z \<in> set l. seg_eof z)"
proof -
  obtain A M B where l: "l = A @ M @ B"
    and ins: "seg_insert x l = (if M = [] then A @ x # B
      else if seg_start (hd M) \<le> seg_start x \<and> seg_end x \<le> seg_end (hd M) then l
      else A @ seg_merge x M (B = []) # B)"
    by (rule seg_insert_split [OF assms(1), of x]) blast
  have "seg_eof x \<or> (\<exists>z \<in> set M. seg_eof z)" if "M \<noteq> []" "seg_eof (seg_merge x M b)" for b
    using that last_in_set [of M] by (auto simp: seg_merge_def Let_def)
  then show ?thesis
    using assms(2,3) ins l by (auto split: if_splits)
qed

lemma seg_insert_not_Nil: "seg_insert x l \<noteq> []"
  by (auto simp: seg_insert_def Let_def dest: arg_cong [where f = set])

section \<open>A window on the stream\<close>

text \<open>
  The segments waiting behind the first unassembled index \<open>T\<close>: they fit the stream, start in
  the window of \<open>w\<close> indices from \<open>T\<close>, and reach at most \<open>c\<close> beyond it.
\<close>

definition segs_window :: "nat \<Rightarrow> bytes \<Rightarrow> nat \<Rightarrow> nat \<Rightarrow> nat \<Rightarrow> seg list \<Rightarrow> bool" where
  "segs_window off S c T w xs \<longleftrightarrow> segs_wf xs \<and>
    (\<forall>y \<in> set xs. seg_fits off S y \<and> T \<le> seg_start y \<and> seg_start y \<le> T + w \<and> seg_end y \<le> T + w + c)"

lemma segs_window_wf: "segs_window off S c T w xs \<Longrightarrow> segs_wf xs"
  by (simp add: segs_window_def)

lemma segs_window_Nil [simp]: "segs_window off S c T w []"
  by (simp add: segs_window_def segs_wf_def)

lemma segs_window_grow: "segs_window off S c T w xs \<Longrightarrow> w \<le> w' \<Longrightarrow> segs_window off S c T w' xs"
  by (fastforce simp: segs_window_def)

lemma segs_window_insert:
  assumes "segs_window off S c T w xs" "seg_fits off S x" "seg_end x < W64"
    and "T \<le> seg_start x" "seg_start x \<le> T + w" "seg_end x \<le> T + w + c"
  shows "segs_window off S c T w (seg_insert x xs)"
proof -
  have wf: "segs_wf xs" and fits: "\<And>y. y \<in> set xs \<Longrightarrow> seg_fits off S y"
    and bounds: "\<And>y. y \<in> set xs \<Longrightarrow> T \<le> seg_start y \<and> seg_start y \<le> T + w \<and> seg_end y \<le> T + w + c"
    using assms(1) by (auto simp: segs_window_def)
  have "seg_fits off S y \<and> T \<le> seg_start y \<and> seg_start y \<le> T + w \<and> seg_end y \<le> T + w + c"
    if y: "y \<in> set (seg_insert x xs)" for y
    using seg_insert_fits [OF wf fits assms(2) y] seg_insert_starts [OF wf y] bounds assms(4-6) by metis
  then show ?thesis
    using seg_insert_wf [OF wf assms(3)] by (simp add: segs_window_def)
qed

text \<open>Taking the first segment, whole or in part, moves the window on.\<close>

lemma segs_window_take:
  assumes "segs_window off S c T w (x # xs)" "seg_start x = T" "length (seg_bytes x) \<le> w"
  shows "segs_window off S c (T + length (seg_bytes x)) (w - length (seg_bytes x)) xs"
    "\<And>y. y \<in> set xs \<Longrightarrow> T + length (seg_bytes x) < seg_start y"
  using assms by (auto simp: segs_window_def segs_wf_def seg_end_def)

lemma seg_fits_drop:
  assumes "seg_fits off S (Seg i d e)" "n \<le> length d"
  shows "seg_fits off S (Seg (i + n) (drop n d) e)"
proof -
  have "seg_map (Seg (i + n) (drop n d) e) \<subseteq>\<^sub>m seg_map (Seg i d e)"
    using assms(2) by (auto simp: map_le_def seg_map_def dom_def)
  then show ?thesis
    using assms by (auto simp: seg_fits_def intro: map_le_trans)
qed

lemma seg_fits_take:
  assumes "seg_fits off S (Seg i d e)"
  shows "seg_fits off S (Seg i (take n d) False)"
proof -
  have "seg_map (Seg i (take n d) False) \<subseteq>\<^sub>m seg_map (Seg i d e)"
    by (auto simp: map_le_def seg_map_def dom_def)
  then show ?thesis
    using assms by (auto simp: seg_fits_def intro: map_le_trans)
qed

lemma segs_window_part:
  assumes "segs_window off S c T w (x # xs)" "seg_start x = T" "w < length (seg_bytes x)"
  shows "xs = []" "segs_window off S c (T + w) 0 [Seg (T + w) (drop w (seg_bytes x)) (seg_eof x)]"
proof -
  show "xs = []"
    using assms by (cases xs) (auto simp: segs_window_def segs_wf_def seg_end_def)
  show "segs_window off S c (T + w) 0 [Seg (T + w) (drop w (seg_bytes x)) (seg_eof x)]"
    using assms seg_fits_drop [of off S T "seg_bytes x" "seg_eof x" w]
    by (cases x) (auto simp: segs_window_def segs_wf_def)
qed

section \<open>The interface of a segment store\<close>

text \<open>
  What the reassembler relies on: the store can be viewed as a list of segments, pushing is the
  reference insertion, and reading takes the first segment, or a part of a segment that is alone.
\<close>

locale segment_store =
  fixes view :: "'s \<Rightarrow> seg list"
    and wf :: "'s \<Rightarrow> bool"
    and item :: "'b \<Rightarrow> seg"
    and item_ok :: "'b \<Rightarrow> bool"
    and push :: "bytes \<Rightarrow> nat \<Rightarrow> bool \<Rightarrow> 's \<Rightarrow> 's res"
    and top_index :: "'s \<Rightarrow> nat"
    and pop :: "'s \<Rightarrow> nat \<Rightarrow> ('b \<times> 's) res"
    and total :: "'s \<Rightarrow> nat"
  assumes view_wf: "wf l \<Longrightarrow> segs_wf (view l)"
    and push_view: "wf l \<Longrightarrow> index + length target < W64 \<Longrightarrow>
      \<exists>l'. push target index eof l = Inr l' \<and> wf l' \<and> view l' = seg_insert (Seg index target eof) (view l)"
    and top_view: "wf l \<Longrightarrow> view l = x # xs \<Longrightarrow> top_index l = seg_start x"
    and pop_first: "wf l \<Longrightarrow> view l = x # xs \<Longrightarrow> length (seg_bytes x) \<le> n \<Longrightarrow>
      \<exists>b l'. pop l n = Inr (b, l') \<and> item_ok b \<and> item b = x \<and> wf l' \<and> view l' = xs"
    and pop_part: "wf l \<Longrightarrow> view l = [x] \<Longrightarrow> n < length (seg_bytes x) \<Longrightarrow>
      \<exists>b l'. pop l n = Inr (b, l') \<and> item_ok b \<and> item b = Seg (seg_start x) (take n (seg_bytes x)) False \<and>
        wf l' \<and> view l' = [Seg (seg_start x + n) (drop n (seg_bytes x)) (seg_eof x)]"
    and total_view: "wf l \<Longrightarrow> total l = sum_list (map (\<lambda>x. length (seg_bytes x)) (view l))"
begin

text \<open>Pushing a segment into the window.\<close>

lemma push_window:
  assumes "wf l" "segs_window off S c T w (view l)" "seg_fits off S (Seg index target eof)"
    and "T \<le> index" "index \<le> T + w" "index + length target \<le> T + w + c" "index + length target < W64"
  obtains l' x xs where "push target index eof l = Inr l'" "wf l'" "view l' = x # xs"
    "segs_window off S c T w (view l')"
    "dom (segs_map (view l')) = dom (segs_map (view l)) \<union> {index..<index + length target}"
    "\<exists>y \<in> set (view l'). seg_eof y \<Longrightarrow> eof \<or> (\<exists>y \<in> set (view l). seg_eof y)"
proof -
  obtain l' where l': "push target index eof l = Inr l'" "wf l'"
    "view l' = seg_insert (Seg index target eof) (view l)"
    using push_view [OF assms(1,7)] by blast
  obtain x xs where x: "view l' = x # xs"
    using seg_insert_not_Nil l'(3) by (metis neq_Nil_conv)
  have "segs_window off S c T w (view l')"
    unfolding l'(3) by (rule segs_window_insert) (use assms in simp_all)
  moreover have "dom (segs_map (view l')) = dom (segs_map (view l)) \<union> {index..<index + length target}"
    using seg_insert_dom [OF view_wf [OF assms(1)], of "Seg index target eof"] l'(3) by simp
  moreover have "eof \<or> (\<exists>y \<in> set (view l). seg_eof y)" if "\<exists>y \<in> set (view l'). seg_eof y"
    using that seg_insert_eof [OF view_wf [OF assms(1)], of _ "Seg index target eof"] l'(3) by auto
  ultimately show thesis
    by (rule that [OF l'(1,2) x])
qed

text \<open>
  Reading as much as the window admits from a store whose first segment has reached the front: the
  bytes are the next ones of the stream, and afterwards either the window is used up or the store
  has nothing for the front.
\<close>

lemma pop_window:
  assumes "wf l" "segs_window off S c T w (view l)" "view l = x # xs" "seg_start x = T" "off \<le> T"
  obtains b l' d where "pop l w = Inr (b, l')" "item_ok b" "wf l'"
    "seg_bytes (item b) = d" "length d \<le> w" "d = take (length d) (drop (T - off) S)"
    "seg_eof (item b) \<Longrightarrow> T + length d = off + length S"
    "segs_window off S c (T + length d) (w - length d) (view l')"
    "length d = w \<or> (\<forall>y \<in> set (view l'). T + length d < seg_start y)"
    "dom (segs_map (view l)) = {T..<T + length d} \<union> dom (segs_map (view l'))"
    "\<forall>y \<in> set (view l'). seg_start y = T + length d \<longrightarrow> seg_bytes y \<noteq> []"
    "seg_eof (item b) \<or> (\<exists>y \<in> set (view l'). seg_eof y) \<Longrightarrow> \<exists>y \<in> set (view l). seg_eof y"
proof (cases "length (seg_bytes x) \<le> w")
  case True
  have fits: "seg_fits off S x"
    using assms(2,3) by (simp add: segs_window_def)
  obtain b l' where pop: "pop l w = Inr (b, l')" "item_ok b" "item b = x" "wf l'" "view l' = xs"
    using pop_first [OF assms(1,3) True] by blast
  note win = segs_window_take [OF assms(2) [unfolded assms(3)] assms(4) True]
  have bytes: "seg_bytes x = take (length (seg_bytes x)) (drop (T - off) S)"
  proof (cases "seg_bytes x = []")
    case False
    then show ?thesis
      using seg_fits_bytes [OF fits] assms(4) by (simp add: seg_end_def)
  qed simp
  have eof: "T + length (seg_bytes x) = off + length S" if "seg_eof (item b)"
    using that fits pop(3) assms(4) by (simp add: seg_fits_def seg_end_def)
  have dom: "dom (segs_map (view l)) = {T..<T + length (seg_bytes x)} \<union> dom (segs_map (view l'))"
    using assms(3,4) pop(5) by (simp add: seg_map_dom) (simp add: seg_end_def)
  have later: "\<forall>y \<in> set (view l'). seg_start y \<noteq> T + length (seg_bytes x)"
    using win(2) pop(5) by fastforce
  show thesis
    by (rule that [OF pop(1,2,4) arg_cong [OF pop(3)] True bytes eof _ _ dom])
      (use win later pop(3,5) assms(3) in auto)
next
  case False
  then have less: "w < length (seg_bytes x)"
    by simp
  have fits: "seg_fits off S (Seg T (take w (seg_bytes x)) False)"
    using assms(2,3,4) seg_fits_take [of off S T "seg_bytes x" "seg_eof x" w]
    by (cases x) (simp add: segs_window_def)
  note win = segs_window_part [OF assms(2) [unfolded assms(3)] assms(4) less]
  obtain b l' where pop: "pop l w = Inr (b, l')" "item_ok b" "item b = Seg (seg_start x) (take w (seg_bytes x)) False"
    "wf l'" "view l' = [Seg (seg_start x + w) (drop w (seg_bytes x)) (seg_eof x)]"
    using pop_part [OF assms(1) _ less] assms(3) win(1) by blast
  have len: "length (take w (seg_bytes x)) = w"
    using less by simp
  have bytes: "take w (seg_bytes x) = take w (drop (T - off) S)"
  proof (cases "w = 0")
    case False
    then show ?thesis
      using seg_fits_bytes [OF fits] len less by force
  qed simp
  have dom: "dom (segs_map (view l)) = {T..<T + w} \<union> dom (segs_map (view l'))"
    using assms(3,4) pop(5) less win(1) by (auto simp: seg_map_dom seg_end_def)
  show thesis
    by (rule that [OF pop(1,2,4), of "take w (seg_bytes x)"])
      (use len bytes dom win pop(3,5) assms(3,4) less in \<open>simp_all add: len\<close>)
qed

end

end
