(* ===== verification/Buffer_String.thy ===== *)
theory Buffer_String
  imports Segments
begin

text \<open>
  The store of not yet assembled substrings, \<open>libsponge/buffer_string.hh\<close> and
  \<open>buffer_string.cc\<close>: \<open>BufferString\<close> is a substring with its index range and an
  end-of-stream mark, \<open>BufferStringList\<close> a deque of them kept sorted and merged. The iterator
  code of \<open>push_back\<close> is proved to implement the reference insertion of segments without
  throwing; the list with its readers is the segment store the reassembler relies on.
\<close>

section \<open>BufferString\<close>

record BufferString =
  bstr_index :: "size_t \<times> size_t"
  bstr_eof :: bool
  bstr_target :: "bytes option"

definition BufferString_default :: BufferString where
  "BufferString_default = \<lparr>bstr_index = (0, 0), bstr_eof = False, bstr_target = None\<rparr>"

definition BufferString_make :: "size_t \<Rightarrow> bytes \<Rightarrow> bool \<Rightarrow> BufferString" where
  "BufferString_make index target eof =
    \<lparr>bstr_index = (index, add64 index (length target)), bstr_eof = eof, bstr_target = Some target\<rparr>"

definition BufferString_get_string :: "BufferString \<Rightarrow> bytes res" where
  "BufferString_get_string b = (case bstr_target b of None \<Rightarrow> Inl NullDeref | Some s \<Rightarrow> Inr s)"

definition BufferString_size :: "BufferString \<Rightarrow> size_t res" where
  "BufferString_size b = (case bstr_target b of None \<Rightarrow> Inl NullDeref | Some s \<Rightarrow> Inr (length s))"

section \<open>BufferStringList\<close>

type_synonym BufferStringList = "BufferString list"

text \<open>
  The loop of \<open>push_back\<close> over the nodes that are replaced: each appends what it holds to the
  right of \<open>right_index\<close>.
\<close>

fun BufferStringList_extend :: "size_t \<Rightarrow> BufferStringList \<Rightarrow> bytes res" where
  "BufferStringList_extend right_index [] = Inr []"
| "BufferStringList_extend right_index (it # its) =
    rbind
      (if right_index < snd (bstr_index it)
       then rbind (BufferString_get_string it) (\<lambda>s.
         substr s (sub64 right_index (fst (bstr_index it))) (sub64 (snd (bstr_index it)) right_index))
       else Inr [])
      (\<lambda>part. rbind (BufferStringList_extend right_index its) (\<lambda>rest. Inr (part @ rest)))"

text \<open>\<open>deque::erase\<close> of a range given by positions.\<close>

definition erase_range :: "'a list \<Rightarrow> nat \<Rightarrow> nat \<Rightarrow> 'a list" where
  "erase_range xs i j = take i xs @ drop j xs"

text \<open>The merge of \<open>push_back\<close>, once the range of touched nodes is known.\<close>

definition BufferStringList_merge ::
  "BufferStringList \<Rightarrow> BufferString \<Rightarrow> bytes \<Rightarrow> bool \<Rightarrow> nat \<Rightarrow> nat \<Rightarrow> bool \<Rightarrow> BufferStringList res" where
  "BufferStringList_merge l buffer target eof lower upper is_list_end =
    (let lower_left = l ! lower;
         upper_right = l ! upper;
         left_index = min (fst (bstr_index lower_left)) (fst (bstr_index buffer));
         right_index = (if \<not> is_list_end then snd (bstr_index buffer)
           else max (snd (bstr_index upper_right)) (snd (bstr_index buffer)))
     in
      if fst (bstr_index lower_left) \<le> fst (bstr_index buffer) \<and>
         snd (bstr_index buffer) \<le> snd (bstr_index lower_left)
      then Inr l
      else
        rbind
          (if left_index < fst (bstr_index buffer)
           then rbind (BufferString_get_string lower_left) (\<lambda>s.
             substr s 0 (sub64 (fst (bstr_index buffer)) left_index))
           else Inr [])
        (\<lambda>head. rbind (BufferStringList_extend right_index (take (upper - lower) (drop lower l)))
        (\<lambda>extra.
          if is_list_end
          then rbind
            (if snd (bstr_index buffer) < right_index
             then rbind (BufferString_get_string upper_right) (\<lambda>s.
               substr s (sub64 (snd (bstr_index buffer)) (fst (bstr_index upper_right)))
                 (sub64 right_index (snd (bstr_index buffer))))
             else Inr [])
            (\<lambda>tail. Inr (erase_range
               (l[upper := BufferString_make left_index (head @ target @ extra @ tail)
                   (eof \<or> bstr_eof upper_right)]) lower upper))
          else Inr (erase_range
             (l[lower := BufferString_make left_index (head @ target @ extra) eof]) (lower + 1) upper))))"

definition BufferStringList_push_back ::
  "bytes \<Rightarrow> size_t \<Rightarrow> bool \<Rightarrow> BufferStringList \<Rightarrow> BufferStringList res" where
  "BufferStringList_push_back target index eof l =
    (let buffer = BufferString_make index target eof;
         lower_left = partition_point (\<lambda>b. snd (bstr_index b) < fst (bstr_index buffer)) l;
         upper_right = partition_point (\<lambda>b. \<not> snd (bstr_index buffer) < fst (bstr_index b)) l
     in
      if lower_left = upper_right then Inr (take lower_left l @ buffer # drop lower_left l)
      else
        let is_list_end = (upper_right = length l);
            upper_right' = (if \<not> is_list_end then upper_right else upper_right - 1)
        in
          if upper_right' < lower_left
          then Inl (RuntimeError ''BufferStringList::push_back lower_left is larger than upper_right'')
          else BufferStringList_merge l buffer target eof lower_left upper_right' is_list_end)"

definition BufferStringList_size :: "BufferStringList \<Rightarrow> size_t" where
  "BufferStringList_size l =
    foldl (\<lambda>size b. add64 size (sub64 (snd (bstr_index b)) (fst (bstr_index b)))) 0 l"

definition BufferStringList_empty :: "BufferStringList \<Rightarrow> bool" where
  "BufferStringList_empty l \<longleftrightarrow> l = []"

fun BufferStringList_top_index :: "BufferStringList \<Rightarrow> size_t" where
  "BufferStringList_top_index [] = 0"
| "BufferStringList_top_index (b # l) = fst (bstr_index b)"

text \<open>
  The two readers return the list beside the result. A partial read puts the remaining node at the
  back of the deque, as the code does.
\<close>

fun BufferStringList_get_buffer :: "BufferStringList \<Rightarrow> size_t \<Rightarrow> bool \<Rightarrow> (bytes \<times> BufferStringList) res" where
  "BufferStringList_get_buffer [] n should_pop = Inr ([], [])"
| "BufferStringList_get_buffer (b # l) n should_pop =
    rbind (BufferString_get_string b) (\<lambda>result_view.
      if length result_view \<le> n
      then Inr (result_view, if should_pop then l else b # l)
      else Inr (take n result_view,
        if should_pop
        then l @ [BufferString_make (add64 (fst (bstr_index b)) n) (drop n result_view) False]
        else b # l))"

fun BufferStringList_get_buffer_string ::
  "BufferStringList \<Rightarrow> size_t \<Rightarrow> bool \<Rightarrow> (BufferString \<times> BufferStringList) res" where
  "BufferStringList_get_buffer_string [] n should_pop = Inr (BufferString_default, [])"
| "BufferStringList_get_buffer_string (b # l) n should_pop =
    rbind (BufferString_get_string b) (\<lambda>str.
      if length str \<le> n
      then Inr (b, if should_pop then l else b # l)
      else Inr (BufferString_make (fst (bstr_index b)) (take n str) False,
        if should_pop
        then l @ [BufferString_make (add64 (fst (bstr_index b)) n) (drop n str) (bstr_eof b)]
        else b # l))"

definition BufferStringList_pop_up_buffer :: "BufferStringList \<Rightarrow> size_t \<Rightarrow> (bytes \<times> BufferStringList) res" where
  "BufferStringList_pop_up_buffer l n = BufferStringList_get_buffer l n True"

definition BufferStringList_peek_buffer :: "BufferStringList \<Rightarrow> size_t \<Rightarrow> (bytes \<times> BufferStringList) res" where
  "BufferStringList_peek_buffer l n = BufferStringList_get_buffer l n False"

definition BufferStringList_pop_up_buffer_string ::
  "BufferStringList \<Rightarrow> size_t \<Rightarrow> (BufferString \<times> BufferStringList) res" where
  "BufferStringList_pop_up_buffer_string l n = BufferStringList_get_buffer_string l n True"

definition BufferStringList_peek_buffer_string ::
  "BufferStringList \<Rightarrow> size_t \<Rightarrow> (BufferString \<times> BufferStringList) res" where
  "BufferStringList_peek_buffer_string l n = BufferStringList_get_buffer_string l n False"

lemmas [sponge_eval] = BufferString_default_def BufferString_make_def BufferString_get_string_def
  BufferString_size_def erase_range_def BufferStringList_merge_def BufferStringList_push_back_def
  BufferStringList_size_def BufferStringList_empty_def BufferStringList_pop_up_buffer_def
  BufferStringList_peek_buffer_def BufferStringList_pop_up_buffer_string_def
  BufferStringList_peek_buffer_string_def partition_point_def bisect.simps

section \<open>The iterator code implements the specification\<close>

definition seg_of :: "BufferString \<Rightarrow> seg" where
  "seg_of b = Seg (fst (bstr_index b)) (case bstr_target b of None \<Rightarrow> [] | Some s \<Rightarrow> s) (bstr_eof b)"

definition BufferString_wf :: "BufferString \<Rightarrow> bool" where
  "BufferString_wf b \<longleftrightarrow> (\<exists>i s e. b = BufferString_make i s e \<and> i + length s < W64)"

definition BufferStringList_wf :: "BufferStringList \<Rightarrow> bool" where
  "BufferStringList_wf l \<longleftrightarrow> list_all BufferString_wf l \<and> segs_wf (map seg_of l)"

lemma seg_of_make [simp]: "seg_of (BufferString_make i s e) = Seg i s e"
  by (simp add: seg_of_def BufferString_make_def)

lemma BufferString_make_simps [simp]:
  "bstr_index (BufferString_make i s e) = (i, add64 i (length s))"
  "bstr_eof (BufferString_make i s e) = e"
  by (simp_all add: BufferString_make_def)

lemma BufferString_make_wf [simp]: "i + length s < W64 \<Longrightarrow> BufferString_wf (BufferString_make i s e)"
  by (auto simp: BufferString_wf_def)

lemma BufferString_wf_simps:
  assumes "BufferString_wf b"
  shows "fst (bstr_index b) = seg_start (seg_of b)" "snd (bstr_index b) = seg_end (seg_of b)"
    "BufferString_get_string b = Inr (seg_bytes (seg_of b))"
    "BufferString_size b = Inr (length (seg_bytes (seg_of b)))"
    "bstr_eof b = seg_eof (seg_of b)"
    "seg_end (seg_of b) < W64"
  using assms by (auto simp: BufferString_wf_def BufferString_make_def BufferString_get_string_def
    BufferString_size_def seg_of_def u64_simps)

lemma BufferStringList_extend_append:
  "BufferStringList_extend r (xs @ ys) =
    rbind (BufferStringList_extend r xs) (\<lambda>p. rbind (BufferStringList_extend r ys) (\<lambda>q. Inr (p @ q)))"
  by (induction xs) (auto simp: rbind_assoc)

lemma BufferStringList_extend_below:
  "\<forall>b \<in> set l. snd (bstr_index b) \<le> r \<Longrightarrow> BufferStringList_extend r l = Inr []"
  by (induction l) auto

lemma BufferStringList_extend_one:
  assumes "BufferString_wf b" "seg_start (seg_of b) \<le> r"
  shows "BufferStringList_extend r [b] = Inr (drop (r - seg_start (seg_of b)) (seg_bytes (seg_of b)))"
  using assms BufferString_wf_simps [OF assms(1)]
  by (auto simp: u64_simps substr_def seg_end_def)

text \<open>The nodes a new substring touches, and the positions the two binary searches return.\<close>

lemma push_back_positions:
  assumes "list_all BufferString_wf (A @ M @ B)"
    and "\<And>b. b \<in> set A \<Longrightarrow> seg_end (seg_of b) < seg_start x"
    and "\<And>b. b \<in> set M \<Longrightarrow> seg_start x \<le> seg_end (seg_of b) \<and> seg_start (seg_of b) \<le> seg_end x"
    and "\<And>b. b \<in> set B \<Longrightarrow> seg_end x < seg_start (seg_of b)"
  shows "partition_point (\<lambda>b. snd (bstr_index b) < seg_start x) (A @ M @ B) = length A"
    "partition_point (\<lambda>b. \<not> seg_end x < fst (bstr_index b)) (A @ M @ B) = length A + length M"
proof -
  have idx: "fst (bstr_index b) = seg_start (seg_of b)" "snd (bstr_index b) = seg_end (seg_of b)"
    if "b \<in> set (A @ M @ B)" for b
    using assms(1) that BufferString_wf_simps(1,2) unfolding list_all_iff by blast+
  note x = seg_start_le_end [of x]
  show "partition_point (\<lambda>b. snd (bstr_index b) < seg_start x) (A @ M @ B) = length A"
  proof (rule partition_point_append)
    show "snd (bstr_index b) < seg_start x" if "b \<in> set A" for b
      using that assms(2) idx by simp
    show "\<not> snd (bstr_index b) < seg_start x" if "b \<in> set (M @ B)" for b
      using that assms(3) [of b] assms(4) [of b] idx [of b] x seg_start_le_end [of "seg_of b"]
      by (auto simp del: seg_start_le_end)
  qed
  have "partition_point (\<lambda>b. \<not> seg_end x < fst (bstr_index b)) ((A @ M) @ B) = length (A @ M)"
  proof (rule partition_point_append)
    show "\<not> seg_end x < fst (bstr_index b)" if "b \<in> set (A @ M)" for b
      using that assms(3) [of b] assms(2) [of b] idx [of b] x seg_start_le_end [of "seg_of b"]
      by (auto simp del: seg_start_le_end)
    show "\<not> \<not> seg_end x < fst (bstr_index b)" if "b \<in> set B" for b
      using that assms(4) idx by simp
  qed
  then show "partition_point (\<lambda>b. \<not> seg_end x < fst (bstr_index b)) (A @ M @ B) = length A + length M"
    by simp
qed

text \<open>The merge, first when it reaches the last node of the list, then when it does not.\<close>

lemma merge_head:
  assumes "BufferString_wf a" "i \<le> seg_end (seg_of a)"
  shows "(if min (fst (bstr_index a)) i < i
      then rbind (BufferString_get_string a) (\<lambda>s. substr s 0 (sub64 i (min (fst (bstr_index a)) i)))
      else Inr []) = Inr (take (i - seg_start (seg_of a)) (seg_bytes (seg_of a)))"
  using assms BufferString_wf_simps [OF assms(1)]
  by (auto simp: min_def res_simps u64_simps)

lemma BufferStringList_merge_at_end:
  assumes wf: "list_all BufferString_wf (A @ N @ [z])"
    and sorted: "segs_wf (map seg_of (A @ N @ [z]))"
    and x: "i + length d < W64"
    and a: "i \<le> seg_end (seg_of (hd (N @ [z])))"
    and z: "seg_start (seg_of z) \<le> i + length d"
    and nc: "\<not> (seg_start (seg_of (hd (N @ [z]))) \<le> i \<and> i + length d \<le> seg_end (seg_of (hd (N @ [z]))))"
  shows "BufferStringList_merge (A @ N @ [z]) (BufferString_make i d e) d e
      (length A) (length A + length N) True =
    Inr (A @ [BufferString_make (min (seg_start (seg_of (hd (N @ [z])))) i)
      (seg_bytes (seg_merge (Seg i d e) (map seg_of (N @ [z])) True)) (e \<or> seg_eof (seg_of z))])"
proof -
  let ?a = "hd (N @ [z])" and ?l = "A @ N @ [z]" and ?j = "i + length d"
  have "?a \<in> set (N @ [z])"
    by (rule hd_in_set) simp
  then have wfa: "BufferString_wf ?a" and wfz: "BufferString_wf z"
    using wf by (auto simp: list_all_iff)
  note sa = BufferString_wf_simps [OF wfa] and sz = BufferString_wf_simps [OF wfz]
  let ?r = "max (snd (bstr_index z)) ?j"
  have nth: "?l ! length A = ?a" "?l ! (length A + length N) = z"
    by (cases N) (simp_all add: nth_append)
  have below: "\<forall>b \<in> set N. snd (bstr_index b) \<le> ?r"
    using wf sorted z BufferString_wf_simps(2)
    by (fastforce simp: list_all_iff segs_wf_def sorted_wrt_append)
  have ext: "BufferStringList_extend ?r (take (length A + length N - length A) (drop (length A) ?l)) = Inr []"
    using BufferStringList_extend_below [OF below] by simp
  have tail: "(if ?j < ?r then rbind (BufferString_get_string z) (\<lambda>s.
      substr s (sub64 ?j (fst (bstr_index z))) (sub64 ?r ?j)) else Inr []) =
    Inr (drop (?j - seg_start (seg_of z)) (seg_bytes (seg_of z)))"
    using sz z x by (auto simp: max_def substr_def u64_simps seg_end_def)
  have upd: "erase_range (?l[length A + length N := b]) (length A) (length A + length N) = A @ [b]" for b
    by (simp add: erase_range_def list_update_append)
  have nc': "(fst (bstr_index ?a) \<le> i \<and> ?j \<le> snd (bstr_index ?a)) = False"
    using nc sa by simp
  have hd: "hd (map seg_of (N @ [z])) = seg_of ?a" "last (map seg_of (N @ [z])) = seg_of z"
    by (simp_all only: hd_map last_map append_is_Nil_conv not_Cons_self2 last_snoc simp_thms)
  show ?thesis
    by (simp only: BufferStringList_merge_def Let_def nth BufferString_make_simps fst_conv snd_conv
      add64_small [OF x] nc' if_False if_True simp_thms merge_head [OF wfa a] ext rbind.simps tail upd)
      (simp only: seg_merge_def Let_def hd sa(1) sz(5) seg.sel seg_end_Seg append_Nil)
qed

lemma BufferStringList_merge_inside:
  assumes wf: "list_all BufferString_wf (A @ (N @ [z]) @ B)"
    and sorted: "segs_wf (map seg_of (A @ (N @ [z]) @ B))"
    and x: "i + length d < W64"
    and a: "i \<le> seg_end (seg_of (hd (N @ [z])))"
    and z: "seg_start (seg_of z) \<le> i + length d"
    and nc: "\<not> (seg_start (seg_of (hd (N @ [z]))) \<le> i \<and> i + length d \<le> seg_end (seg_of (hd (N @ [z]))))"
  shows "BufferStringList_merge (A @ (N @ [z]) @ B) (BufferString_make i d e) d e
      (length A) (length A + length (N @ [z])) False =
    Inr (A @ [BufferString_make (min (seg_start (seg_of (hd (N @ [z])))) i)
      (seg_bytes (seg_merge (Seg i d e) (map seg_of (N @ [z])) False)) e] @ B)"
proof -
  let ?a = "hd (N @ [z])" and ?l = "A @ (N @ [z]) @ B" and ?j = "i + length d"
  have "?a \<in> set (N @ [z])"
    by (rule hd_in_set) simp
  then have wfa: "BufferString_wf ?a" and wfz: "BufferString_wf z"
    using wf by (auto simp: list_all_iff)
  note sa = BufferString_wf_simps [OF wfa]
  have nth: "?l ! length A = ?a"
    by (cases N) (simp_all add: nth_append)
  have below: "\<forall>b \<in> set N. snd (bstr_index b) \<le> ?j"
    using wf sorted z BufferString_wf_simps(2)
    by (fastforce simp: list_all_iff segs_wf_def sorted_wrt_append)
  have ext: "BufferStringList_extend ?j (take (length A + length (N @ [z]) - length A) (drop (length A) ?l)) =
      Inr (drop (?j - seg_start (seg_of z)) (seg_bytes (seg_of z)))"
    using BufferStringList_extend_below [OF below] BufferStringList_extend_one [OF wfz z]
    by (simp add: BufferStringList_extend_append del: BufferStringList_extend.simps)
  have upd: "erase_range (?l[length A := b]) (length A + 1) (length A + length (N @ [z])) = A @ [b] @ B" for b
    by (cases N) (simp_all add: erase_range_def list_update_append)
  have nc': "(fst (bstr_index ?a) \<le> i \<and> ?j \<le> snd (bstr_index ?a)) = False"
    using nc sa by simp
  have hd: "hd (map seg_of (N @ [z])) = seg_of ?a" "last (map seg_of (N @ [z])) = seg_of z"
    by (simp_all only: hd_map last_map append_is_Nil_conv not_Cons_self2 last_snoc simp_thms)
  show ?thesis
    by (simp only: BufferStringList_merge_def Let_def nth BufferString_make_simps fst_conv snd_conv
      add64_small [OF x] nc' if_False if_True simp_thms merge_head [OF wfa a] ext rbind.simps upd)
      (simp only: seg_merge_def Let_def hd sa(1) seg.sel seg_end_Seg)
qed

lemma BufferStringList_push_back_refines:
  assumes "BufferStringList_wf l" "index + length target < W64"
  shows "\<exists>l'. BufferStringList_push_back target index eof l = Inr l' \<and> BufferStringList_wf l' \<and>
    map seg_of l' = seg_insert (Seg index target eof) (map seg_of l)"
proof -
  let ?x = "Seg index target eof"
  have wf: "list_all BufferString_wf l" and sw: "segs_wf (map seg_of l)"
    using assms(1) by (simp_all add: BufferStringList_wf_def)
  obtain A' M' B' where l': "map seg_of l = A' @ M' @ B'"
    and A': "\<And>y. y \<in> set A' \<Longrightarrow> seg_end y < seg_start ?x"
    and M': "\<And>y. y \<in> set M' \<Longrightarrow> seg_start ?x \<le> seg_end y \<and> seg_start y \<le> seg_end ?x"
    and B': "\<And>y. y \<in> set B' \<Longrightarrow> seg_end ?x < seg_start y"
    and ins: "seg_insert ?x (map seg_of l) = (if M' = [] then A' @ ?x # B'
      else if seg_start (hd M') \<le> seg_start ?x \<and> seg_end ?x \<le> seg_end (hd M') then map seg_of l
      else A' @ seg_merge ?x M' (B' = []) # B')"
    by (rule seg_insert_split [OF sw, of ?x]) blast
  obtain A M B where l: "l = A @ M @ B" and maps: "A' = map seg_of A" "M' = map seg_of M" "B' = map seg_of B"
    using l' by (metis append_eq_map_conv)
  have pos: "partition_point (\<lambda>b. snd (bstr_index b) < index) l = length A"
    "partition_point (\<lambda>b. \<not> index + length target < fst (bstr_index b)) l = length A + length M"
    using push_back_positions [of A M B ?x] wf A' M' B' unfolding l maps by auto
  note pb = BufferStringList_push_back_def [of target index eof l, unfolded Let_def
      BufferString_make_simps fst_conv snd_conv add64_small [OF assms(2)] pos]
  have keep: "BufferStringList_wf l'" if "list_all BufferString_wf l'" "map seg_of l' = seg_insert ?x (map seg_of l)" for l'
    using that seg_insert_wf [OF sw, of ?x] assms(2) by (simp add: BufferStringList_wf_def)
  show ?thesis
  proof (cases M rule: rev_cases)
    case Nil
    then have "BufferStringList_push_back target index eof l = Inr (A @ BufferString_make index target eof # B)"
      using pb l by simp
    moreover have "map seg_of (A @ BufferString_make index target eof # B) = seg_insert ?x (map seg_of l)"
      using ins maps Nil by simp
    moreover have "list_all BufferString_wf (A @ BufferString_make index target eof # B)"
      using wf l assms(2) by simp
    ultimately show ?thesis
      using keep by blast
  next
    case (snoc N z)
    let ?a = "hd (N @ [z])"
    have a: "?a \<in> set M"
      using snoc by (metis hd_in_set snoc_eq_iff_butlast)
    have hd: "hd M' = seg_of ?a"
      using maps snoc by (cases N) simp_all
    have ia: "index \<le> seg_end (seg_of ?a)" and zj: "seg_start (seg_of z) \<le> index + length target"
      using M' maps a snoc by auto
    have wfa: "BufferString_wf ?a"
      using wf a l by (auto simp: list_all_iff)
    note sa = BufferString_wf_simps [OF wfa]
    show ?thesis
    proof (cases "seg_start (seg_of ?a) \<le> index \<and> index + length target \<le> seg_end (seg_of ?a)")
      case True
      have "l ! length A = ?a"
        using l snoc by (cases N) (simp_all add: nth_append)
      then have "BufferStringList_merge l (BufferString_make index target eof) target eof (length A) u f = Inr l" for u f
        using True sa assms(2) by (simp add: BufferStringList_merge_def u64_simps Let_def)
      then have "BufferStringList_push_back target index eof l = Inr l"
        using pb l snoc by simp
      moreover have "seg_insert ?x (map seg_of l) = map seg_of l"
        using ins True hd maps snoc by simp
      ultimately show ?thesis
        using assms(1) by simp
    next
      case False
      let ?b = "BufferString_make (min (seg_start (seg_of ?a)) index)
        (seg_bytes (seg_merge ?x (map seg_of M) (B = []))) (seg_eof (seg_merge ?x (map seg_of M) (B = [])))"
      have eof: "seg_eof (seg_merge ?x (map seg_of M) (B = [])) = (eof \<or> B = [] \<and> seg_eof (seg_of z))"
        using snoc by (simp add: seg_merge_def Let_def)
      have merged: "BufferStringList_push_back target index eof l = Inr (A @ ?b # B)"
      proof (cases "B = []")
        case True
        with l snoc have l1: "l = A @ N @ [z]" by simp
        show ?thesis
          using BufferStringList_merge_at_end [OF wf [unfolded l1] sw [unfolded l1] assms(2) ia zj False]
            pb eof True snoc l by simp
      next
        case False': False
        have l1: "l = A @ (N @ [z]) @ B" using l snoc by simp
        show ?thesis
          using BufferStringList_merge_inside [OF wf [unfolded l1] sw [unfolded l1] assms(2) ia zj False]
            pb eof False' snoc l by simp
      qed
      have start: "seg_start (seg_merge ?x (map seg_of M) (B = [])) = min (seg_start (seg_of ?a)) index"
        and end_eq: "seg_end (seg_merge ?x (map seg_of M) (B = [])) = max (seg_end (seg_of z)) (index + length target)"
        using seg_merge_bounds [of "map seg_of M" ?x "B = []"] hd maps snoc ia zj by auto
      have "seg_end (seg_of z) < W64"
        using sw l snoc by (simp add: segs_wf_def)
      then have "BufferString_wf ?b"
        using assms(2) start end_eq by (intro BufferString_make_wf) (simp add: seg_end_def)
      then have wf': "list_all BufferString_wf (A @ ?b # B)"
        using wf l by simp
      have "seg_of ?b = seg_merge ?x (map seg_of M) (B = [])"
        using start by (cases "seg_merge ?x (map seg_of M) (B = [])") simp
      moreover have "(seg_start (hd M') \<le> seg_start ?x \<and> seg_end ?x \<le> seg_end (hd M')) = False"
        using False hd by simp
      moreover have "M' \<noteq> []"
        using maps snoc by simp
      ultimately have "map seg_of (A @ ?b # B) = seg_insert ?x (map seg_of l)"
        using ins maps by auto
      with merged keep [OF wf'] show ?thesis
        by blast
    qed
  qed
qed

section \<open>The deque is a segment store\<close>

lemma BufferStringList_wf_Nil [simp]: "BufferStringList_wf []"
  by (simp add: BufferStringList_wf_def segs_wf_def)

lemma BufferStringList_wf_Cons:
  "BufferStringList_wf (b # l) \<Longrightarrow> BufferString_wf b \<and> BufferStringList_wf l"
  by (simp add: BufferStringList_wf_def segs_wf_def)

lemma BufferStringList_size_foldl:
  assumes "list_all BufferString_wf l"
    and "n + sum_list (map (\<lambda>x. length (seg_bytes x)) (map seg_of l)) < W64"
  shows "foldl (\<lambda>size b. add64 size (sub64 (snd (bstr_index b)) (fst (bstr_index b)))) n l =
    n + sum_list (map (\<lambda>x. length (seg_bytes x)) (map seg_of l))"
  using assms
proof (induction l arbitrary: n)
  case (Cons b l)
  have "sub64 (snd (bstr_index b)) (fst (bstr_index b)) = length (seg_bytes (seg_of b))"
    using Cons.prems(1) BufferString_wf_simps [of b] by (simp add: u64_simps) (simp add: seg_end_def)
  then show ?case
    using Cons by (simp add: u64_simps)
qed simp

lemma BufferStringList_size_eq:
  assumes "BufferStringList_wf l"
  shows "BufferStringList_size l = sum_list (map (\<lambda>x. length (seg_bytes x)) (map seg_of l))"
proof (cases l)
  case Nil
  then show ?thesis
    by (simp add: BufferStringList_size_def)
next
  case (Cons b l')
  have wf: "list_all BufferString_wf l" "segs_wf (map seg_of l)"
    using assms by (simp_all add: BufferStringList_wf_def)
  moreover have "map seg_of l \<noteq> []"
    using Cons by simp
  moreover have "seg_end (last (map seg_of l)) < W64"
    using wf(2) last_in_set [OF calculation(3)] unfolding segs_wf_def by blast
  ultimately show ?thesis
    using segs_total [of "map seg_of l"] BufferStringList_size_foldl [of l 0]
    by (simp add: BufferStringList_size_def)
qed

lemma BufferStringList_pop_first:
  assumes "BufferStringList_wf l" "map seg_of l = x # xs" "length (seg_bytes x) \<le> n"
  shows "\<exists>b l'. BufferStringList_pop_up_buffer_string l n = Inr (b, l') \<and> BufferString_wf b \<and>
    seg_of b = x \<and> BufferStringList_wf l' \<and> map seg_of l' = xs"
proof -
  obtain b l' where l: "l = b # l'" "seg_of b = x" "map seg_of l' = xs"
    using assms(2) by auto
  have "BufferString_wf b" "BufferStringList_wf l'"
    using BufferStringList_wf_Cons assms(1) l(1) by simp_all
  then show ?thesis
    using l assms(3) BufferString_wf_simps(3) [of b]
    by (simp add: BufferStringList_pop_up_buffer_string_def)
qed

lemma BufferStringList_pop_part:
  assumes "BufferStringList_wf l" "map seg_of l = [x]" "n < length (seg_bytes x)"
  shows "\<exists>b l'. BufferStringList_pop_up_buffer_string l n = Inr (b, l') \<and> BufferString_wf b \<and>
    seg_of b = Seg (seg_start x) (take n (seg_bytes x)) False \<and> BufferStringList_wf l' \<and>
    map seg_of l' = [Seg (seg_start x + n) (drop n (seg_bytes x)) (seg_eof x)]"
proof -
  obtain b where l: "l = [b]" "seg_of b = x"
    using assms(2) by auto
  have b: "BufferString_wf b"
    using BufferStringList_wf_Cons assms(1) l(1) by simp
  have "seg_start x + length (seg_bytes x) < W64"
    using BufferString_wf_simps(6) [OF b] l(2) by (simp add: seg_end_def)
  then show ?thesis
    using l assms(3) BufferString_wf_simps(1,3,5) [OF b]
    by (simp add: BufferStringList_pop_up_buffer_string_def u64_simps BufferStringList_wf_def segs_wf_def)
qed

lemma BufferStringList_top_eq:
  assumes "BufferStringList_wf l" "map seg_of l = x # xs"
  shows "BufferStringList_top_index l = seg_start x"
proof -
  obtain b l' where "l = b # l'" "seg_of b = x"
    using assms(2) by auto
  then show ?thesis
    using BufferStringList_wf_Cons BufferString_wf_simps(1) assms(1) by auto
qed

interpretation sl: segment_store "map seg_of" BufferStringList_wf seg_of BufferString_wf
  BufferStringList_push_back BufferStringList_top_index BufferStringList_pop_up_buffer_string
  BufferStringList_size
  by unfold_locales
    (simp add: BufferStringList_wf_def, rule BufferStringList_push_back_refines, assumption+,
      rule BufferStringList_top_eq, assumption+, rule BufferStringList_pop_first, assumption+,
      rule BufferStringList_pop_part, assumption+, rule BufferStringList_size_eq)

section \<open>Properties\<close>

text \<open>C6: \<open>push_back\<close>, with its binary searches and its string surgery, is the reference
  insertion. On a well-formed list it never throws, keeps the list well-formed (sorted, no two
  nodes touching, index ranges that match the strings), and the segments it leaves are those of
  \<open>seg_insert\<close>.\<close>

theorem push_back_implements_insert:
  assumes "BufferStringList_wf l" "index + length target < W64"
  shows "\<exists>l'. BufferStringList_push_back target index eof l = Inr l' \<and> BufferStringList_wf l' \<and>
    map seg_of l' = seg_insert (Seg index target eof) (map seg_of l)"
  by (rule sl.push_view [OF assms])

theorem push_back_implements_insert_witness:
  "\<exists>l'. BufferStringList_push_back [3, 4, 5, 6] 3 False
      [BufferString_make 0 [1, 1] False, BufferString_make 4 [9] False, BufferString_make 6 [8, 7] True] = Inr l' \<and>
    BufferStringList_wf l' \<and> map seg_of l' = [Seg 0 [1, 1] False, Seg 3 [3, 4, 5, 6, 7] True]"
proof -
  let ?l = "[BufferString_make 0 [1, 1] False, BufferString_make 4 [9] False, BufferString_make 6 [8, 7] True]"
  have "BufferStringList_wf ?l"
    by (simp add: BufferStringList_wf_def segs_wf_def W64_def)
  moreover have "3 + length [3, 4, 5, 6 :: byte] < W64"
    by (simp add: W64_def)
  moreover have "seg_insert (Seg 3 [3, 4, 5, 6] False) (map seg_of ?l) = [Seg 0 [1, 1] False, Seg 3 [3, 4, 5, 6, 7] True]"
    by (simp add: seg_insert_def seg_merge_def)
  ultimately show ?thesis
    using push_back_implements_insert [of ?l 3 "[3, 4, 5, 6]" False] by simp
qed

text \<open>A sequence of pushes into an empty store.\<close>

fun BufferStringList_push_step :: "BufferStringList \<Rightarrow> bytes \<times> size_t \<times> bool \<Rightarrow> BufferStringList res" where
  "BufferStringList_push_step l (target, index, eof) = BufferStringList_push_back target index eof l"

lemma BufferStringList_pushes_from:
  assumes "BufferStringList_wf l" "\<forall>(t, i, e) \<in> set ps. i + length t < W64"
  shows "\<exists>l'. run_ops BufferStringList_push_step l ps = Inr l' \<and> BufferStringList_wf l' \<and>
    dom (segs_map (map seg_of l')) =
      dom (segs_map (map seg_of l)) \<union> (\<Union>(t, i, e) \<in> set ps. {i..<i + length t})"
  using assms
proof (induction ps arbitrary: l)
  case (Cons p ps)
  obtain t i e where p: "p = (t, i, e)"
    by (cases p) auto
  then obtain l1 where l1: "BufferStringList_push_back t i e l = Inr l1" "BufferStringList_wf l1"
    "map seg_of l1 = seg_insert (Seg i t e) (map seg_of l)"
    using sl.push_view [OF Cons.prems(1), of i t e] Cons.prems(2) by auto
  then have "dom (segs_map (map seg_of l1)) = dom (segs_map (map seg_of l)) \<union> {i..<i + length t}"
    using seg_insert_dom [OF sl.view_wf [OF Cons.prems(1)], of "Seg i t e"] by simp
  moreover note Cons.IH [OF l1(2)]
  ultimately show ?case
    using l1(1) p Cons.prems(2) by (simp add: Un_assoc)
qed simp

text \<open>C7: no pushed byte is lost or counted twice. Whatever substrings are pushed into an empty
  store, in whatever order and however they overlap, no push throws; the store then holds a byte for
  exactly the indices that were pushed, its \<open>size\<close> is the number of distinct such indices, and
  its nodes are sorted with a gap between any two of them.\<close>

theorem BufferStringList_pushes:
  assumes "\<forall>(t, i, e) \<in> set ps. i + length t < W64"
  shows "\<exists>l. run_ops BufferStringList_push_step [] ps = Inr l \<and>
    dom (segs_map (map seg_of l)) = (\<Union>(t, i, e) \<in> set ps. {i..<i + length t}) \<and>
    BufferStringList_size l = card (\<Union>(t, i, e) \<in> set ps. {i..<i + length t}) \<and>
    sorted_wrt (\<lambda>a b. snd (bstr_index a) < fst (bstr_index b)) l"
proof -
  obtain l where l: "run_ops BufferStringList_push_step [] ps = Inr l" "BufferStringList_wf l"
    "dom (segs_map (map seg_of l)) = (\<Union>(t, i, e) \<in> set ps. {i..<i + length t})"
    using BufferStringList_pushes_from [OF BufferStringList_wf_Nil assms] by auto
  have sorted: "sorted_wrt (\<lambda>x y. seg_end x < seg_start y) (map seg_of l)"
    and wf: "\<And>b. b \<in> set l \<Longrightarrow> BufferString_wf b"
    using l(2) by (simp_all add: BufferStringList_wf_def segs_wf_def list_all_iff)
  have "sorted_wrt (\<lambda>a b. snd (bstr_index a) < fst (bstr_index b)) l"
    using sorted by (simp add: sorted_wrt_map) (erule sorted_wrt_mono_rel [rotated],
      simp add: wf BufferString_wf_simps(1,2))
  then show ?thesis
    using l segs_card [OF sorted] sl.total_view [OF l(2)] by auto
qed

theorem BufferStringList_pushes_witness:
  "\<exists>l. run_ops BufferStringList_push_step [] [([1, 2], 4, False), ([7], 0, False), ([1, 1, 1], 3, True)] = Inr l \<and>
    BufferStringList_size l = card ({4..<6} \<union> ({0..<1} \<union> {3..<6 :: nat}))"
proof -
  have h: "\<forall>(t, i, e) \<in> set [([1, 2 :: byte], 4 :: nat, False), ([7], 0, False), ([1, 1, 1], 3, True)]. i + length t < W64"
    by (simp add: W64_def)
  have "(\<Union>(t, i, e) \<in> set [([1, 2 :: byte], 4 :: nat, False), ([7], 0, False), ([1, 1, 1], 3, True)]. {i..<i + length t}) =
      {4..<6} \<union> ({0..<1} \<union> {3..<6})"
    by simp
  then show ?thesis
    using BufferStringList_pushes [OF h] by auto
qed

text \<open>\<open>push_back\<close> drops the end mark of a range that lies inside a stored one. Storing the
  last three bytes of a stream, then the empty range that carries the end mark, then the first byte
  leaves a single node without the mark; with the first two pushes in the other order the mark is
  kept.\<close>

lemma push_back_loses_eof:
  "rbind (run_ops BufferStringList_push_step [] [([2, 3, 4], 1, False), ([], 4, True), ([1], 0, False)])
     (\<lambda>l. Inr (map seg_of l)) = Inr [Seg 0 [1, 2, 3, 4] False] \<and>
   rbind (run_ops BufferStringList_push_step [] [([], 4, True), ([2, 3, 4], 1, False), ([1], 0, False)])
     (\<lambda>l. Inr (map seg_of l)) = Inr [Seg 0 [1, 2, 3, 4] True]"
  by (intro conjI) (simp_all add: sponge_eval seg_of_def)

text \<open>A partial read of the first of several nodes puts the unread rest behind the later nodes,
  so that the list is no longer sorted and the next read returns the wrong substring.\<close>

lemma pop_up_buffer_string_reorders:
  "rbind (BufferStringList_pop_up_buffer_string [BufferString_make 0 [1, 2] False, BufferString_make 5 [6] False] 1)
     (\<lambda>(b, l). Inr (seg_of b, map seg_of l)) = Inr (Seg 0 [1] False, [Seg 5 [6] False, Seg 1 [2] False])"
  by (simp add: sponge_eval seg_of_def)

end
