(* ===== verification/Stream_Reassembler.thy ===== *)
theory Stream_Reassembler
  imports Byte_Stream Buffer_String
begin

text \<open>
  The stream reassembler, \<open>libsponge/stream_reassembler.hh\<close> and \<open>stream_reassembler.cc\<close>:
  substrings arrive in any order, contiguous ones go to the output stream, the others wait in the
  segment store. The theory proves that the output is always a prefix of the one stream the
  substrings come from, that nothing accepted is lost, and how much memory the code can use.
\<close>

section \<open>The class\<close>

record StreamReassembler =
  sr_top_pointer :: nat
  sr_output :: ByteStream
  sr_capacity :: size_t
  sr_buffer_list :: BufferStringList

definition StreamReassembler_make :: "size_t \<Rightarrow> StreamReassembler" where
  "StreamReassembler_make capacity = \<lparr>sr_top_pointer = 0, sr_output = ByteStream_make capacity,
     sr_capacity = capacity, sr_buffer_list = []\<rparr>"

definition StreamReassembler_current_capacity :: "StreamReassembler \<Rightarrow> size_t" where
  "StreamReassembler_current_capacity r = sub64 (sr_capacity r) (ByteStream_buffer_size (sr_output r))"

definition StreamReassembler_unassembled_bytes :: "StreamReassembler \<Rightarrow> size_t" where
  "StreamReassembler_unassembled_bytes r = BufferStringList_size (sr_buffer_list r)"

definition StreamReassembler_empty :: "StreamReassembler \<Rightarrow> bool" where
  "StreamReassembler_empty r \<longleftrightarrow> BufferStringList_empty (sr_buffer_list r)"

text \<open>
  The removal of the part that was assembled before, \<open>None\<close> for the early return: the string and
  the index that are left.
\<close>

definition StreamReassembler_clip :: "nat \<Rightarrow> bytes \<Rightarrow> nat \<Rightarrow> (bytes \<times> nat) option res" where
  "StreamReassembler_clip top_pointer data index =
    (if index < top_pointer
     then if add64 index (length data) < top_pointer then Inr None
       else rbind (substr data (sub64 top_pointer index) (sub64 (length data) (sub64 top_pointer index)))
         (\<lambda>data_ref. Inr (Some (data_ref, top_pointer)))
     else Inr (Some (data, index)))"

text \<open>The tail of the function, once the substring is in the list.\<close>

definition StreamReassembler_flush :: "StreamReassembler \<Rightarrow> StreamReassembler res" where
  "StreamReassembler_flush r =
    (if sr_top_pointer r \<noteq> BufferStringList_top_index (sr_buffer_list r) then Inr r
     else
      rbind (BufferStringList_pop_up_buffer_string (sr_buffer_list r)
          (ByteStream_remaining_capacity (sr_output r))) (\<lambda>(buffer_string, list).
      rbind (BufferString_size buffer_string) (\<lambda>n.
      rbind (BufferString_get_string buffer_string) (\<lambda>str.
        let output = snd (ByteStream_write (sr_output r) str) in
        Inr (r\<lparr>sr_buffer_list := list,
          sr_top_pointer := add64 (sr_top_pointer r) n,
          sr_output := (if bstr_eof buffer_string then ByteStream_end_input output else output)\<rparr>)))))"

definition StreamReassembler_push_substring ::
  "StreamReassembler \<Rightarrow> bytes \<Rightarrow> nat \<Rightarrow> bool \<Rightarrow> StreamReassembler res" where
  "StreamReassembler_push_substring r data index eof =
    rbind (StreamReassembler_clip (sr_top_pointer r) data index) (\<lambda>clipped.
      case clipped of None \<Rightarrow> Inr r
      | Some (data_ref, index_ref) \<Rightarrow>
        let capacity = StreamReassembler_current_capacity r in
        if capacity < add64 (sub64 index_ref (sr_top_pointer r)) 1 then Inr r
        else
          rbind (if capacity < length data_ref then substr data_ref 0 capacity else Inr data_ref) (\<lambda>stored.
          rbind (BufferStringList_push_back stored index_ref
              (if capacity < length data_ref then False else eof) (sr_buffer_list r)) (\<lambda>list.
            StreamReassembler_flush (r\<lparr>sr_buffer_list := list\<rparr>))))"

lemmas [sponge_eval] = StreamReassembler_make_def StreamReassembler_current_capacity_def
  StreamReassembler_unassembled_bytes_def StreamReassembler_empty_def StreamReassembler_clip_def
  StreamReassembler_flush_def StreamReassembler_push_substring_def

section \<open>Invariant\<close>

text \<open>
  Relative to the stream \<open>S\<close> whose first byte has index \<open>off\<close>: everything before the top
  pointer was written, the waiting segments lie in the window, and the end is signalled only when
  all of \<open>S\<close> was written.
\<close>

definition StreamReassembler_window :: "StreamReassembler \<Rightarrow> nat" where
  "StreamReassembler_window r = sr_capacity r - length (ByteStream_content (sr_output r))"

definition StreamReassembler_inv :: "nat \<Rightarrow> bytes \<Rightarrow> bytes \<Rightarrow> StreamReassembler \<Rightarrow> bool" where
  "StreamReassembler_inv off S delivered r \<longleftrightarrow>
    ByteStream_inv (sr_output r) \<and> bs_capacity (sr_output r) = sr_capacity r \<and>
    ByteStream_tight (sr_output r) \<and>
    off \<le> sr_top_pointer r \<and> sr_top_pointer r \<le> off + length S \<and> off + length S < W64 \<and>
    delivered @ ByteStream_content (sr_output r) = take (sr_top_pointer r - off) S \<and>
    bs_bytes_written (sr_output r) = sr_top_pointer r - off \<and>
    (bs_input_end (sr_output r) \<longrightarrow> sr_top_pointer r = off + length S) \<and>
    BufferStringList_wf (sr_buffer_list r) \<and>
    segs_window off S (sr_capacity r) (sr_top_pointer r) (StreamReassembler_window r)
      (map seg_of (sr_buffer_list r))"

abbreviation StreamReassembler_segs :: "StreamReassembler \<Rightarrow> seg list" where
  "StreamReassembler_segs r \<equiv> map seg_of (sr_buffer_list r)"

text \<open>
  After every call nothing empty waits at the front; and only a substring that ends the stream
  leaves a mark of the end.
\<close>

definition StreamReassembler_settled :: "StreamReassembler \<Rightarrow> bool" where
  "StreamReassembler_settled r \<longleftrightarrow>
    (\<forall>y \<in> set (StreamReassembler_segs r). seg_start y = sr_top_pointer r \<longrightarrow> seg_bytes y \<noteq> [])"

definition StreamReassembler_marked :: "StreamReassembler \<Rightarrow> bool" where
  "StreamReassembler_marked r \<longleftrightarrow> bs_input_end (sr_output r) \<or> (\<exists>y \<in> set (StreamReassembler_segs r). seg_eof y)"

text \<open>Nothing at or beyond the index \<open>b\<close> was received.\<close>

definition StreamReassembler_within :: "nat \<Rightarrow> StreamReassembler \<Rightarrow> bool" where
  "StreamReassembler_within b r \<longleftrightarrow> sr_top_pointer r \<le> b \<and> dom (segs_map (StreamReassembler_segs r)) \<subseteq> {..<b}"

lemma StreamReassembler_window_eq:
  assumes "StreamReassembler_inv off S delivered r"
  shows "StreamReassembler_current_capacity r = StreamReassembler_window r"
    "ByteStream_remaining_capacity (sr_output r) = StreamReassembler_window r"
    "StreamReassembler_window r \<le> sr_capacity r" "sr_capacity r < W64"
  using assms by (simp_all add: StreamReassembler_inv_def StreamReassembler_current_capacity_def
    StreamReassembler_window_def) (simp_all add: ByteStream_inv_def u64_simps)

text \<open>Moving the front of the list to the output.\<close>

lemma StreamReassembler_flush_spec:
  assumes inv: "StreamReassembler_inv off S delivered r" and ne: "sr_buffer_list r \<noteq> []"
  obtains r' where "StreamReassembler_flush r = Inr r'" "StreamReassembler_inv off S delivered r'"
    "sr_capacity r' = sr_capacity r" "sr_top_pointer r \<le> sr_top_pointer r'"
    "StreamReassembler_window r' + (sr_top_pointer r' - sr_top_pointer r) = StreamReassembler_window r"
    "dom (segs_map (StreamReassembler_segs r)) =
      {sr_top_pointer r..<sr_top_pointer r'} \<union> dom (segs_map (StreamReassembler_segs r'))"
    "StreamReassembler_window r' = 0 \<or>
      (\<forall>y \<in> set (StreamReassembler_segs r'). sr_top_pointer r' < seg_start y)"
    "StreamReassembler_settled r'" "StreamReassembler_marked r' \<Longrightarrow> StreamReassembler_marked r"
proof -
  let ?T = "sr_top_pointer r" and ?w = "StreamReassembler_window r" and ?l = "sr_buffer_list r"
  let ?out = "sr_output r"
  note I = inv [unfolded StreamReassembler_inv_def]
  have out: "ByteStream_inv ?out" and wf: "BufferStringList_wf ?l"
    and win: "segs_window off S (sr_capacity r) ?T ?w (map seg_of ?l)"
    using I by simp_all
  obtain x xs where x: "map seg_of ?l = x # xs"
    using ne by (cases ?l) auto
  have top_index: "BufferStringList_top_index ?l = seg_start x"
    by (rule sl.top_view [OF wf x])
  show thesis
  proof (cases "?T = seg_start x")
    case False
    then have "?T < seg_start x"
      using win x by (auto simp: segs_window_def)
    then have "\<forall>y \<in> set (map seg_of ?l). ?T < seg_start y"
      using sorted_segs_extremes(1) segs_window_wf [OF win] x unfolding segs_wf_def
      by (metis list.sel(1) order_less_le_trans)
    then show thesis
      by (intro that [of r])
        (use inv False top_index in \<open>auto simp: StreamReassembler_flush_def StreamReassembler_settled_def\<close>)
  next
    case True
    have "off \<le> ?T"
      using I by simp
    with wf win x True [symmetric] show thesis
    proof (rule sl.pop_window)
      fix b l' d
      assume pop: "BufferStringList_pop_up_buffer_string ?l ?w = Inr (b, l')" "BufferString_wf b"
          "BufferStringList_wf l'"
        and d: "seg_bytes (seg_of b) = d" "length d \<le> ?w" "d = take (length d) (drop (?T - off) S)"
        and eof: "seg_eof (seg_of b) \<Longrightarrow> ?T + length d = off + length S"
        and win': "segs_window off S (sr_capacity r) (?T + length d) (?w - length d) (map seg_of l')"
        and front: "length d = ?w \<or> (\<forall>y \<in> set (map seg_of l'). ?T + length d < seg_start y)"
        and dom: "dom (segs_map (map seg_of ?l)) = {?T..<?T + length d} \<union> dom (segs_map (map seg_of l'))"
        and settled: "\<forall>y \<in> set (map seg_of l'). seg_start y = ?T + length d \<longrightarrow> seg_bytes y \<noteq> []"
        and mark: "seg_eof (seg_of b) \<or> (\<exists>y \<in> set (map seg_of l'). seg_eof y) \<Longrightarrow> \<exists>y \<in> set (map seg_of ?l). seg_eof y"
      obtain n out' where w: "ByteStream_write ?out d = (n, out')"
        by fastforce
      note W = ByteStream_write_spec [OF out w]
      have n: "n = length d"
        using W(1) d(2) I by (simp add: StreamReassembler_window_def)
      have "length d \<le> length (drop (?T - off) S)"
        using arg_cong [OF d(3), of length] by simp
      then have top': "?T + length d \<le> off + length S"
        using I by auto
      have T': "add64 ?T (length d) = ?T + length d"
        using I top' by (simp add: u64_simps)
      let ?r = "r\<lparr>sr_buffer_list := l', sr_top_pointer := ?T + length d,
        sr_output := (if seg_eof (seg_of b) then ByteStream_end_input out' else out')\<rparr>"
      have flush: "StreamReassembler_flush r = Inr ?r"
        using pop d(1) w T' True top_index StreamReassembler_window_eq(2) [OF inv]
        by (simp add: StreamReassembler_flush_def BufferString_wf_simps)
      have content: "ByteStream_content (sr_output ?r) = ByteStream_content ?out @ d"
        using W(2) n by simp
      have window: "StreamReassembler_window ?r = ?w - length d"
        using content by (simp add: StreamReassembler_window_def)
      have "take (?T + length d - off) S = take (?T - off) S @ d"
      proof -
        have "?T + length d - off = (?T - off) + length d"
          using I by simp
        then show ?thesis
          using d(3) by (simp add: take_add)
      qed
      then have data: "delivered @ ByteStream_content (sr_output ?r) = take (?T + length d - off) S"
        using content I by simp
      have "ByteStream_tight out'"
        using ByteStream_tight_write [OF _ w] I d(2) StreamReassembler_window_eq(2) [OF inv] by fastforce
      moreover have "bs_bytes_written out' = ?T + length d - off"
        using W(8) n I top' add64_small [of "?T - off" "length d"] by auto
      moreover have "bs_input_end (sr_output ?r) \<Longrightarrow> ?T + length d = off + length S"
        using W(5) I eof top' by (auto split: if_splits)
      ultimately have inv': "StreamReassembler_inv off S delivered ?r"
        unfolding StreamReassembler_inv_def window
        using I W(3,4) win' pop(3) top' data by simp
      have settled': "StreamReassembler_settled ?r"
        using settled by (simp add: StreamReassembler_settled_def)
      have mark': "StreamReassembler_marked r" if "StreamReassembler_marked ?r"
        using that mark W(5) by (auto simp: StreamReassembler_marked_def split: if_splits)
      show thesis
        by (rule that [OF flush inv' _ _ _ _ _ settled' mark']) (use d(2) dom front window in \<open>auto\<close>)
    qed
  qed
qed

text \<open>Receiving a substring of the stream.\<close>

lemma StreamReassembler_clip_eq:
  assumes "T < W64" "index + length data < W64"
  shows "StreamReassembler_clip T data index =
    Inr (if index + length data < T then None else Some (drop (T - index) data, max index T))"
  using assms by (simp add: StreamReassembler_clip_def u64_simps res_simps)

lemma StreamReassembler_clip_fits:
  assumes "seg_fits off S (Seg index data eof)" "T \<le> index + length data"
  shows "seg_fits off S (Seg (max index T) (drop (T - index) data) eof)"
proof -
  have "index + (T - index) = max index T" "T - index \<le> length data"
    using assms(2) by auto
  then show ?thesis
    using seg_fits_drop [OF assms(1), of "T - index"] by simp
qed

definition StreamReassembler_accepts :: "StreamReassembler \<Rightarrow> nat \<Rightarrow> nat \<Rightarrow> bool" where
  "StreamReassembler_accepts r index n \<longleftrightarrow>
    sr_top_pointer r \<le> index + n \<and> max index (sr_top_pointer r) < sr_top_pointer r + StreamReassembler_window r"

lemma StreamReassembler_push_ignored:
  assumes inv: "StreamReassembler_inv off S delivered r" and bound: "index + length data + 1 < W64"
    and no: "\<not> StreamReassembler_accepts r index (length data)"
  shows "StreamReassembler_push_substring r data index eof = Inr r"
proof -
  have T: "sr_top_pointer r < W64"
    using inv by (simp add: StreamReassembler_inv_def)
  then show ?thesis
    using no bound StreamReassembler_window_eq(1) [OF inv]
    by (auto simp: StreamReassembler_push_substring_def StreamReassembler_clip_eq StreamReassembler_accepts_def
      u64_simps max_def Let_def)
qed

lemma StreamReassembler_push_accepted:
  assumes inv: "StreamReassembler_inv off S delivered r"
    and fits: "seg_fits off S (Seg index data eof)" and bound: "index + length data + 1 < W64"
    and yes: "StreamReassembler_accepts r index (length data)"
  obtains r' where "StreamReassembler_push_substring r data index eof = Inr r'"
    "StreamReassembler_inv off S delivered r'" "sr_capacity r' = sr_capacity r"
    "sr_top_pointer r \<le> sr_top_pointer r'"
    "StreamReassembler_window r' + (sr_top_pointer r' - sr_top_pointer r) = StreamReassembler_window r"
    "{sr_top_pointer r..<sr_top_pointer r'} \<union> dom (segs_map (StreamReassembler_segs r')) =
      dom (segs_map (StreamReassembler_segs r)) \<union>
      {max index (sr_top_pointer r)..<min (index + length data) (max index (sr_top_pointer r) + StreamReassembler_window r)}"
    "StreamReassembler_window r' = 0 \<or>
      (\<forall>y \<in> set (StreamReassembler_segs r'). sr_top_pointer r' < seg_start y)"
    "StreamReassembler_settled r'" "StreamReassembler_marked r' \<Longrightarrow> StreamReassembler_marked r \<or> eof"
proof -
  let ?T = "sr_top_pointer r" and ?w = "StreamReassembler_window r" and ?i = "max index (sr_top_pointer r)"
  note I = inv [unfolded StreamReassembler_inv_def] and W = StreamReassembler_window_eq [OF inv]
  define d where "d = drop (?T - index) data"
  define s where "s = (if ?w < length d then take ?w d else d)"
  define e where "e = (if ?w < length d then False else eof)"
  have T: "?T < W64" and reach: "?T \<le> index + length data" "?i < ?T + ?w"
    using I yes by (simp_all add: StreamReassembler_accepts_def)
  have e_imp: "e \<Longrightarrow> eof"
    by (simp add: e_def split: if_splits)
  have d_fits: "seg_fits off S (Seg ?i d eof)"
    unfolding d_def by (rule StreamReassembler_clip_fits [OF fits reach(1)])
  have s_fits: "seg_fits off S (Seg ?i s e)"
    using d_fits seg_fits_take [OF d_fits, of ?w] by (simp add: s_def e_def)
  have range: "?i + length s = min (index + length data) (?i + ?w)" and s_len: "length s \<le> ?w"
    using reach(1) by (auto simp: s_def d_def)
  have "\<not> ?w < add64 (sub64 ?i ?T) 1"
    using reach(2) W T bound by (auto simp: u64_simps)
  then have push: "StreamReassembler_push_substring r data index eof =
      rbind (BufferStringList_push_back s ?i e (sr_buffer_list r)) (\<lambda>list. StreamReassembler_flush (r\<lparr>sr_buffer_list := list\<rparr>))"
    using reach(1) T bound W(1) by (simp add: StreamReassembler_push_substring_def StreamReassembler_clip_eq
      d_def s_def e_def substr_ok)
  show thesis
  proof (rule sl.push_window)
    show "BufferStringList_wf (sr_buffer_list r)" "seg_fits off S (Seg ?i s e)"
      "segs_window off S (sr_capacity r) ?T ?w (StreamReassembler_segs r)"
      using I s_fits by simp_all
    show "?T \<le> ?i" "?i \<le> ?T + ?w" "?i + length s \<le> ?T + ?w + sr_capacity r" "?i + length s < W64"
      using reach range s_len W(3) bound by auto
  next
    fix l' x xs
    assume l': "BufferStringList_push_back s ?i e (sr_buffer_list r) = Inr l'" "BufferStringList_wf l'"
        "map seg_of l' = x # xs" "segs_window off S (sr_capacity r) ?T ?w (map seg_of l')"
      and dom: "dom (segs_map (map seg_of l')) = dom (segs_map (StreamReassembler_segs r)) \<union> {?i..<?i + length s}"
      and mark: "\<exists>y \<in> set (map seg_of l'). seg_eof y \<Longrightarrow> e \<or> (\<exists>y \<in> set (StreamReassembler_segs r). seg_eof y)"
    let ?r = "r\<lparr>sr_buffer_list := l'\<rparr>"
    have window: "StreamReassembler_window ?r = ?w"
      by (simp add: StreamReassembler_window_def)
    have "StreamReassembler_inv off S delivered ?r"
      using I l' by (simp add: StreamReassembler_inv_def window)
    moreover have "sr_buffer_list ?r \<noteq> []"
      using l'(3) by auto
    ultimately show thesis
    proof (rule StreamReassembler_flush_spec)
      fix r'
      assume flush: "StreamReassembler_flush ?r = Inr r'" "StreamReassembler_inv off S delivered r'"
        "sr_capacity r' = sr_capacity ?r" "sr_top_pointer ?r \<le> sr_top_pointer r'"
        "StreamReassembler_window r' + (sr_top_pointer r' - sr_top_pointer ?r) = StreamReassembler_window ?r"
        "dom (segs_map (StreamReassembler_segs ?r)) =
          {sr_top_pointer ?r..<sr_top_pointer r'} \<union> dom (segs_map (StreamReassembler_segs r'))"
        "StreamReassembler_window r' = 0 \<or>
          (\<forall>y \<in> set (StreamReassembler_segs r'). sr_top_pointer r' < seg_start y)"
        "StreamReassembler_settled r'" "StreamReassembler_marked r' \<Longrightarrow> StreamReassembler_marked ?r"
      have mark': "StreamReassembler_marked r \<or> eof" if "StreamReassembler_marked r'"
        using flush(9) [OF that] mark e_imp by (fastforce simp: StreamReassembler_marked_def)
      show thesis
        by (rule that [OF _ flush(2) _ _ _ _ flush(7,8) mark'])
          (use flush push l'(1) dom range window in simp_all)
    qed
  qed
qed

lemma StreamReassembler_push_safe:
  assumes inv: "StreamReassembler_inv off S delivered r"
    and fits: "seg_fits off S (Seg index data eof)" and bound: "index + length data + 1 < W64"
  obtains r' where "StreamReassembler_push_substring r data index eof = Inr r'"
    "StreamReassembler_inv off S delivered r'" "sr_capacity r' = sr_capacity r"
    "sr_top_pointer r \<le> sr_top_pointer r'"
    "StreamReassembler_settled r \<longrightarrow> StreamReassembler_settled r'"
    "StreamReassembler_marked r' \<longrightarrow> StreamReassembler_marked r \<or> eof"
    "\<forall>b. StreamReassembler_within b r \<longrightarrow> index + length data \<le> b \<longrightarrow> StreamReassembler_within b r'"
proof (cases "StreamReassembler_accepts r index (length data)")
  case True
  from inv fits bound True show thesis
  proof (rule StreamReassembler_push_accepted)
    fix r' :: StreamReassembler
    let ?T = "sr_top_pointer r" and ?T' = "sr_top_pointer r'"
    assume r': "StreamReassembler_push_substring r data index eof = Inr r'" "StreamReassembler_inv off S delivered r'"
      "sr_capacity r' = sr_capacity r" "?T \<le> ?T'"
      and dom: "{?T..<?T'} \<union> dom (segs_map (StreamReassembler_segs r')) = dom (segs_map (StreamReassembler_segs r)) \<union>
        {max index ?T..<min (index + length data) (max index ?T + StreamReassembler_window r)}"
      and rest: "StreamReassembler_settled r'" "StreamReassembler_marked r' \<Longrightarrow> StreamReassembler_marked r \<or> eof"
    have "StreamReassembler_within b r'" if "StreamReassembler_within b r" "index + length data \<le> b" for b
    proof -
      have "{?T..<?T'} \<union> dom (segs_map (StreamReassembler_segs r')) \<subseteq> {..<b}"
        unfolding dom using that by (auto simp: StreamReassembler_within_def)
      then have "{?T..<?T'} \<subseteq> {..<b}" "dom (segs_map (StreamReassembler_segs r')) \<subseteq> {..<b}"
        by simp_all
      moreover have "?T' \<le> b"
      proof (rule ccontr)
        assume "\<not> ?T' \<le> b"
        then have "b \<in> {?T..<?T'}"
          using that(1) by (simp add: StreamReassembler_within_def)
        then show False
          using \<open>{?T..<?T'} \<subseteq> {..<b}\<close> by blast
      qed
      ultimately show ?thesis
        by (simp add: StreamReassembler_within_def)
    qed
    then show thesis
      by (intro that [OF r']) (use rest in auto)
  qed
next
  case False
  show thesis
    by (rule that [OF StreamReassembler_push_ignored [OF inv bound False] inv]) simp_all
qed

text \<open>An accepted substring that reaches the front moves the top pointer on, up to the window.\<close>

lemma StreamReassembler_push_progress:
  assumes inv: "StreamReassembler_inv off S delivered r"
    and fits: "seg_fits off S (Seg index data eof)" and bound: "index + length data + 1 < W64"
    and front: "index \<le> sr_top_pointer r" "sr_top_pointer r < index + length data"
  obtains r' where "StreamReassembler_push_substring r data index eof = Inr r'"
    "StreamReassembler_inv off S delivered r'"
    "min (index + length data) (sr_top_pointer r + StreamReassembler_window r) \<le> sr_top_pointer r'"
proof (cases "StreamReassembler_accepts r index (length data)")
  case False
  then have "StreamReassembler_window r = 0"
    using front by (auto simp: StreamReassembler_accepts_def)
  then show thesis
    using that [OF StreamReassembler_push_ignored [OF inv bound False] inv] by simp
next
  case True
  let ?T = "sr_top_pointer r" and ?w = "StreamReassembler_window r"
  from inv fits bound True show thesis
  proof (rule StreamReassembler_push_accepted)
    fix r'
    assume r': "StreamReassembler_push_substring r data index eof = Inr r'"
        "StreamReassembler_inv off S delivered r'" "?T \<le> sr_top_pointer r'"
        "StreamReassembler_window r' + (sr_top_pointer r' - ?T) = ?w"
        "{?T..<sr_top_pointer r'} \<union> dom (segs_map (StreamReassembler_segs r')) =
          dom (segs_map (StreamReassembler_segs r)) \<union> {max index ?T..<min (index + length data) (max index ?T + ?w)}"
        "StreamReassembler_window r' = 0 \<or>
          (\<forall>y \<in> set (StreamReassembler_segs r'). sr_top_pointer r' < seg_start y)"
    have "min (index + length data) (?T + ?w) \<le> sr_top_pointer r'"
    proof (rule ccontr)
      assume "\<not> ?thesis"
      then have less: "sr_top_pointer r' < min (index + length data) (?T + ?w)"
        by linarith
      then have "sr_top_pointer r' \<in> {max index ?T..<min (index + length data) (max index ?T + ?w)}"
        using front r'(3) by simp
      then have "sr_top_pointer r' \<in> dom (segs_map (StreamReassembler_segs r'))"
        using r'(5) by (metis Un_iff atLeastLessThan_iff less_irrefl)
      then have "StreamReassembler_window r' = 0"
        using r'(6) segs_map_front by blast
      then show False
        using r'(3,4) less by linarith
    qed
    then show thesis
      by (rule that [OF r'(1,2)])
  qed
qed

text \<open>The end of the stream is accepted as soon as everything before it is there.\<close>

lemma StreamReassembler_push_end:
  assumes inv: "StreamReassembler_inv off S delivered r" and settled: "StreamReassembler_settled r"
    and all: "sr_top_pointer r = off + length S" and window: "0 < StreamReassembler_window r"
    and seg: "seg_fits off S (Seg index data True)" and bound: "index + length data + 1 < W64"
  obtains r' where "StreamReassembler_push_substring r data index True = Inr r'" "bs_input_end (sr_output r')"
proof -
  let ?T = "sr_top_pointer r" and ?w = "StreamReassembler_window r" and ?segs = "StreamReassembler_segs r"
  note I = inv [unfolded StreamReassembler_inv_def] and W = StreamReassembler_window_eq [OF inv]
  have ends: "index + length data = ?T"
    using seg all by (simp add: seg_fits_def)
  have "?T < seg_start y" if y: "y \<in> set ?segs" for y
  proof -
    have win: "seg_fits off S y" "?T \<le> seg_start y"
      using I y by (auto simp: segs_window_def)
    then have "seg_bytes y = []"
      using seg_fits_bounds(2) [of off S y] all by (cases "seg_bytes y") (auto simp: seg_end_def)
    then show ?thesis
      using settled win(2) y by (auto simp: StreamReassembler_settled_def)
  qed
  then have "dropWhile (\<lambda>y. seg_end y < ?T) ?segs = ?segs" "takeWhile (\<lambda>y. seg_end y < ?T) ?segs = []"
    "takeWhile (\<lambda>y. seg_start y \<le> ?T) ?segs = []" "dropWhile (\<lambda>y. seg_start y \<le> ?T) ?segs = ?segs"
    by (cases ?segs; fastforce simp: seg_end_def)+
  then have ins: "seg_insert (Seg ?T [] True) ?segs = Seg ?T [] True # ?segs"
    by (simp add: seg_insert_def)
  have T: "?T < W64"
    using I by simp
  obtain l' where l': "BufferStringList_push_back [] ?T True (sr_buffer_list r) = Inr l'" "BufferStringList_wf l'"
    "map seg_of l' = Seg ?T [] True # ?segs"
    using sl.push_view [of "sr_buffer_list r" ?T "[]" True] I T ins by auto
  obtain b l'' where pop: "BufferStringList_pop_up_buffer_string l' ?w = Inr (b, l'')" "BufferString_wf b" "seg_of b = Seg ?T [] True"
    using sl.pop_first [OF l'(2,3), of ?w] by auto
  have "StreamReassembler_push_substring r data index True = StreamReassembler_flush (r\<lparr>sr_buffer_list := l'\<rparr>)"
    using l'(1) ends window T W(1) bound
    by (simp add: StreamReassembler_push_substring_def StreamReassembler_clip_eq u64_simps max_def Let_def)
  moreover have "\<exists>r'. StreamReassembler_flush (r\<lparr>sr_buffer_list := l'\<rparr>) = Inr r' \<and> bs_input_end (sr_output r')"
    using pop W(2) sl.top_view [OF l'(2,3)]
    by (simp add: StreamReassembler_flush_def BufferString_wf_simps ByteStream_end_input_def)
  ultimately show thesis
    using that by auto
qed

text \<open>The reader takes bytes out of the output stream, which opens the window.\<close>

lemma StreamReassembler_take:
  assumes inv: "StreamReassembler_inv off S delivered r" and len: "len \<le> length (ByteStream_content (sr_output r))"
  obtains out where "ByteStream_pop_output (sr_output r) len = Inr out"
    "StreamReassembler_inv off S (delivered @ take len (ByteStream_content (sr_output r))) (r\<lparr>sr_output := out\<rparr>)"
proof -
  note I = inv [unfolded StreamReassembler_inv_def]
  have "ByteStream_inv (sr_output r)"
    using I by simp
  from this len show thesis
  proof (rule ByteStream_pop_ok)
    fix bl'
    let ?out = "sr_output r\<lparr>bs_buffers := bl', bs_bytes_read := add64 (bs_bytes_read (sr_output r)) len\<rparr>"
    let ?r = "r\<lparr>sr_output := ?out\<rparr>"
    assume pop: "ByteStream_pop_output (sr_output r) len = Inr ?out"
      and bl': "sponge_BufferList_content bl' = drop len (ByteStream_content (sr_output r))" "ByteStream_inv ?out"
    have content: "ByteStream_content ?out = drop len (ByteStream_content (sr_output r))"
      using bl'(1) by simp
    have "ByteStream_tight ?out"
      using ByteStream_tight_pop [OF _ _ pop] I by simp
    moreover have "StreamReassembler_window r \<le> StreamReassembler_window ?r"
      using content by (simp add: StreamReassembler_window_def)
    then have "segs_window off S (sr_capacity r) (sr_top_pointer r) (StreamReassembler_window ?r) (StreamReassembler_segs r)"
      using I segs_window_grow by blast
    ultimately have "StreamReassembler_inv off S (delivered @ take len (ByteStream_content (sr_output r))) ?r"
      using I bl'(2) content unfolding StreamReassembler_inv_def by simp
    with pop show thesis
      by (rule that)
  qed
qed

text \<open>What the code holds, assembled and waiting, is at most twice the capacity.\<close>

lemma StreamReassembler_memory:
  assumes inv: "StreamReassembler_inv off S delivered r"
  shows "StreamReassembler_unassembled_bytes r + ByteStream_buffer_size (sr_output r) \<le> 2 * sr_capacity r"
proof -
  note I = inv [unfolded StreamReassembler_inv_def] and W = StreamReassembler_window_eq [OF inv]
  have wf: "BufferStringList_wf (sr_buffer_list r)"
    and win: "segs_window off S (sr_capacity r) (sr_top_pointer r) (StreamReassembler_window r) (StreamReassembler_segs r)"
    and out: "ByteStream_inv (sr_output r)" "bs_capacity (sr_output r) = sr_capacity r"
    using I by simp_all
  let ?l = "StreamReassembler_segs r"
  have "sum_list (map (\<lambda>x. length (seg_bytes x)) ?l) \<le> StreamReassembler_window r + sr_capacity r"
  proof (cases "?l = []")
    case False
    then have "seg_end (last ?l) \<le> sr_top_pointer r + StreamReassembler_window r + sr_capacity r"
      "sr_top_pointer r \<le> seg_start (hd ?l)"
      using win hd_in_set [OF False] last_in_set [OF False] unfolding segs_window_def by blast+
    then show ?thesis
      using segs_total [OF segs_window_wf [OF win] False] by linarith
  qed simp
  moreover have "length (ByteStream_content (sr_output r)) \<le> sr_capacity r"
    using out by (simp add: ByteStream_inv_def)
  ultimately show ?thesis
    using sl.total_view [OF wf] out(1)
    by (simp add: StreamReassembler_unassembled_bytes_def StreamReassembler_window_def)
qed

section \<open>Sequences of calls\<close>

text \<open>
  A reassembler with its reader: substrings are pushed, and the reader takes bytes out of the
  output stream. The log keeps what was delivered.
\<close>

datatype StreamReassembler_op =
    PushSubstring bytes nat bool
  | OutputRead size_t
  | OutputPop size_t

record StreamReassembler_log =
  rl_reassembler :: StreamReassembler
  rl_delivered :: bytes

definition StreamReassembler_log_make :: "size_t \<Rightarrow> StreamReassembler_log" where
  "StreamReassembler_log_make capacity =
    \<lparr>rl_reassembler = StreamReassembler_make capacity, rl_delivered = []\<rparr>"

fun StreamReassembler_log_step :: "StreamReassembler_log \<Rightarrow> StreamReassembler_op \<Rightarrow> StreamReassembler_log res" where
  "StreamReassembler_log_step l (PushSubstring data index eof) =
    rbind (StreamReassembler_push_substring (rl_reassembler l) data index eof) (\<lambda>r.
      Inr (l\<lparr>rl_reassembler := r\<rparr>))"
| "StreamReassembler_log_step l (OutputRead len) =
    rbind (ByteStream_read (sr_output (rl_reassembler l)) len) (\<lambda>(result, out).
      Inr (l\<lparr>rl_reassembler := (rl_reassembler l)\<lparr>sr_output := out\<rparr>, rl_delivered := rl_delivered l @ result\<rparr>))"
| "StreamReassembler_log_step l (OutputPop len) =
    rbind (ByteStream_pop_output (sr_output (rl_reassembler l)) len) (\<lambda>out.
      Inr (l\<lparr>rl_reassembler := (rl_reassembler l)\<lparr>sr_output := out\<rparr>,
        rl_delivered := rl_delivered l @ ByteStream_peek_output (sr_output (rl_reassembler l)) len\<rparr>))"

text \<open>
  The calls of the theorems: a pushed substring is one of the stream \<open>S\<close>, marked as the end only
  if it ends where \<open>S\<close> does, and the reader does not ask for more than there is.
\<close>

definition is_substring :: "bytes \<Rightarrow> bytes \<Rightarrow> nat \<Rightarrow> bool \<Rightarrow> bool" where
  "is_substring S data index eof \<longleftrightarrow> index + length data \<le> length S \<and>
    data = take (length data) (drop index S) \<and> (eof \<longrightarrow> index + length data = length S)"

fun StreamReassembler_op_ok :: "bytes \<Rightarrow> StreamReassembler_log \<Rightarrow> StreamReassembler_op \<Rightarrow> bool" where
  "StreamReassembler_op_ok S l (PushSubstring data index eof) = is_substring S data index eof"
| "StreamReassembler_op_ok S l (OutputRead len) = (len \<le> ByteStream_buffer_size (sr_output (rl_reassembler l)))"
| "StreamReassembler_op_ok S l (OutputPop len) = (len \<le> ByteStream_buffer_size (sr_output (rl_reassembler l)))"

lemmas [sponge_eval] = StreamReassembler_log_make_def is_substring_def

lemma is_substring_fits_at:
  assumes "is_substring S data k eof"
  shows "seg_fits off S (Seg (off + k) data eof)"
proof -
  have bounds: "k + length data \<le> length S" and eof: "eof \<Longrightarrow> k + length data = length S"
    and data: "data = take (length data) (drop k S)"
    using assms unfolding is_substring_def by blast+
  have "data ! i = S ! (k + i)" if "i < length data" for i
    using arg_cong [OF data, of "\<lambda>d. d ! i"] that bounds by simp
  then have "data ! (i - (off + k)) = S ! (i - off)" if "off + k \<le> i" "i < off + k + length data" for i
    using that le_Suc_ex [OF that(1)] by fastforce
  then show ?thesis
    using bounds eof by (auto simp: seg_fits_def map_le_def seg_map_def split: if_splits)
qed

lemmas is_substring_fits = is_substring_fits_at [where off = 0, simplified]

definition StreamReassembler_log_inv :: "size_t \<Rightarrow> bytes \<Rightarrow> StreamReassembler_log \<Rightarrow> bool" where
  "StreamReassembler_log_inv capacity S l \<longleftrightarrow>
    StreamReassembler_inv 0 S (rl_delivered l) (rl_reassembler l) \<and>
    sr_capacity (rl_reassembler l) = capacity \<and> length S + 1 < W64"

lemma StreamReassembler_log_step_safe:
  assumes "StreamReassembler_log_inv capacity S l" "StreamReassembler_op_ok S l c"
  shows "\<exists>l'. StreamReassembler_log_step l c = Inr l' \<and> StreamReassembler_log_inv capacity S l'"
proof -
  let ?r = "rl_reassembler l"
  have inv: "StreamReassembler_inv 0 S (rl_delivered l) ?r"
    and rest: "sr_capacity ?r = capacity" "length S + 1 < W64"
    using assms(1) by (simp_all add: StreamReassembler_log_inv_def)
  have out: "ByteStream_inv (sr_output ?r)"
    using inv by (simp add: StreamReassembler_inv_def)
  show ?thesis
  proof (cases c)
    case (PushSubstring data index eof)
    then have fits: "seg_fits 0 S (Seg index data eof)" and bound: "index + length data + 1 < W64"
      using assms(2) rest(2) by (auto simp: is_substring_fits is_substring_def)
    from inv fits bound show ?thesis
      by (rule StreamReassembler_push_safe)
        (use PushSubstring rest in \<open>simp add: StreamReassembler_log_inv_def\<close>)
  next
    case (OutputRead len)
    then have len: "len \<le> length (ByteStream_content (sr_output ?r))"
      using assms(2) out by simp
    from inv len show ?thesis
      by (rule StreamReassembler_take)
        (use OutputRead rest ByteStream_read_eq [OF out len] in \<open>simp add: StreamReassembler_log_inv_def\<close>)
  next
    case (OutputPop len)
    then have len: "len \<le> length (ByteStream_content (sr_output ?r))"
      using assms(2) out by simp
    from inv len show ?thesis
      by (rule StreamReassembler_take)
        (use OutputPop rest ByteStream_peek_spec [OF out] in \<open>simp add: StreamReassembler_log_inv_def\<close>)
  qed
qed

interpretation sr_log: safe_component StreamReassembler_log_step "StreamReassembler_op_ok S"
  "StreamReassembler_log_inv capacity S" for S capacity
  by unfold_locales (rule StreamReassembler_log_step_safe)

lemma StreamReassembler_log_inv_make:
  "capacity < W64 \<Longrightarrow> length S + 1 < W64 \<Longrightarrow> StreamReassembler_log_inv capacity S (StreamReassembler_log_make capacity)"
  by (simp add: StreamReassembler_log_inv_def StreamReassembler_log_make_def StreamReassembler_inv_def
    StreamReassembler_make_def) (simp add: ByteStream_make_def ByteStream_content_def)

section \<open>Complete reassembly\<close>

text \<open>
  When the whole stream fits into the capacity and nothing is read meanwhile, every pushed index
  is either assembled or waiting, and nothing waits at the front.
\<close>

definition StreamReassembler_filling :: "size_t \<Rightarrow> bytes \<Rightarrow> nat set \<Rightarrow> StreamReassembler_log \<Rightarrow> bool" where
  "StreamReassembler_filling capacity S C l \<longleftrightarrow>
    StreamReassembler_log_inv capacity S l \<and> rl_delivered l = [] \<and> length S \<le> capacity \<and>
    (StreamReassembler_window (rl_reassembler l) = 0 \<or>
      (\<forall>y \<in> set (StreamReassembler_segs (rl_reassembler l)). sr_top_pointer (rl_reassembler l) < seg_start y)) \<and>
    {0..<sr_top_pointer (rl_reassembler l)} \<union> dom (segs_map (StreamReassembler_segs (rl_reassembler l))) = C"

lemma StreamReassembler_filling_facts:
  assumes "StreamReassembler_filling capacity S C l"
  shows "StreamReassembler_inv 0 S [] (rl_reassembler l)" "length S + 1 < W64"
    "sr_top_pointer (rl_reassembler l) \<le> length S" "sr_capacity (rl_reassembler l) = capacity"
    "sr_top_pointer (rl_reassembler l) + StreamReassembler_window (rl_reassembler l) = capacity"
    "ByteStream_content (sr_output (rl_reassembler l)) = take (sr_top_pointer (rl_reassembler l)) S"
  using assms
  by (auto simp: StreamReassembler_filling_def StreamReassembler_log_inv_def StreamReassembler_inv_def
    StreamReassembler_window_def)

lemma StreamReassembler_filling_step:
  assumes fill: "StreamReassembler_filling capacity S C l" and sub: "is_substring S data index eof"
  shows "\<exists>l'. StreamReassembler_log_step l (PushSubstring data index eof) = Inr l' \<and>
    StreamReassembler_filling capacity S (C \<union> {index..<index + length data}) l'"
proof -
  let ?r = "rl_reassembler l"
  let ?T = "sr_top_pointer ?r" and ?w = "StreamReassembler_window ?r"
  note F = StreamReassembler_filling_facts [OF fill]
  have small: "length S \<le> capacity" and dl: "rl_delivered l = []"
    and C: "{0..<?T} \<union> dom (segs_map (StreamReassembler_segs ?r)) = C"
    using fill by (simp_all add: StreamReassembler_filling_def)
  have fits: "seg_fits 0 S (Seg index data eof)" and bound: "index + length data + 1 < W64"
    and inS: "index + length data \<le> length S"
    using sub F(2) by (auto simp: is_substring_fits is_substring_def)
  show ?thesis
  proof (cases "StreamReassembler_accepts ?r index (length data)")
    case False
    then have "{index..<index + length data} \<subseteq> {0..<?T}"
      using F(3,5) small inS
      by (cases data) (auto simp: StreamReassembler_accepts_def max_def split: if_splits)
    then have "C \<union> {index..<index + length data} = C"
      using C by blast
    then show ?thesis
      using StreamReassembler_push_ignored [OF F(1) bound False] fill by simp
  next
    case True
    from F(1) fits bound True show ?thesis
    proof (rule StreamReassembler_push_accepted)
      fix r'
      assume r': "StreamReassembler_push_substring ?r data index eof = Inr r'"
          "StreamReassembler_inv 0 S [] r'" "sr_capacity r' = sr_capacity ?r" "?T \<le> sr_top_pointer r'"
        and dom: "{?T..<sr_top_pointer r'} \<union> dom (segs_map (StreamReassembler_segs r')) =
          dom (segs_map (StreamReassembler_segs ?r)) \<union> {max index ?T..<min (index + length data) (max index ?T + ?w)}"
        and front: "StreamReassembler_window r' = 0 \<or>
          (\<forall>y \<in> set (StreamReassembler_segs r'). sr_top_pointer r' < seg_start y)"
      let ?D = "dom (segs_map (StreamReassembler_segs ?r))" and ?D' = "dom (segs_map (StreamReassembler_segs r'))"
      have range: "min (index + length data) (max index ?T + ?w) = index + length data"
        using F(5) small inS by simp
      have clip: "{0..<?T} \<union> {max index ?T..<index + length data} = {0..<?T} \<union> {index..<index + length data}"
        using True by (auto simp: StreamReassembler_accepts_def)
      have "{0..<sr_top_pointer r'} = {0..<?T} \<union> {?T..<sr_top_pointer r'}"
        using r'(4) by auto
      then have "{0..<sr_top_pointer r'} \<union> ?D' = {0..<?T} \<union> ({?T..<sr_top_pointer r'} \<union> ?D')"
        by (simp only: Un_assoc)
      also have "\<dots> = ?D \<union> ({0..<?T} \<union> {max index ?T..<index + length data})"
        by (simp only: dom range Un_left_commute)
      also have "\<dots> = C \<union> {index..<index + length data}"
        by (simp only: clip C [symmetric] Un_assoc Un_left_commute)
      finally have "{0..<sr_top_pointer r'} \<union> ?D' = C \<union> {index..<index + length data}" .
      then show ?thesis
        using r' front small dl F(2,4) by (simp add: StreamReassembler_filling_def StreamReassembler_log_inv_def)
    qed
  qed
qed

lemma StreamReassembler_filling_run:
  assumes "StreamReassembler_filling capacity S C l" "\<forall>(data, index, eof) \<in> set ps. is_substring S data index eof"
  shows "\<exists>l'. run_ops StreamReassembler_log_step l (map (\<lambda>(data, index, eof). PushSubstring data index eof) ps) = Inr l' \<and>
    StreamReassembler_filling capacity S (C \<union> (\<Union>(data, index, eof) \<in> set ps. {index..<index + length data})) l'"
  using assms
proof (induction ps arbitrary: C l)
  case (Cons p ps)
  obtain data index eof where p: "p = (data, index, eof)"
    by (cases p) auto
  then obtain l1 where l1: "StreamReassembler_log_step l (PushSubstring data index eof) = Inr l1"
    "StreamReassembler_filling capacity S (C \<union> {index..<index + length data}) l1"
    using StreamReassembler_filling_step [OF Cons.prems(1)] Cons.prems(2) by fastforce
  show ?case
    using Cons.IH [OF l1(2)] Cons.prems(2) l1(1) p by (simp add: Un_assoc)
qed simp

lemma StreamReassembler_filling_full:
  assumes "StreamReassembler_filling capacity S {0..<length S} l"
  shows "ByteStream_content (sr_output (rl_reassembler l)) = S"
proof -
  let ?r = "rl_reassembler l"
  note F = StreamReassembler_filling_facts [OF assms]
  have "\<not> sr_top_pointer ?r < length S"
  proof
    assume less: "sr_top_pointer ?r < length S"
    then have "sr_top_pointer ?r \<in> {0..<sr_top_pointer ?r} \<union> dom (segs_map (StreamReassembler_segs ?r))"
      using assms by (simp only: StreamReassembler_filling_def) simp
    then have "sr_top_pointer ?r \<in> dom (segs_map (StreamReassembler_segs ?r))"
      by simp
    moreover have "StreamReassembler_window ?r \<noteq> 0"
      using less F(5) assms by (auto simp: StreamReassembler_filling_def)
    then have "\<forall>y \<in> set (StreamReassembler_segs ?r). sr_top_pointer ?r < seg_start y"
      using assms by (simp add: StreamReassembler_filling_def)
    note segs_map_front [OF this]
    ultimately show False
      by blast
  qed
  then show ?thesis
    using F(6) by simp
qed

section \<open>Properties\<close>

text \<open>C8: the reassembler delivers a prefix of the stream. Whatever substrings of a stream \<open>S\<close>
  are pushed, in whatever order, overlapping, repeated or beyond the window, and however the reader
  takes bytes out in between, no call throws; what was delivered followed by what is buffered is
  the prefix of \<open>S\<close> that ends at the top pointer; \<open>bytes_written\<close> counts it; and when the
  output reports the end of the stream, the reader has been given exactly \<open>S\<close>.\<close>

theorem StreamReassembler_prefix:
  assumes "capacity < W64" "length S + 1 < W64"
    and "admissible StreamReassembler_log_step (StreamReassembler_op_ok S) (StreamReassembler_log_make capacity) ops"
  shows "\<exists>l. run_ops StreamReassembler_log_step (StreamReassembler_log_make capacity) ops = Inr l \<and>
    (let r = rl_reassembler l; out = sr_output r in
      rl_delivered l @ ByteStream_peek_output out (ByteStream_buffer_size out) = take (sr_top_pointer r) S \<and>
      bs_bytes_written out = sr_top_pointer r \<and> sr_top_pointer r \<le> length S \<and>
      (ByteStream_eof out \<longrightarrow> rl_delivered l = S))"
proof -
  obtain l where l: "run_ops StreamReassembler_log_step (StreamReassembler_log_make capacity) ops = Inr l"
    "StreamReassembler_log_inv capacity S l"
    using sr_log.run_safe [OF StreamReassembler_log_inv_make [OF assms(1,2)] assms(3)] by blast
  then show ?thesis
    by (auto simp: StreamReassembler_log_inv_def StreamReassembler_inv_def ByteStream_peek_spec
      ByteStream_tight_eof Let_def)
qed

theorem StreamReassembler_prefix_witness:
  "\<exists>l. run_ops StreamReassembler_log_step (StreamReassembler_log_make 4)
      [PushSubstring [3, 4] 2 False, PushSubstring [1, 2, 3] 0 False, OutputRead 3, PushSubstring [5] 4 True, OutputPop 2] = Inr l \<and>
    rl_delivered l @ ByteStream_peek_output (sr_output (rl_reassembler l)) (ByteStream_buffer_size (sr_output (rl_reassembler l))) =
      take (sr_top_pointer (rl_reassembler l)) [1, 2, 3, 4, 5]"
proof -
  let ?ops = "[PushSubstring [3, 4] 2 False, PushSubstring [1, 2, 3] 0 False, OutputRead 3, PushSubstring [5] 4 True, OutputPop 2]"
  have "(4 :: nat) < W64" "length [1, 2, 3, 4, 5 :: byte] + 1 < W64"
    by (simp_all add: W64_def)
  moreover have "admissible StreamReassembler_log_step (StreamReassembler_op_ok [1, 2, 3, 4, 5]) (StreamReassembler_log_make 4) ?ops"
    by (simp add: sponge_eval)
  ultimately show ?thesis
    using StreamReassembler_prefix [of 4 "[1, 2, 3, 4, 5]" ?ops] by (auto simp: Let_def)
qed

text \<open>C9: reassembly is complete. If the stream fits into the capacity and the pushed substrings
  together cover every index of it, then after any order of the pushes, with any overlaps and
  repetitions, the output stream holds the whole stream.\<close>

theorem StreamReassembler_complete:
  assumes "capacity < W64" "length S \<le> capacity" "length S + 1 < W64"
    and "\<forall>(data, index, eof) \<in> set ps. is_substring S data index eof"
    and "(\<Union>(data, index, eof) \<in> set ps. {index..<index + length data}) = {0..<length S}"
  shows "\<exists>l. run_ops StreamReassembler_log_step (StreamReassembler_log_make capacity)
      (map (\<lambda>(data, index, eof). PushSubstring data index eof) ps) = Inr l \<and>
    (let out = sr_output (rl_reassembler l) in ByteStream_peek_output out (ByteStream_buffer_size out) = S)"
proof -
  have "StreamReassembler_filling capacity S {} (StreamReassembler_log_make capacity)"
    using StreamReassembler_log_inv_make [OF assms(1,3)] assms(2)
    by (simp add: StreamReassembler_filling_def StreamReassembler_log_make_def StreamReassembler_make_def)
  from StreamReassembler_filling_run [OF this assms(4)]
  obtain l where l: "run_ops StreamReassembler_log_step (StreamReassembler_log_make capacity)
      (map (\<lambda>(data, index, eof). PushSubstring data index eof) ps) = Inr l"
    "StreamReassembler_filling capacity S {0..<length S} l"
    unfolding assms(5) by auto
  have "ByteStream_inv (sr_output (rl_reassembler l))"
    using StreamReassembler_filling_facts(1) [OF l(2)] by (simp add: StreamReassembler_inv_def)
  then show ?thesis
    using l(1) StreamReassembler_filling_full [OF l(2)] by (simp add: ByteStream_peek_spec)
qed

theorem StreamReassembler_complete_witness:
  "\<exists>l. run_ops StreamReassembler_log_step (StreamReassembler_log_make 8)
      [PushSubstring [7, 8] 3 True, PushSubstring [6, 7] 2 False, PushSubstring [4, 5, 6] 0 False] = Inr l \<and>
    ByteStream_peek_output (sr_output (rl_reassembler l)) (ByteStream_buffer_size (sr_output (rl_reassembler l))) = [4, 5, 6, 7, 8]"
proof -
  let ?ps = "[([7, 8 :: byte], 3 :: nat, True), ([6, 7], 2, False), ([4, 5, 6], 0, False)]"
  have "(8 :: nat) < W64" "length [4, 5, 6, 7, 8 :: byte] \<le> 8" "length [4, 5, 6, 7, 8 :: byte] + 1 < W64"
    by (simp_all add: W64_def)
  moreover have "\<forall>(data, index, eof) \<in> set ?ps. is_substring [4, 5, 6, 7, 8] data index eof"
    by (simp add: is_substring_def)
  moreover have "(\<Union>(data, index, eof) \<in> set ?ps. {index..<index + length data}) = {0..<length [4, 5, 6, 7, 8 :: byte]}"
    by auto
  ultimately show ?thesis
    using StreamReassembler_complete [of 8 "[4, 5, 6, 7, 8]" ?ps] by (simp add: Let_def)
qed

text \<open>Reassembly makes progress. In every state the reassembler can get into, a substring that
  covers the first missing byte is written at least up to its own end or the end of the window,
  whichever comes first.\<close>

lemma StreamReassembler_progress:
  assumes "capacity < W64" "length S + 1 < W64"
    and "admissible StreamReassembler_log_step (StreamReassembler_op_ok S) (StreamReassembler_log_make capacity) ops"
    and "run_ops StreamReassembler_log_step (StreamReassembler_log_make capacity) ops = Inr l" "r = rl_reassembler l"
    and "is_substring S data index eof" "index \<le> sr_top_pointer r" "sr_top_pointer r < index + length data"
  shows "\<exists>r'. StreamReassembler_push_substring r data index eof = Inr r' \<and>
    min (index + length data) (sr_top_pointer r + StreamReassembler_current_capacity r) \<le> bs_bytes_written (sr_output r')"
proof -
  have inv: "StreamReassembler_inv 0 S (rl_delivered l) r"
    using sr_log.run_keeps [OF StreamReassembler_log_inv_make [OF assms(1,2)] assms(3,4)] assms(5)
    by (simp add: StreamReassembler_log_inv_def)
  have bound: "index + length data + 1 < W64"
    using assms(2,6) by (simp add: is_substring_def)
  from inv is_substring_fits [OF assms(6)] bound assms(7,8) show ?thesis
    by (rule StreamReassembler_push_progress)
      (use StreamReassembler_window_eq(1) [OF inv] in \<open>simp add: StreamReassembler_inv_def\<close>)
qed

lemma StreamReassembler_progress_witness:
  "\<exists>r'. StreamReassembler_push_substring (StreamReassembler_make 3) [1, 2] 0 False = Inr r' \<and>
    2 \<le> bs_bytes_written (sr_output r')"
proof -
  have "(3 :: nat) < W64" "length [1, 2, 3 :: byte] + 1 < W64"
    by (simp_all add: W64_def)
  moreover have "admissible StreamReassembler_log_step (StreamReassembler_op_ok [1, 2, 3]) (StreamReassembler_log_make 3) []"
    "run_ops StreamReassembler_log_step (StreamReassembler_log_make 3) [] = Inr (StreamReassembler_log_make 3)"
    by simp_all
  moreover have "is_substring [1, 2, 3] [1, 2] 0 False"
    by (simp add: is_substring_def)
  ultimately show ?thesis
    using StreamReassembler_progress [of 3 "[1, 2, 3]" "[]" "StreamReassembler_log_make 3" "StreamReassembler_make 3" "[1, 2]" 0 False]
    by (simp add: sponge_eval)
qed

text \<open>C10: the memory the reassembler uses is bounded. In every state it can get into, the bytes
  waiting for reassembly and the bytes in the output stream together are at most twice the
  capacity.\<close>

theorem StreamReassembler_memory_bound:
  assumes "capacity < W64" "length S + 1 < W64"
    and "admissible StreamReassembler_log_step (StreamReassembler_op_ok S) (StreamReassembler_log_make capacity) ops"
  shows "\<exists>l. run_ops StreamReassembler_log_step (StreamReassembler_log_make capacity) ops = Inr l \<and>
    StreamReassembler_unassembled_bytes (rl_reassembler l) + ByteStream_buffer_size (sr_output (rl_reassembler l))
      \<le> 2 * capacity"
proof -
  obtain l where "run_ops StreamReassembler_log_step (StreamReassembler_log_make capacity) ops = Inr l"
    "StreamReassembler_log_inv capacity S l"
    using sr_log.run_safe [OF StreamReassembler_log_inv_make [OF assms(1,2)] assms(3)] by blast
  then show ?thesis
    using StreamReassembler_memory by (auto simp: StreamReassembler_log_inv_def)
qed

theorem StreamReassembler_memory_bound_witness:
  "\<exists>l. run_ops StreamReassembler_log_step (StreamReassembler_log_make 2) [PushSubstring [2, 3] 1 False] = Inr l \<and>
    StreamReassembler_unassembled_bytes (rl_reassembler l) + ByteStream_buffer_size (sr_output (rl_reassembler l)) \<le> 4"
proof -
  have "(2 :: nat) < W64" "length [1, 2, 3 :: byte] + 1 < W64"
    by (simp_all add: W64_def)
  moreover have "admissible StreamReassembler_log_step (StreamReassembler_op_ok [1, 2, 3]) (StreamReassembler_log_make 2)
      [PushSubstring [2, 3] 1 False]"
    by (simp add: is_substring_def split: sum.split)
  ultimately show ?thesis
    using StreamReassembler_memory_bound [of 2 "[1, 2, 3]" "[PushSubstring [2, 3] 1 False]"] by simp
qed

text \<open>The capacity itself is not a bound. A reassembler of capacity 2 that is given the bytes 1
  and 2 and then the byte 0 of a stream has two bytes in its output stream and keeps a third one
  waiting.\<close>

lemma StreamReassembler_exceeds_capacity:
  "rbind (run_ops StreamReassembler_log_step (StreamReassembler_log_make 2)
      [PushSubstring [2, 3] 1 False, PushSubstring [1] 0 False])
    (\<lambda>l. Inr (ByteStream_buffer_size (sr_output (rl_reassembler l)),
      StreamReassembler_unassembled_bytes (rl_reassembler l))) = Inr (2, 1)"
  by (simp add: sponge_eval)

end
