(* ===== verification/TCP_Receiver.thy ===== *)
theory TCP_Receiver
  imports Stream_Reassembler TCP_Segment
begin

text \<open>
  The receiving half of a TCP endpoint, \<open>libsponge/tcp_receiver.hh\<close> and \<open>tcp_receiver.cc\<close>:
  segments are placed by their sequence numbers into the reassembler, and the acknowledgment number
  and the window are computed for the peer. The theory relates the receiver to the one stream the
  peer sends and shows where the code departs from it.
\<close>

section \<open>The class\<close>

record TCPReceiver =
  rcv_reassembler :: StreamReassembler
  rcv_capacity :: size_t
  rcv_isn :: "WrappingInt32 option"
  rcv_fsn :: "WrappingInt32 option"

definition TCPReceiver_make :: "size_t \<Rightarrow> TCPReceiver" where
  "TCPReceiver_make capacity = \<lparr>rcv_reassembler = StreamReassembler_make capacity, rcv_capacity = capacity,
     rcv_isn = None, rcv_fsn = None\<rparr>"

definition TCPReceiver_stream_out :: "TCPReceiver \<Rightarrow> ByteStream" where
  "TCPReceiver_stream_out rcv = sr_output (rcv_reassembler rcv)"

text \<open>What a holder of the reference returned by \<open>stream_out\<close> does to the receiver.\<close>

definition TCPReceiver_set_stream_out :: "TCPReceiver \<Rightarrow> ByteStream \<Rightarrow> TCPReceiver" where
  "TCPReceiver_set_stream_out rcv out = rcv\<lparr>rcv_reassembler := (rcv_reassembler rcv)\<lparr>sr_output := out\<rparr>\<rparr>"

definition TCPReceiver_unassembled_bytes :: "TCPReceiver \<Rightarrow> size_t" where
  "TCPReceiver_unassembled_bytes rcv = StreamReassembler_unassembled_bytes (rcv_reassembler rcv)"

definition push_back_wrap_string ::
  "TCPSegment \<Rightarrow> WrappingInt32 \<Rightarrow> bytes \<Rightarrow> StreamReassembler \<Rightarrow> bool \<Rightarrow> StreamReassembler res" where
  "push_back_wrap_string seg isn data reassembler eof =
    (let index = unat (unwrap (th_seqno (ts_header seg)) isn (of_nat (sr_top_pointer reassembler))) in
      if th_syn (ts_header seg) \<and> length data = 0
      then rbind (StreamReassembler_push_substring reassembler data index eof) (\<lambda>r.
        Inr (r\<lparr>sr_top_pointer := add64 index 1\<rparr>))
      else StreamReassembler_push_substring reassembler data index eof)"

definition TCPReceiver_segment_received :: "TCPReceiver \<Rightarrow> TCPSegment \<Rightarrow> TCPReceiver res" where
  "TCPReceiver_segment_received rcv seg =
    (let h = ts_header seg; data = Buffer_str (ts_payload seg) in
      if rcv_isn rcv = None \<and> \<not> th_syn h then Inr rcv
      else
        let rcv = (if th_syn h \<and> rcv_isn rcv = None then rcv\<lparr>rcv_isn := Some (th_seqno h)\<rparr> else rcv);
            rcv = (if th_fin h \<and> rcv_fsn rcv = None then rcv\<lparr>rcv_fsn := Some (th_seqno h)\<rparr> else rcv)
        in case rcv_isn rcv of
            None \<Rightarrow> Inr rcv
          | Some isn \<Rightarrow>
            if rcv_fsn rcv = None
            then rbind (push_back_wrap_string seg isn data (rcv_reassembler rcv) False) (\<lambda>r.
              Inr (rcv\<lparr>rcv_reassembler := r\<rparr>))
            else if th_fin h
            then rbind (push_back_wrap_string seg isn data (rcv_reassembler rcv) True) (\<lambda>r.
              Inr (rcv\<lparr>rcv_reassembler := r\<rparr>))
            else rbind (push_back_wrap_string seg isn data (rcv_reassembler rcv) False) (\<lambda>r.
              Inr (rcv\<lparr>rcv_reassembler := r\<rparr>)))"

definition TCPReceiver_ackno :: "TCPReceiver \<Rightarrow> WrappingInt32 option" where
  "TCPReceiver_ackno rcv =
    (case rcv_isn rcv of
      None \<Rightarrow> None
    | Some isn \<Rightarrow>
      let out = sr_output (rcv_reassembler rcv);
          result = wrapping_add (wrap (of_nat (bs_bytes_written out)) isn) 1
      in Some (if bs_input_end out then wrapping_add result 1 else result))"

definition TCPReceiver_window_size :: "TCPReceiver \<Rightarrow> size_t" where
  "TCPReceiver_window_size rcv = StreamReassembler_current_capacity (rcv_reassembler rcv)"

lemmas [sponge_eval] = TCPReceiver_make_def TCPReceiver_stream_out_def TCPReceiver_set_stream_out_def
  TCPReceiver_unassembled_bytes_def push_back_wrap_string_def TCPReceiver_segment_received_def
  TCPReceiver_ackno_def TCPReceiver_window_size_def

section \<open>One segment\<close>

text \<open>
  The three branches of \<open>segment_received\<close> differ only in the end mark, which is the FIN flag.
\<close>

lemma TCPReceiver_segment_received_eq:
  "TCPReceiver_segment_received rcv seg =
    (let h = ts_header seg in
      if rcv_isn rcv = None \<and> \<not> th_syn h then Inr rcv
      else
        let isn = (case rcv_isn rcv of None \<Rightarrow> th_seqno h | Some isn \<Rightarrow> isn) in
        rbind (push_back_wrap_string seg isn (Buffer_str (ts_payload seg)) (rcv_reassembler rcv) (th_fin h)) (\<lambda>r.
          Inr (rcv\<lparr>rcv_reassembler := r, rcv_isn := Some isn,
            rcv_fsn := (if th_fin h \<and> rcv_fsn rcv = None then Some (th_seqno h) else rcv_fsn rcv)\<rparr>)))"
  by (cases "rcv_isn rcv"; cases "rcv_fsn rcv"; cases "th_fin (ts_header seg)"; cases rcv)
    (auto simp: TCPReceiver_segment_received_def Let_def)

text \<open>The first SYN of a fresh receiver, without data.\<close>

lemma StreamReassembler_push_empty:
  assumes "capacity < W64"
  shows "StreamReassembler_push_substring (StreamReassembler_make capacity) [] 0 eof =
    Inr ((StreamReassembler_make capacity)\<lparr>sr_output :=
      (if eof \<and> 0 < capacity then ByteStream_end_input (ByteStream_make capacity) else ByteStream_make capacity)\<rparr>)"
  using assms
  by (simp add: StreamReassembler_push_substring_def StreamReassembler_clip_def StreamReassembler_current_capacity_def
    ByteStream_buffer_size_def StreamReassembler_make_def ByteStream_make_def u64_simps
    BufferStringList_push_back_def partition_point_def bisect_0 StreamReassembler_flush_def
    BufferString_make_def ByteStream_remaining_capacity_def BufferStringList_pop_up_buffer_string_def
    BufferString_size_def BufferString_get_string_def ByteStream_write_def ByteStream_end_input_def)

lemma unat_of_nat_64: "n < W64 \<Longrightarrow> unat (of_nat n :: 64 word) = n"
  by (simp add: W64_def unat_of_nat take_bit_eq_mod)

lemma ByteStream_make_fields:
  "ByteStream_content (ByteStream_make capacity) = []" "bs_bytes_written (ByteStream_make capacity) = 0"
  "bs_capacity (ByteStream_make capacity) = capacity" "\<not> bs_input_end (ByteStream_make capacity)"
  by (simp_all add: ByteStream_make_def ByteStream_content_def)

lemma wrap_0 [simp]: "wrap 0 isn = isn"
  by (simp add: wrap_eq_iff)

lemma unwrap_index:
  assumes "\<bar>int index - int checkpoint\<bar> < 2147483648" "index < W64" "checkpoint < W64"
  shows "unat (unwrap (wrap (of_nat index) isn) isn (of_nat checkpoint)) = index"
proof -
  have "uint (of_nat index :: 64 word) = int index" "uint (of_nat checkpoint :: 64 word) = int checkpoint"
    using assms(2,3) by (simp_all only: uint_nat unat_of_nat_64)
  then have "unwrap (wrap (of_nat index) isn) isn (of_nat checkpoint) = of_nat index"
    using unwrap_wrap assms(1) by simp
  then show ?thesis
    using assms(2) by (simp add: unat_of_nat_64)
qed

lemma push_back_at_index:
  assumes "\<not> th_syn (ts_header seg)" "th_seqno (ts_header seg) = wrap (of_nat index) isn"
    and "\<bar>int index - int (sr_top_pointer r)\<bar> < 2147483648" "index < W64" "sr_top_pointer r < W64"
  shows "push_back_wrap_string seg isn data r eof = StreamReassembler_push_substring r data index eof"
  using assms(1,2) unwrap_index [OF assms(3-5)] by (simp add: push_back_wrap_string_def)

section \<open>Sequences of calls\<close>

text \<open>
  The peer sends one stream \<open>S\<close>: a SYN without data that carries the initial sequence number,
  and segments of \<open>S\<close> whose first byte, of index \<open>i - 1\<close>, has the sequence number \<open>i\<close> after
  it, the FIN flag set only on segments that end with \<open>S\<close>, and segments that only carry an
  acknowledgment. A segment is less than \<open>2 ^ 31\<close> bytes away from the first missing byte, and
  the SYN is not repeated once data was written. Everything that arrives before the SYN is ignored
  and not restricted.
\<close>

definition segment_of_stream :: "bytes \<Rightarrow> WrappingInt32 \<Rightarrow> TCPReceiver \<Rightarrow> TCPSegment \<Rightarrow> bool" where
  "segment_of_stream S isn rcv seg \<longleftrightarrow>
    (let h = ts_header seg; data = Buffer_str (ts_payload seg); top = sr_top_pointer (rcv_reassembler rcv) in
      if th_syn h
      then th_seqno h = isn \<and> data = [] \<and> (th_fin h \<longrightarrow> S = []) \<and>
        bs_bytes_written (TCPReceiver_stream_out rcv) = 0
      else rcv_isn rcv = None \<or>
        (\<exists>i \<le> length S + 2. th_seqno h = wrap (of_nat i) isn \<and> \<bar>int i - int top\<bar> < 2147483648 \<and>
          (data = [] \<and> \<not> th_fin h \<or> 0 < i \<and> is_substring S data (i - 1) (th_fin h))))"

datatype TCPReceiver_op =
    SegmentArrives TCPSegment
  | StreamRead size_t
  | StreamPop size_t

record TCPReceiver_log =
  tl_receiver :: TCPReceiver
  tl_delivered :: bytes

definition TCPReceiver_log_make :: "size_t \<Rightarrow> TCPReceiver_log" where
  "TCPReceiver_log_make capacity = \<lparr>tl_receiver = TCPReceiver_make capacity, tl_delivered = []\<rparr>"

fun TCPReceiver_log_step :: "TCPReceiver_log \<Rightarrow> TCPReceiver_op \<Rightarrow> TCPReceiver_log res" where
  "TCPReceiver_log_step l (SegmentArrives seg) =
    rbind (TCPReceiver_segment_received (tl_receiver l) seg) (\<lambda>rcv. Inr (l\<lparr>tl_receiver := rcv\<rparr>))"
| "TCPReceiver_log_step l (StreamRead len) =
    rbind (ByteStream_read (TCPReceiver_stream_out (tl_receiver l)) len) (\<lambda>(result, out).
      Inr (l\<lparr>tl_receiver := TCPReceiver_set_stream_out (tl_receiver l) out, tl_delivered := tl_delivered l @ result\<rparr>))"
| "TCPReceiver_log_step l (StreamPop len) =
    rbind (ByteStream_pop_output (TCPReceiver_stream_out (tl_receiver l)) len) (\<lambda>out.
      Inr (l\<lparr>tl_receiver := TCPReceiver_set_stream_out (tl_receiver l) out,
        tl_delivered := tl_delivered l @ ByteStream_peek_output (TCPReceiver_stream_out (tl_receiver l)) len\<rparr>))"

fun TCPReceiver_op_ok :: "bytes \<Rightarrow> WrappingInt32 \<Rightarrow> TCPReceiver_log \<Rightarrow> TCPReceiver_op \<Rightarrow> bool" where
  "TCPReceiver_op_ok S isn l (SegmentArrives seg) = segment_of_stream S isn (tl_receiver l) seg"
| "TCPReceiver_op_ok S isn l (StreamRead len) = (len \<le> ByteStream_buffer_size (TCPReceiver_stream_out (tl_receiver l)))"
| "TCPReceiver_op_ok S isn l (StreamPop len) = (len \<le> ByteStream_buffer_size (TCPReceiver_stream_out (tl_receiver l)))"

lemmas [sponge_eval] = TCPReceiver_log_make_def

section \<open>Invariant\<close>

text \<open>
  Until the SYN arrives the receiver is as constructed; from then on the reassembler holds a
  part of the stream whose first byte has index 1.
\<close>

definition TCPReceiver_inv :: "size_t \<Rightarrow> bytes \<Rightarrow> WrappingInt32 \<Rightarrow> bytes \<Rightarrow> TCPReceiver \<Rightarrow> bool" where
  "TCPReceiver_inv capacity S isn delivered rcv \<longleftrightarrow> capacity < W64 \<and> length S + 3 < W64 \<and>
    (rcv_isn rcv = None \<and> rcv = TCPReceiver_make capacity \<and> delivered = [] \<or>
     rcv_isn rcv = Some isn \<and> StreamReassembler_inv 1 S delivered (rcv_reassembler rcv) \<and>
       StreamReassembler_settled (rcv_reassembler rcv) \<and> sr_capacity (rcv_reassembler rcv) = capacity)"

lemma TCPReceiver_first_syn:
  assumes "capacity < W64" "length S + 3 < W64" "eof \<longrightarrow> S = []"
    and "th_syn (ts_header seg)" "th_seqno (ts_header seg) = isn"
  obtains r where "push_back_wrap_string seg isn [] (StreamReassembler_make capacity) eof = Inr r"
    "StreamReassembler_inv 1 S [] r" "sr_capacity r = capacity" "StreamReassembler_settled r"
    "sr_top_pointer r = 1" "sr_buffer_list r = []" "bs_input_end (sr_output r) \<longrightarrow> eof"
proof -
  let ?out = "if eof \<and> 0 < capacity then ByteStream_end_input (ByteStream_make capacity) else ByteStream_make capacity"
  have index: "unat (unwrap isn isn (of_nat (sr_top_pointer (StreamReassembler_make capacity)))) = 0"
    using unwrap_index [of 0 0 isn] by (simp add: StreamReassembler_make_def)
  have empty: "ByteStream_content ?out = []" "bs_bytes_written ?out = 0" "bs_capacity ?out = capacity"
    "ByteStream_inv ?out" "ByteStream_tight ?out" "bs_input_end ?out \<longrightarrow> S = []"
    using assms(1,3) by (simp_all add: ByteStream_make_fields)
  have "push_back_wrap_string seg isn [] (StreamReassembler_make capacity) eof =
      Inr ((StreamReassembler_make capacity)\<lparr>sr_output := ?out, sr_top_pointer := 1\<rparr>)"
    using assms(1,4,5) index StreamReassembler_push_empty [OF assms(1), of eof]
    by (simp add: push_back_wrap_string_def u64_simps)
  moreover have "StreamReassembler_inv 1 S [] ((StreamReassembler_make capacity)\<lparr>sr_output := ?out, sr_top_pointer := 1\<rparr>)"
    using empty assms(2) unfolding StreamReassembler_inv_def by (simp add: StreamReassembler_make_def)
  ultimately show thesis
    by (rule that) (simp_all add: StreamReassembler_make_def StreamReassembler_settled_def ByteStream_make_fields)
qed

lemma TCPReceiver_syn_again:
  assumes inv: "StreamReassembler_inv 1 S delivered r" and "bs_bytes_written (sr_output r) = 0"
    and "th_syn (ts_header seg)" "th_seqno (ts_header seg) = isn"
  shows "push_back_wrap_string seg isn [] r eof = Inr r"
proof -
  have top: "sr_top_pointer r = 1"
    using inv assms(2) by (auto simp: StreamReassembler_inv_def)
  have index: "unat (unwrap isn isn (of_nat (sr_top_pointer r))) = 0"
    using unwrap_index [of 0 1 isn] top by simp
  have "\<not> StreamReassembler_accepts r 0 0"
    by (simp add: StreamReassembler_accepts_def top)
  then have "StreamReassembler_push_substring r [] 0 eof = Inr r"
    using StreamReassembler_push_ignored [OF inv, of 0 "[]"] by simp
  then show ?thesis
    using assms(3,4) index top by (simp add: push_back_wrap_string_def u64_simps)
qed

lemma seg_fits_empty: "seg_fits off S (Seg i [] False)"
  by (auto simp: seg_fits_def seg_map_def map_le_def split: if_splits)

text \<open>How many sequence numbers were received without a gap; none of this is ever taken back.\<close>

definition TCPReceiver_received :: "TCPReceiver \<Rightarrow> nat" where
  "TCPReceiver_received rcv = (if rcv_isn rcv = None then 0
     else 1 + bs_bytes_written (TCPReceiver_stream_out rcv) + of_bool (bs_input_end (TCPReceiver_stream_out rcv)))"

lemma ByteStream_write_input_end: "bs_input_end (snd (ByteStream_write st data)) = bs_input_end st"
  by (simp add: ByteStream_write_def Let_def)

lemma StreamReassembler_push_input_end:
  assumes "StreamReassembler_push_substring r data index eof = Inr r'" "bs_input_end (sr_output r)"
  shows "bs_input_end (sr_output r')"
proof -
  have "bs_input_end (sr_output y)" if "StreamReassembler_flush x = Inr y" "bs_input_end (sr_output x)" for x y
    using that by (auto simp: StreamReassembler_flush_def Let_def ByteStream_write_input_end ByteStream_end_input_def
      rbind_Inr_iff split: if_splits)
  moreover have "r' = r \<or> (\<exists>list. StreamReassembler_flush (r\<lparr>sr_buffer_list := list\<rparr>) = Inr r')"
    using assms(1) unfolding StreamReassembler_push_substring_def Let_def rbind_Inr_iff
    by (fastforce simp: rbind_Inr_iff split: if_splits option.splits prod.splits)
  ultimately show ?thesis
    using assms(2) by auto
qed

lemma TCPReceiver_later_segment:
  assumes inv: "StreamReassembler_inv 1 S delivered (rcv_reassembler rcv)" and "length S + 3 < W64"
    and "rcv_isn rcv = Some isn" and seg: "segment_of_stream S isn rcv seg"
  obtains r where "push_back_wrap_string seg isn (Buffer_str (ts_payload seg)) (rcv_reassembler rcv)
      (th_fin (ts_header seg)) = Inr r"
    "StreamReassembler_inv 1 S delivered r" "sr_capacity r = sr_capacity (rcv_reassembler rcv)"
    "StreamReassembler_settled (rcv_reassembler rcv) \<longrightarrow> StreamReassembler_settled r"
    "TCPReceiver_received rcv \<le> 1 + bs_bytes_written (sr_output r) + of_bool (bs_input_end (sr_output r))"
proof -
  let ?r = "rcv_reassembler rcv" and ?h = "ts_header seg" and ?data = "Buffer_str (ts_payload seg)"
  note I = inv [unfolded StreamReassembler_inv_def]
  show thesis
  proof (cases "th_syn ?h")
    case True
    have "push_back_wrap_string seg isn ?data ?r (th_fin ?h) = Inr ?r"
      using seg True TCPReceiver_syn_again [OF inv _ True]
      by (auto simp: segment_of_stream_def TCPReceiver_stream_out_def Let_def)
    then show thesis
      using inv by (rule that) (simp_all add: TCPReceiver_received_def TCPReceiver_stream_out_def)
  next
    case False
    then obtain i where i: "i \<le> length S + 2" "th_seqno ?h = wrap (of_nat i) isn"
      "\<bar>int i - int (sr_top_pointer ?r)\<bar> < 2147483648"
      "?data = [] \<and> \<not> th_fin ?h \<or> 0 < i \<and> is_substring S ?data (i - 1) (th_fin ?h)"
      using seg assms(3) by (auto simp: segment_of_stream_def Let_def)
    have index: "push_back_wrap_string seg isn ?data ?r (th_fin ?h) = StreamReassembler_push_substring ?r ?data i (th_fin ?h)"
      by (rule push_back_at_index [OF False i(2,3)]) (use i(1) assms(2) I in simp_all)
    have bound: "i + length ?data + 1 < W64"
      using i(1,4) assms(2) by (auto simp: is_substring_def)
    have "seg_fits 1 S (Seg i ?data (th_fin ?h))"
      using i(4) is_substring_fits_at [of S ?data "i - 1" "th_fin ?h" 1] seg_fits_empty by auto
    from inv this bound obtain r where r: "StreamReassembler_push_substring ?r ?data i (th_fin ?h) = Inr r"
        "StreamReassembler_inv 1 S delivered r" "sr_capacity r = sr_capacity ?r" "sr_top_pointer ?r \<le> sr_top_pointer r"
        "StreamReassembler_settled ?r \<longrightarrow> StreamReassembler_settled r"
      by (rule StreamReassembler_push_safe)
    have "TCPReceiver_received rcv \<le> 1 + bs_bytes_written (sr_output r) + of_bool (bs_input_end (sr_output r))"
      using r(2,4) I StreamReassembler_push_input_end [OF r(1)]
      by (auto simp: TCPReceiver_received_def TCPReceiver_stream_out_def StreamReassembler_inv_def)
    then show thesis
      by (intro that [of r]) (use index r in simp_all)
  qed
qed

lemma TCPReceiver_segment_safe:
  assumes inv: "TCPReceiver_inv capacity S isn delivered rcv" and seg: "segment_of_stream S isn rcv seg"
  shows "\<exists>rcv'. TCPReceiver_segment_received rcv seg = Inr rcv' \<and> TCPReceiver_inv capacity S isn delivered rcv' \<and>
    TCPReceiver_received rcv \<le> TCPReceiver_received rcv'"
proof (cases "rcv_isn rcv")
  case None
  show ?thesis
  proof (cases "th_syn (ts_header seg)")
    case True
    have s: "th_seqno (ts_header seg) = isn" "Buffer_str (ts_payload seg) = []" "th_fin (ts_header seg) \<longrightarrow> S = []"
      using seg True by (simp_all add: segment_of_stream_def Let_def)
    have I: "rcv = TCPReceiver_make capacity" "delivered = []" "capacity < W64" "length S + 3 < W64"
      using inv None by (auto simp: TCPReceiver_inv_def)
    obtain r where "push_back_wrap_string seg isn [] (StreamReassembler_make capacity) (th_fin (ts_header seg)) = Inr r"
      "StreamReassembler_inv 1 S [] r" "sr_capacity r = capacity" "StreamReassembler_settled r"
      by (rule TCPReceiver_first_syn [OF I(3,4) s(3) True s(1)])
    then show ?thesis
      using I True s
      by (simp add: TCPReceiver_segment_received_eq TCPReceiver_inv_def TCPReceiver_make_def TCPReceiver_received_def Let_def)
  next
    case False
    then show ?thesis
      using None inv by (simp add: TCPReceiver_segment_received_eq)
  qed
next
  case (Some isn')
  then have I: "rcv_isn rcv = Some isn" "StreamReassembler_inv 1 S delivered (rcv_reassembler rcv)" "length S + 3 < W64"
    "sr_capacity (rcv_reassembler rcv) = capacity" "capacity < W64" "StreamReassembler_settled (rcv_reassembler rcv)"
    using inv by (auto simp: TCPReceiver_inv_def)
  obtain r where "push_back_wrap_string seg isn (Buffer_str (ts_payload seg)) (rcv_reassembler rcv)
      (th_fin (ts_header seg)) = Inr r"
    "StreamReassembler_inv 1 S delivered r" "sr_capacity r = sr_capacity (rcv_reassembler rcv)"
    "StreamReassembler_settled (rcv_reassembler rcv) \<longrightarrow> StreamReassembler_settled r"
    "TCPReceiver_received rcv \<le> 1 + bs_bytes_written (sr_output r) + of_bool (bs_input_end (sr_output r))"
    by (rule TCPReceiver_later_segment [OF I(2,3,1) seg])
  then show ?thesis
    using I by (simp add: TCPReceiver_segment_received_eq TCPReceiver_inv_def Let_def)
      (simp add: TCPReceiver_received_def TCPReceiver_stream_out_def)
qed

lemma TCPReceiver_out_inv:
  assumes "TCPReceiver_inv capacity S isn delivered rcv"
  shows "ByteStream_inv (TCPReceiver_stream_out rcv)"
  using assms by (auto simp: TCPReceiver_inv_def TCPReceiver_stream_out_def StreamReassembler_inv_def
    TCPReceiver_make_def StreamReassembler_make_def)

text \<open>The owner of the endpoint takes bytes out of the stream.\<close>

lemma TCPReceiver_take:
  assumes inv: "TCPReceiver_inv capacity S isn delivered rcv"
    and len: "len \<le> length (ByteStream_content (TCPReceiver_stream_out rcv))"
  obtains out where "ByteStream_pop_output (TCPReceiver_stream_out rcv) len = Inr out"
    "TCPReceiver_inv capacity S isn (delivered @ take len (ByteStream_content (TCPReceiver_stream_out rcv)))
      (TCPReceiver_set_stream_out rcv out)"
proof (cases "rcv_isn rcv")
  case None
  then have I: "rcv = TCPReceiver_make capacity" "delivered = []"
    using inv by (auto simp: TCPReceiver_inv_def)
  then have len0: "len = 0" and content: "ByteStream_content (TCPReceiver_stream_out rcv) = []"
    using len by (simp_all add: TCPReceiver_stream_out_def TCPReceiver_make_def StreamReassembler_make_def
      ByteStream_make_fields)
  have "ByteStream_pop_output (TCPReceiver_stream_out rcv) 0 = Inr (TCPReceiver_stream_out rcv)"
    using I by (simp add: sponge_eval)
  then show thesis
    by (intro that [of "TCPReceiver_stream_out rcv"])
      (use inv len0 in \<open>simp_all add: TCPReceiver_set_stream_out_def TCPReceiver_stream_out_def\<close>)
next
  case (Some isn')
  then have I: "StreamReassembler_inv 1 S delivered (rcv_reassembler rcv)"
    using inv by (auto simp: TCPReceiver_inv_def)
  show thesis
    by (rule StreamReassembler_take [OF I len [unfolded TCPReceiver_stream_out_def]], rule that)
      (use inv Some in \<open>auto simp: TCPReceiver_inv_def TCPReceiver_stream_out_def TCPReceiver_set_stream_out_def
        StreamReassembler_settled_def\<close>)
qed

definition TCPReceiver_log_inv :: "size_t \<Rightarrow> bytes \<Rightarrow> WrappingInt32 \<Rightarrow> TCPReceiver_log \<Rightarrow> bool" where
  "TCPReceiver_log_inv capacity S isn l \<longleftrightarrow> TCPReceiver_inv capacity S isn (tl_delivered l) (tl_receiver l)"

lemma TCPReceiver_log_step_safe:
  assumes "TCPReceiver_log_inv capacity S isn l" "TCPReceiver_op_ok S isn l c"
  shows "\<exists>l'. TCPReceiver_log_step l c = Inr l' \<and> TCPReceiver_log_inv capacity S isn l'"
proof -
  have inv: "TCPReceiver_inv capacity S isn (tl_delivered l) (tl_receiver l)"
    using assms(1) by (simp add: TCPReceiver_log_inv_def)
  note out = TCPReceiver_out_inv [OF inv]
  show ?thesis
  proof (cases c)
    case (SegmentArrives seg)
    then show ?thesis
      using TCPReceiver_segment_safe [OF inv] assms(2) by (fastforce simp: TCPReceiver_log_inv_def)
  next
    case (StreamRead len)
    then have len: "len \<le> length (ByteStream_content (TCPReceiver_stream_out (tl_receiver l)))"
      using assms(2) out by simp
    show ?thesis
      by (rule TCPReceiver_take [OF inv len])
        (use StreamRead ByteStream_read_eq [OF out len] in \<open>simp add: TCPReceiver_log_inv_def\<close>)
  next
    case (StreamPop len)
    then have len: "len \<le> length (ByteStream_content (TCPReceiver_stream_out (tl_receiver l)))"
      using assms(2) out by simp
    show ?thesis
      by (rule TCPReceiver_take [OF inv len])
        (use StreamPop ByteStream_peek_spec [OF out] in \<open>simp add: TCPReceiver_log_inv_def\<close>)
  qed
qed

interpretation rcv_log: safe_component TCPReceiver_log_step "TCPReceiver_op_ok S isn" "TCPReceiver_log_inv capacity S isn"
  for S isn capacity
  by unfold_locales (rule TCPReceiver_log_step_safe)

lemma TCPReceiver_log_inv_make:
  "capacity < W64 \<Longrightarrow> length S + 3 < W64 \<Longrightarrow> TCPReceiver_log_inv capacity S isn (TCPReceiver_log_make capacity)"
  by (simp add: TCPReceiver_log_inv_def TCPReceiver_inv_def TCPReceiver_log_make_def TCPReceiver_make_def)

text \<open>What the accessors answer.\<close>

lemma wrapping_add_wrap: "wrapping_add (wrap n isn) m = wrap (n + ucast m) isn"
proof -
  have "ucast (n + ucast m) = m + (ucast n :: 32 word)"
    using ucast_add_low32 [of m n] by (simp add: add.commute)
  then show ?thesis
    by (simp only: wrapping_add_def wrap_def ucast_add_low32 WrappingInt32.sel) simp
qed

lemma TCPReceiver_ackno_eq:
  assumes "TCPReceiver_inv capacity S isn delivered rcv"
  shows "TCPReceiver_ackno rcv =
    (if rcv_isn rcv = None then None
     else Some (wrap (of_nat (1 + bs_bytes_written (TCPReceiver_stream_out rcv) +
       (if bs_input_end (TCPReceiver_stream_out rcv) then 1 else 0))) isn))"
  using assms by (auto simp: TCPReceiver_inv_def TCPReceiver_ackno_def TCPReceiver_stream_out_def Let_def
    wrapping_add_wrap add_ac)

lemma TCPReceiver_window_eq:
  assumes "TCPReceiver_inv capacity S isn delivered rcv"
  shows "TCPReceiver_window_size rcv = capacity - ByteStream_buffer_size (TCPReceiver_stream_out rcv)"
proof (cases "rcv_isn rcv")
  case None
  then show ?thesis
    using assms by (auto simp: TCPReceiver_inv_def TCPReceiver_window_size_def TCPReceiver_stream_out_def
      StreamReassembler_current_capacity_def TCPReceiver_make_def StreamReassembler_make_def ByteStream_make_fields)
next
  case (Some isn')
  then have "StreamReassembler_inv 1 S delivered (rcv_reassembler rcv)" "sr_capacity (rcv_reassembler rcv) = capacity"
    using assms by (auto simp: TCPReceiver_inv_def)
  then show ?thesis
    using StreamReassembler_window_eq(1) TCPReceiver_out_inv [OF assms]
    by (simp add: TCPReceiver_window_size_def StreamReassembler_window_def TCPReceiver_stream_out_def)
qed

text \<open>Segments for the examples.\<close>

definition example_segment :: "32 word \<Rightarrow> bool \<Rightarrow> bool \<Rightarrow> bytes \<Rightarrow> TCPSegment" where
  "example_segment seqno syn fin data = \<lparr>ts_header = TCPHeader_default\<lparr>th_seqno := WrappingInt32 seqno,
     th_syn := syn, th_fin := fin\<rparr>, ts_payload = Buffer_of data\<rparr>"

lemma ex_le_Suc: "(\<exists>k \<le> Suc n. P k) \<longleftrightarrow> (\<exists>k \<le> n. P k) \<or> P (Suc n)"
  by (auto simp: le_Suc_eq)

lemmas [sponge_eval] = example_segment_def unwrap_def int_shl_1_31_eq wrapping_diff_def wrap_def wrapping_add_def

section \<open>Properties\<close>






text \<open>A SYN that carries data stalls the connection. Its data is placed at index 0, while the
  next byte of the stream, by its sequence number, goes to one index behind the gap: it is held
  back although it is the byte the acknowledgment number asks for, and it stays so however often it
  is sent.\<close>

lemma TCPReceiver_syn_with_data_stalls:
  "\<exists>l. run_ops TCPReceiver_log_step (TCPReceiver_log_make 8)
      [SegmentArrives (example_segment 100 True False [1]), SegmentArrives (example_segment 102 False False [2])] = Inr l \<and>
    TCPReceiver_ackno (tl_receiver l) = Some (WrappingInt32 102) \<and>
    TCPReceiver_unassembled_bytes (tl_receiver l) = 1 \<and>
    TCPReceiver_log_step l (SegmentArrives (example_segment 102 False False [2])) = Inr l"
  by (simp add: sponge_eval)

end
