(* ===== verification/TCP_Sender.thy ===== *)
theory TCP_Sender
  imports TCP_Receiver
begin

text \<open>
  The sending half of a TCP endpoint, \<open>libsponge/tcp_sender.hh\<close> and \<open>tcp_sender.cc\<close>, with the
  constants of \<open>tcp_helpers/tcp_config.hh\<close>: the outgoing stream is cut into segments that fit
  the window of the peer, the segments in flight are kept until they are acknowledged, and the
  oldest one is sent again when its timer runs out. The loop of \<open>fill_window\<close> terminates because
  every round takes bytes off \<open>readable_size\<close>.
\<close>

section \<open>Configuration\<close>

definition DEFAULT_CAPACITY :: size_t where
  "DEFAULT_CAPACITY = 64000"

definition MAX_PAYLOAD_SIZE :: size_t where
  "MAX_PAYLOAD_SIZE = 1000"

definition TIMEOUT_DFLT :: "16 word" where
  "TIMEOUT_DFLT = 1000"

definition MAX_RETX_ATTEMPTS :: nat where
  "MAX_RETX_ATTEMPTS = 8"

record TCPConfig =
  cfg_rt_timeout :: "16 word"
  cfg_recv_capacity :: size_t
  cfg_send_capacity :: size_t
  cfg_fixed_isn :: "WrappingInt32 option"

definition TCPConfig_default :: TCPConfig where
  "TCPConfig_default = \<lparr>cfg_rt_timeout = TIMEOUT_DFLT, cfg_recv_capacity = DEFAULT_CAPACITY,
     cfg_send_capacity = DEFAULT_CAPACITY, cfg_fixed_isn = None\<rparr>"

section \<open>The class\<close>

record TCPSenderSegment =
  ss_seg :: TCPSegment
  ss_rto :: size_t
  ss_time :: size_t

record TCPSender =
  snd_isn :: WrappingInt32
  snd_segments_out :: "TCPSegment list"
  snd_initial_retransmission_timeout :: nat
  snd_stream :: ByteStream
  snd_is_syn_received :: bool
  snd_is_fin_received :: bool
  snd_last_tick_time :: size_t
  snd_consecutive_retrans :: size_t
  snd_window_size :: nat
  snd_is_window_zero :: bool
  snd_bytes_in_flight :: nat
  snd_seg_queue :: "TCPSenderSegment list"
  snd_next_seqno :: nat

text \<open>The last argument is the number the random device returns.\<close>

definition TCPSender_make :: "size_t \<Rightarrow> 16 word \<Rightarrow> WrappingInt32 option \<Rightarrow> 32 word \<Rightarrow> TCPSender" where
  "TCPSender_make capacity retx_timeout fixed_isn random_device =
    \<lparr>snd_isn = (case fixed_isn of None \<Rightarrow> WrappingInt32 random_device | Some isn \<Rightarrow> isn),
     snd_segments_out = [], snd_initial_retransmission_timeout = unat retx_timeout,
     snd_stream = ByteStream_make capacity, snd_is_syn_received = False, snd_is_fin_received = False,
     snd_last_tick_time = 0, snd_consecutive_retrans = 0, snd_window_size = 1, snd_is_window_zero = False,
     snd_bytes_in_flight = 0, snd_seg_queue = [], snd_next_seqno = 0\<rparr>"

definition TCPSender_next_seqno :: "TCPSender \<Rightarrow> WrappingInt32" where
  "TCPSender_next_seqno s = wrap (of_nat (snd_next_seqno s)) (snd_isn s)"

definition TCPSender_consecutive_retransmissions :: "TCPSender \<Rightarrow> nat" where
  "TCPSender_consecutive_retransmissions s = snd_consecutive_retrans s mod 2 ^ 32"

text \<open>
  The body of the loop: the payload is the next piece of what was read, the FIN goes on the last
  piece, and the segment is queued for sending and for retransmission. The header carries over
  from one round to the next.
\<close>

definition TCPSender_send_piece :: "bool \<Rightarrow> bytes \<Rightarrow> TCPHeader \<Rightarrow> size_t \<Rightarrow> TCPSender \<Rightarrow> TCPHeader \<times> TCPSender" where
  "TCPSender_send_piece is_fin piece h readable_size s =
    (let h = (if is_fin \<and> readable_size \<le> MAX_PAYLOAD_SIZE then h\<lparr>th_fin := True\<rparr>
              else if is_fin \<and> MAX_PAYLOAD_SIZE < readable_size then h\<lparr>th_fin := False\<rparr> else h);
         h = h\<lparr>th_seqno := wrap (of_nat (snd_next_seqno s)) (snd_isn s)\<rparr>;
         seg = \<lparr>ts_header = h, ts_payload = Buffer_of piece\<rparr>;
         len = TCPSegment_length_in_sequence_space seg
     in (h, s\<lparr>snd_next_seqno := add64 (snd_next_seqno s) len,
          snd_bytes_in_flight := add64 (snd_bytes_in_flight s) len,
          snd_segments_out := snd_segments_out s @ [seg],
          snd_seg_queue := snd_seg_queue s @
            [\<lparr>ss_seg = seg, ss_rto = snd_initial_retransmission_timeout s, ss_time = snd_last_tick_time s\<rparr>]\<rparr>))"

function TCPSender_fill_loop ::
  "bool \<Rightarrow> bytes \<Rightarrow> TCPHeader \<Rightarrow> size_t \<Rightarrow> size_t \<Rightarrow> TCPSender \<Rightarrow> TCPSender res" where
  "TCPSender_fill_loop is_fin buffer_str h index readable_size s =
    rbind (substr buffer_str (mul64 index MAX_PAYLOAD_SIZE) (min MAX_PAYLOAD_SIZE readable_size)) (\<lambda>piece.
      let (h, s) = TCPSender_send_piece is_fin piece h readable_size s in
      if MAX_PAYLOAD_SIZE < readable_size
      then TCPSender_fill_loop is_fin buffer_str h (add64 index 1) (readable_size - MAX_PAYLOAD_SIZE) s
      else Inr s)"
  by pat_completeness auto
termination
  by (relation "measure (\<lambda>(is_fin, buffer_str, h, index, readable_size, s). readable_size)")
    (auto simp: MAX_PAYLOAD_SIZE_def)

declare TCPSender_fill_loop.simps [simp del]

definition TCPSender_remaining_size :: "TCPSender \<Rightarrow> size_t" where
  "TCPSender_remaining_size s =
    (if snd_bytes_in_flight s < snd_window_size s then snd_window_size s - snd_bytes_in_flight s else 0)"

definition TCPSender_fill_window :: "TCPSender \<Rightarrow> TCPSender res" where
  "TCPSender_fill_window s =
    (let remaining_size = TCPSender_remaining_size s; queue = snd_seg_queue s in
      if remaining_size = 0 then Inr s
      else if \<not> snd_is_syn_received s \<and> queue \<noteq> [] \<and> th_syn (ts_header (ss_seg (hd queue))) then Inr s
      else if \<not> snd_is_syn_received s \<and> queue \<noteq> [] \<and> \<not> th_syn (ts_header (ss_seg (hd queue)))
      then Inl (RuntimeError ''When syn is not ready, the front should have syn tag'')
      else
        let h = TCPHeader_default\<lparr>th_syn := \<not> snd_is_syn_received s\<rparr>;
            readable_size = min remaining_size (ByteStream_buffer_size (snd_stream s))
        in rbind (ByteStream_read (snd_stream s) readable_size) (\<lambda>(buffer_str, stream).
          let s = s\<lparr>snd_stream := stream\<rparr> in
          if ByteStream_eof stream \<and> \<not> snd_is_fin_received s \<and>
            queue \<noteq> [] \<and> th_fin (ts_header (ss_seg (last queue)))
          then Inr s
          else
            let h = (if ByteStream_eof stream \<and> \<not> snd_is_fin_received s \<and> add64 readable_size 1 \<le> remaining_size
                     then h\<lparr>th_fin := True\<rparr> else h)
            in if readable_size = 0 \<and> \<not> (th_syn h \<or> th_fin h) then Inr s
               else TCPSender_fill_loop (th_fin h) buffer_str h 0 readable_size s))"

text \<open>The loop of \<open>ack_received\<close> that drops the acknowledged segments; it also reports whether it did.\<close>

fun TCPSender_ack_loop :: "nat \<Rightarrow> TCPSender \<Rightarrow> TCPSenderSegment list \<Rightarrow> bool \<Rightarrow> bool \<times> TCPSender" where
  "TCPSender_ack_loop ack_seqno s [] should_restart = (should_restart, s\<lparr>snd_seg_queue := []\<rparr>)"
| "TCPSender_ack_loop ack_seqno s (front # queue) should_restart =
    (let seg = ss_seg front; len = TCPSegment_length_in_sequence_space seg in
      if add64 (unat (unwrap (th_seqno (ts_header seg)) (snd_isn s) (of_nat (snd_next_seqno s)))) len \<le> ack_seqno
      then TCPSender_ack_loop ack_seqno
        (s\<lparr>snd_consecutive_retrans := 0,
           snd_is_syn_received := snd_is_syn_received s \<or> th_syn (ts_header seg),
           snd_is_fin_received := snd_is_fin_received s \<or> th_fin (ts_header seg),
           snd_bytes_in_flight := sub64 (snd_bytes_in_flight s) len\<rparr>) queue True
      else (should_restart, s\<lparr>snd_seg_queue := front # queue\<rparr>))"

definition TCPSender_restart_timer :: "TCPSender \<Rightarrow> TCPSender" where
  "TCPSender_restart_timer s =
    (case snd_seg_queue s of
      [] \<Rightarrow> s
    | front # queue \<Rightarrow> s\<lparr>snd_seg_queue :=
        front\<lparr>ss_rto := snd_initial_retransmission_timeout s, ss_time := snd_last_tick_time s\<rparr> # queue\<rparr>)"

definition TCPSender_ack_received :: "TCPSender \<Rightarrow> WrappingInt32 \<Rightarrow> 16 word \<Rightarrow> TCPSender" where
  "TCPSender_ack_received s ackno window_size =
    (let ack_seqno = unat (unwrap ackno (snd_isn s) (of_nat (snd_next_seqno s))) in
      if snd_next_seqno s < ack_seqno then s
      else
        let s = s\<lparr>snd_window_size := (if window_size = 0 then 1 else unat window_size),
                  snd_is_window_zero := (window_size = 0)\<rparr>;
            (should_restart, s) = TCPSender_ack_loop ack_seqno s (snd_seg_queue s) False
        in if should_restart then TCPSender_restart_timer s else s)"

definition TCPSender_tick :: "TCPSender \<Rightarrow> size_t \<Rightarrow> TCPSender" where
  "TCPSender_tick s ms_since_last_tick =
    (let s = s\<lparr>snd_last_tick_time := add64 (snd_last_tick_time s) ms_since_last_tick\<rparr> in
      case snd_seg_queue s of
        [] \<Rightarrow> s
      | front # queue \<Rightarrow>
        if add64 (ss_time front) (ss_rto front) \<le> snd_last_tick_time s
        then s\<lparr>snd_seg_queue := front\<lparr>
              ss_rto := (if snd_is_window_zero s then ss_rto front else mul64 (ss_rto front) 2),
              ss_time := snd_last_tick_time s\<rparr> # queue,
            snd_consecutive_retrans := add64 (snd_consecutive_retrans s) 1,
            snd_segments_out := snd_segments_out s @ [ss_seg front]\<rparr>
        else s)"

definition TCPSender_send_empty_segment :: "TCPSender \<Rightarrow> TCPSender" where
  "TCPSender_send_empty_segment s =
    s\<lparr>snd_segments_out := snd_segments_out s @
      [TCPSegment_default\<lparr>ts_header := TCPHeader_default\<lparr>th_seqno := TCPSender_next_seqno s\<rparr>\<rparr>]\<rparr>"

lemmas [sponge_eval] = DEFAULT_CAPACITY_def MAX_PAYLOAD_SIZE_def TIMEOUT_DFLT_def MAX_RETX_ATTEMPTS_def
  TCPConfig_default_def TCPSender_make_def TCPSender_next_seqno_def TCPSender_consecutive_retransmissions_def
  TCPSender_send_piece_def TCPSender_fill_loop.simps TCPSender_remaining_size_def TCPSender_fill_window_def
  TCPSender_restart_timer_def TCPSender_ack_received_def TCPSender_tick_def TCPSender_send_empty_segment_def

section \<open>Segments of the outgoing stream\<close>

text \<open>
  A segment that starts at the absolute sequence number \<open>a\<close> of the stream \<open>S\<close>: the SYN has
  number 0, the byte of index \<open>k\<close> number \<open>k + 1\<close>, and the FIN follows the last byte.
\<close>

definition seq_len :: "TCPSegment \<Rightarrow> nat" where
  "seq_len seg = length (Buffer_str (ts_payload seg)) + of_bool (th_syn (ts_header seg)) + of_bool (th_fin (ts_header seg))"

definition sent_segment :: "WrappingInt32 \<Rightarrow> bytes \<Rightarrow> nat \<Rightarrow> TCPSegment \<Rightarrow> bool" where
  "sent_segment isn S a seg \<longleftrightarrow>
    th_seqno (ts_header seg) = wrap (of_nat a) isn \<and> (th_syn (ts_header seg) \<longleftrightarrow> a = 0) \<and>
    is_substring S (Buffer_str (ts_payload seg)) (a - 1) (th_fin (ts_header seg))"

lemma sent_segment_bound:
  assumes "sent_segment isn S a seg"
  shows "a + seq_len seg \<le> length S + 2" "seq_len seg \<le> length S + 2"
    "th_fin (ts_header seg) \<Longrightarrow> a + seq_len seg = length S + 2"
  using assms by (auto simp: sent_segment_def is_substring_def seq_len_def)

lemma length_in_sequence_space_eq:
  "seq_len seg < W64 \<Longrightarrow> TCPSegment_length_in_sequence_space seg = seq_len seg"
  by (cases "th_syn (ts_header seg)"; cases "th_fin (ts_header seg)")
    (simp_all add: TCPSegment_length_in_sequence_space_def seq_len_def u64_simps)

text \<open>The queue of segments in flight covers the numbers from \<open>a\<close> to \<open>b\<close> without a gap.\<close>

fun outstanding :: "WrappingInt32 \<Rightarrow> bytes \<Rightarrow> nat \<Rightarrow> TCPSegment list \<Rightarrow> nat \<Rightarrow> bool" where
  "outstanding isn S a [] b \<longleftrightarrow> a = b"
| "outstanding isn S a (seg # segs) b \<longleftrightarrow>
    sent_segment isn S a seg \<and> 0 < seq_len seg \<and> outstanding isn S (a + seq_len seg) segs b"

lemma outstanding_append:
  "outstanding isn S a (xs @ ys) b \<longleftrightarrow> (\<exists>c. outstanding isn S a xs c \<and> outstanding isn S c ys b)"
  by (induction xs arbitrary: a) auto

lemma outstanding_sum: "outstanding isn S a segs b \<Longrightarrow> b = a + sum_list (map seq_len segs)"
  by (induction segs arbitrary: a) fastforce+

lemma outstanding_sent: "outstanding isn S a segs b \<Longrightarrow> seg \<in> set segs \<Longrightarrow> \<exists>c \<ge> a. c < b \<and> sent_segment isn S c seg"
proof (induction segs arbitrary: a)
  case (Cons x segs)
  show ?case
  proof (cases "seg = x")
    case True
    then show ?thesis
      using Cons.prems outstanding_sum by force
  next
    case False
    then obtain c where "a + seq_len x \<le> c" "c < b" "sent_segment isn S c seg"
      using Cons by auto
    then show ?thesis
      by (intro exI [of _ c]) auto
  qed
qed simp

text \<open>The FIN can only be on the last of them.\<close>

lemma outstanding_fin:
  assumes "outstanding isn S a (xs @ ys) b" "ys \<noteq> []" "seg \<in> set xs"
  shows "\<not> th_fin (ts_header seg)"
proof
  assume fin: "th_fin (ts_header seg)"
  obtain us vs where xs: "xs = us @ seg # vs"
    using assms(3) split_list by metis
  obtain v ws where v: "vs @ ys = v # ws"
    using assms(2) by (cases "vs @ ys") auto
  have "outstanding isn S a (us @ seg # v # ws) b"
    using assms(1) xs v by simp
  then obtain c where c: "sent_segment isn S c seg" "sent_segment isn S (c + seq_len seg) v" "0 < seq_len v"
    by (auto simp: outstanding_append)
  then show False
    using sent_segment_bound(3) [OF c(1) fin] sent_segment_bound(1) [OF c(2)] by simp
qed

section \<open>Invariant\<close>

text \<open>
  Relative to the stream \<open>S\<close> the application writes, whole and in order: what was taken out of
  the outgoing stream is what was sent, the outstanding segments are contiguous and end at the next
  sequence number, and the bytes in flight are their total.
\<close>

definition TCPSender_stream_inv :: "bytes \<Rightarrow> ByteStream \<Rightarrow> bool" where
  "TCPSender_stream_inv S st \<longleftrightarrow> ByteStream_inv st \<and> length S + 3 < W64 \<and>
    is_substring S (ByteStream_content st) (bs_bytes_read st) False \<and>
    (bs_input_end st \<longrightarrow> bs_bytes_read st + length (ByteStream_content st) = length S)"

definition TCPSender_fin_sent :: "TCPSender \<Rightarrow> bool" where
  "TCPSender_fin_sent s \<longleftrightarrow> snd_is_fin_received s \<or>
    (snd_seg_queue s \<noteq> [] \<and> th_fin (ts_header (ss_seg (last (snd_seg_queue s)))))"

definition TCPSender_emitted :: "WrappingInt32 \<Rightarrow> bytes \<Rightarrow> TCPSegment \<Rightarrow> bool" where
  "TCPSender_emitted isn S seg \<longleftrightarrow> (\<exists>a \<le> length S + 2. sent_segment isn S a seg \<or>
    (th_seqno (ts_header seg) = wrap (of_nat a) isn \<and> Buffer_str (ts_payload seg) = [] \<and>
     \<not> th_syn (ts_header seg) \<and> \<not> th_fin (ts_header seg)))"

definition TCPSender_inv :: "bytes \<Rightarrow> TCPSender \<Rightarrow> bool" where
  "TCPSender_inv S s \<longleftrightarrow>
    TCPSender_stream_inv S (snd_stream s) \<and>
    snd_bytes_in_flight s \<le> snd_next_seqno s \<and> snd_bytes_in_flight s \<le> 65536 \<and>
    1 \<le> snd_window_size s \<and> snd_window_size s \<le> 65535 \<and>
    outstanding (snd_isn s) S (snd_next_seqno s - snd_bytes_in_flight s) (map ss_seg (snd_seg_queue s)) (snd_next_seqno s) \<and>
    (snd_next_seqno s = 0 \<longrightarrow> snd_window_size s = 1 \<and> bs_bytes_read (snd_stream s) = 0 \<and> \<not> TCPSender_fin_sent s) \<and>
    (0 < snd_next_seqno s \<longrightarrow>
      1 + bs_bytes_read (snd_stream s) + of_bool (TCPSender_fin_sent s) = snd_next_seqno s) \<and>
    (snd_is_syn_received s \<longleftrightarrow> snd_bytes_in_flight s < snd_next_seqno s) \<and>
    (TCPSender_fin_sent s \<longrightarrow> bs_input_end (snd_stream s) \<and> ByteStream_content (snd_stream s) = []) \<and>
    (\<forall>seg \<in> set (snd_segments_out s). TCPSender_emitted (snd_isn s) S seg)"

lemma ByteStream_read_ok:
  assumes "ByteStream_inv st" "len \<le> length (ByteStream_content st)"
  obtains st' where "ByteStream_read st len = Inr (take len (ByteStream_content st), st')" "ByteStream_inv st'"
    "ByteStream_content st' = drop len (ByteStream_content st)"
    "bs_bytes_read st' = add64 (bs_bytes_read st) len" "bs_input_end st' = bs_input_end st" "bs_error st' = bs_error st"
    "bs_bytes_written st' = bs_bytes_written st" "bs_capacity st' = bs_capacity st"
proof (rule ByteStream_pop_ok [OF assms])
  fix bl'
  let ?st = "st\<lparr>bs_buffers := bl', bs_bytes_read := add64 (bs_bytes_read st) len\<rparr>"
  assume "ByteStream_pop_output st len = Inr ?st" "sponge_BufferList_content bl' = drop len (ByteStream_content st)"
    "ByteStream_inv ?st"
  then show thesis
    by (intro that [of ?st]) (use ByteStream_read_eq [OF assms] in simp_all)
qed

lemma ByteStream_eofD:
  "ByteStream_eof st \<Longrightarrow> bs_input_end st \<and> ByteStream_content st = []"
  by (simp add: ByteStream_eof_def sponge_BufferList_empty_def ByteStream_content_def)

section \<open>Filling the window\<close>

lemma is_substring_take: "is_substring S d k f \<Longrightarrow> is_substring S (take m d) k False"
  by (auto simp: is_substring_def min_def) (metis take_take min.commute min_def)

lemma is_substring_drop:
  assumes "is_substring S d k f" "m \<le> length d"
  shows "is_substring S (drop m d) (k + m) f"
proof -
  have "d = take (length d) (drop k S)"
    using assms(1) by (simp add: is_substring_def)
  then have "drop m d = take (length d - m) (drop (k + m) S)"
    by (metis add.commute drop_drop drop_take)
  moreover have "k + length d \<le> length S" "f \<longrightarrow> k + length d = length S"
    using assms(1) by (simp_all add: is_substring_def)
  ultimately show ?thesis
    using assms(2) unfolding is_substring_def length_drop by (intro conjI) (assumption | linarith)+
qed

lemma TCPSender_send_piece_eq:
  assumes "is_fin \<or> \<not> th_fin h" "length piece + snd_next_seqno s + 2 < W64"
    and "snd_bytes_in_flight s \<le> snd_next_seqno s"
    and "h' = h\<lparr>th_fin := is_fin \<and> readable \<le> 1000, th_seqno := wrap (of_nat (snd_next_seqno s)) (snd_isn s)\<rparr>"
    and "seg = \<lparr>ts_header = h', ts_payload = Buffer_of piece\<rparr>"
  shows "TCPSender_send_piece is_fin piece h readable s =
    (h', s\<lparr>snd_next_seqno := snd_next_seqno s + seq_len seg, snd_bytes_in_flight := snd_bytes_in_flight s + seq_len seg,
      snd_segments_out := snd_segments_out s @ [seg],
      snd_seg_queue := snd_seg_queue s @ [\<lparr>ss_seg = seg, ss_rto = snd_initial_retransmission_timeout s,
        ss_time = snd_last_tick_time s\<rparr>]\<rparr>)"
proof -
  have "seq_len seg \<le> length piece + 2"
    using assms(5) by (simp add: seq_len_def)
  then have len: "TCPSegment_length_in_sequence_space seg = seq_len seg"
    "add64 (snd_next_seqno s) (seq_len seg) = snd_next_seqno s + seq_len seg"
    "add64 (snd_bytes_in_flight s) (seq_len seg) = snd_bytes_in_flight s + seq_len seg"
    using assms(2,3) by (simp_all add: length_in_sequence_space_eq u64_simps)
  have "(if is_fin \<and> readable \<le> MAX_PAYLOAD_SIZE then h\<lparr>th_fin := True\<rparr>
      else if is_fin \<and> MAX_PAYLOAD_SIZE < readable then h\<lparr>th_fin := False\<rparr> else h) = h\<lparr>th_fin := is_fin \<and> readable \<le> 1000\<rparr>"
    using assms(1) by (cases h) (auto simp: MAX_PAYLOAD_SIZE_def)
  then show ?thesis
    using len assms(4,5) by (simp add: TCPSender_send_piece_def Let_def)
qed

lemma TCPSender_fill_loop_spec:
  assumes "length buf = index * 1000 + readable" "length buf < 100000"
    and "th_syn h \<longleftrightarrow> snd_next_seqno s = 0" "th_syn h \<longrightarrow> readable \<le> 1000"
    and "is_fin \<or> \<not> th_fin h" "0 < readable \<or> is_fin \<or> th_syn h"
    and "is_substring S (drop (index * 1000) buf) (snd_next_seqno s - 1) is_fin" "length S + 3 < W64"
    and "snd_bytes_in_flight s \<le> snd_next_seqno s"
  shows "\<exists>segs. segs \<noteq> [] \<and>
    (let n = readable + of_bool (th_syn h) + of_bool is_fin in
      TCPSender_fill_loop is_fin buf h index readable s =
        Inr (s\<lparr>snd_next_seqno := snd_next_seqno s + n, snd_bytes_in_flight := snd_bytes_in_flight s + n,
          snd_segments_out := snd_segments_out s @ segs,
          snd_seg_queue := snd_seg_queue s @ map (\<lambda>seg. \<lparr>ss_seg = seg, ss_rto = snd_initial_retransmission_timeout s,
            ss_time = snd_last_tick_time s\<rparr>) segs\<rparr>) \<and>
      outstanding (snd_isn s) S (snd_next_seqno s) segs (snd_next_seqno s + n)) \<and>
    (th_fin (ts_header (last segs)) \<longleftrightarrow> is_fin) \<and> length segs = max 1 ((readable + 999) div 1000)"
  using assms
proof (induction is_fin buf h index readable s rule: TCPSender_fill_loop.induct)
  case (1 is_fin buf h index readable s)
  let ?rest = "drop (index * 1000) buf" and ?next = "snd_next_seqno s"
  define piece where "piece = take (min 1000 readable) ?rest"
  define h' where "h' = h\<lparr>th_fin := is_fin \<and> readable \<le> 1000, th_seqno := wrap (of_nat ?next) (snd_isn s)\<rparr>"
  define seg where "seg = \<lparr>ts_header = h', ts_payload = Buffer_of piece\<rparr>"
  define s' where "s' = s\<lparr>snd_next_seqno := ?next + seq_len seg, snd_bytes_in_flight := snd_bytes_in_flight s + seq_len seg,
      snd_segments_out := snd_segments_out s @ [seg],
      snd_seg_queue := snd_seg_queue s @ [\<lparr>ss_seg = seg, ss_rto = snd_initial_retransmission_timeout s,
        ss_time = snd_last_tick_time s\<rparr>]\<rparr>"
  have rest: "length ?rest = readable"
    using "1.prems"(1) by simp
  have sub: "is_substring S piece (?next - 1) (is_fin \<and> readable \<le> 1000)"
    using "1.prems"(7) rest is_substring_take [OF "1.prems"(7), of 1000]
    by (cases "readable \<le> 1000") (simp_all add: piece_def)
  have sent: "sent_segment (snd_isn s) S ?next seg"
    using sub "1.prems"(3) by (simp add: sent_segment_def seg_def h'_def)
  have n: "seq_len seg = min 1000 readable + of_bool (th_syn h) + of_bool (is_fin \<and> readable \<le> 1000)"
    using rest by (simp add: seq_len_def seg_def h'_def piece_def)
  have room: "length piece + ?next + 2 < W64"
  proof -
    have "?next - 1 + length piece \<le> length S"
      using sub by (simp add: is_substring_def)
    then show ?thesis
      using "1.prems"(8) by arith
  qed
  have "index * 1000 < W64"
    using "1.prems"(1,2) W64_gt(1) by linarith
  then have get: "substr buf (mul64 index MAX_PAYLOAD_SIZE) (min MAX_PAYLOAD_SIZE readable) = Inr piece"
    using "1.prems"(1) by (simp add: MAX_PAYLOAD_SIZE_def u64_simps substr_ok piece_def)
  have step: "TCPSender_send_piece is_fin piece h readable s = (h', s')"
    unfolding s'_def by (rule TCPSender_send_piece_eq [OF "1.prems"(5) room "1.prems"(9) h'_def seg_def])
  show ?case
  proof (cases "readable \<le> 1000")
    case True
    then have loop: "TCPSender_fill_loop is_fin buf h index readable s = Inr s'"
      using get step by (simp add: TCPSender_fill_loop.simps [of is_fin buf h index] MAX_PAYLOAD_SIZE_def)
    have n': "seq_len seg = readable + of_bool (th_syn h) + of_bool is_fin" "0 < seq_len seg"
      "th_fin (ts_header seg) = is_fin"
      using True n "1.prems"(6) by (auto simp: seg_def h'_def)
    have "readable + 999 < 1000 * 2"
      using True by simp
    then have "(readable + 999) div 1000 < 2"
      by (simp add: less_mult_imp_div_less)
    then have count: "max 1 ((readable + 999) div 1000) = 1"
      by simp
    show ?thesis
      unfolding loop s'_def n'(1) [symmetric] Let_def count
      by (rule exI [of _ "[seg]"]) (use sent n' in simp)
  next
    case False
    then have syn: "\<not> th_syn h" and pos: "0 < ?next" and n': "seq_len seg = 1000"
      using "1.prems"(3,4) n by auto
    have "index + 1 < W64"
      using "1.prems"(1,2) W64_gt(1) by linarith
    then have idx: "add64 index 1 = Suc index"
      by (simp add: u64_simps)
    have loop: "TCPSender_fill_loop is_fin buf h index readable s =
        TCPSender_fill_loop is_fin buf h' (Suc index) (readable - 1000) s'"
      using False get step idx by (simp add: TCPSender_fill_loop.simps [of is_fin buf h index] MAX_PAYLOAD_SIZE_def)
    have "is_substring S (drop 1000 ?rest) (?next - 1 + 1000) is_fin"
      using is_substring_drop [OF "1.prems"(7), of 1000] rest False by simp
    then have sub': "is_substring S (drop (Suc index * 1000) buf) (?next + 1000 - 1) is_fin"
      using pos by (simp add: add.commute)
    have s': "snd_next_seqno s' = ?next + 1000" "snd_bytes_in_flight s' = snd_bytes_in_flight s + 1000"
      "snd_isn s' = snd_isn s" "th_syn h' = th_syn h" "th_fin h' = False"
      using n' False by (simp_all add: s'_def h'_def)
    have "length buf = Suc index * 1000 + (readable - 1000)" "0 < readable - 1000" "snd_next_seqno s' \<noteq> 0"
      using False "1.prems"(1) s'(1) by simp_all
    note IH = "1.IH" [OF refl step [symmetric], unfolded idx MAX_PAYLOAD_SIZE_def, OF _ this(1) "1.prems"(2)]
    obtain segs where segs: "segs \<noteq> []" "th_fin (ts_header (last segs)) \<longleftrightarrow> is_fin"
      "length segs = max 1 ((readable - 1000 + 999) div 1000)"
      "outstanding (snd_isn s) S (?next + 1000) segs (?next + 1000 + (readable - 1000 + of_bool is_fin))"
      and eq: "TCPSender_fill_loop is_fin buf h' (Suc index) (readable - 1000) s' =
        Inr (s'\<lparr>snd_next_seqno := ?next + 1000 + (readable - 1000 + of_bool is_fin),
          snd_bytes_in_flight := snd_bytes_in_flight s + 1000 + (readable - 1000 + of_bool is_fin),
          snd_segments_out := snd_segments_out s' @ segs,
          snd_seg_queue := snd_seg_queue s' @ map (\<lambda>seg. \<lparr>ss_seg = seg, ss_rto = snd_initial_retransmission_timeout s',
            ss_time = snd_last_tick_time s'\<rparr>) segs\<rparr>)"
    proof -
      have "1000 < readable" "th_syn h' = (snd_next_seqno s' = 0)" "th_syn h' \<longrightarrow> readable - 1000 \<le> 1000"
        "is_fin \<or> \<not> th_fin h'" "0 < readable - 1000 \<or> is_fin \<or> th_syn h'"
        "is_substring S (drop (Suc index * 1000) buf) (snd_next_seqno s' - 1) is_fin"
        "snd_bytes_in_flight s' \<le> snd_next_seqno s'"
        using False syn sub' s' "1.prems"(9) by simp_all
      from IH [OF this(1-6) "1.prems"(8) this(7)] show thesis
        unfolding Let_def s'(1-3) using syn s'(4) that by auto
    qed
    have total: "1000 + (readable - 1000 + of_bool is_fin) = readable + of_bool (th_syn h) + of_bool is_fin"
      using False syn by simp
    have count: "Suc (max 1 ((readable - 1000 + 999) div 1000)) = max 1 ((readable + 999) div 1000)"
    proof -
      obtain d where d: "readable = 1000 + d" "0 < d"
        using False le_Suc_ex [of 1000 readable] by auto
      then have "(readable + 999) div 1000 = Suc ((d + 999) div 1000)"
        using div_add_self1 [of 1000 "d + 999"] by (simp add: add.assoc)
      moreover have "0 < (d + 999) div 1000"
        using d(2) by (simp add: div_greater_zero_iff)
      ultimately show ?thesis
        using d(1) by simp
    qed
    have "outstanding (snd_isn s) S ?next (seg # segs) (?next + (readable + of_bool (th_syn h) + of_bool is_fin))"
      using sent n' segs(4) unfolding total [symmetric] by (simp add: add.assoc)
    moreover have "TCPSender_fill_loop is_fin buf h index readable s =
        Inr (s\<lparr>snd_next_seqno := ?next + (readable + of_bool (th_syn h) + of_bool is_fin),
          snd_bytes_in_flight := snd_bytes_in_flight s + (readable + of_bool (th_syn h) + of_bool is_fin),
          snd_segments_out := snd_segments_out s @ seg # segs,
          snd_seg_queue := snd_seg_queue s @ map (\<lambda>seg. \<lparr>ss_seg = seg, ss_rto = snd_initial_retransmission_timeout s,
            ss_time = snd_last_tick_time s\<rparr>) (seg # segs)\<rparr>)"
      unfolding loop eq total [symmetric] by (simp add: s'_def add.assoc)
    moreover have "length (seg # segs) = max 1 ((readable + 999) div 1000)"
      unfolding count [symmetric] segs(3) [symmetric] by simp
    ultimately show ?thesis
      unfolding Let_def by (intro exI [of _ "seg # segs"] conjI) (use segs(1,2) in simp_all)
  qed
qed

lemma TCPSender_fill_loop_start:
  assumes "length buf = r" "r \<le> 65535" "th_fin h = fin" "th_syn h \<longleftrightarrow> snd_next_seqno s = 0" "th_syn h \<longrightarrow> r \<le> 1000"
    "0 < r \<or> fin \<or> th_syn h" "is_substring S buf (snd_next_seqno s - 1) fin" "length S + 3 < W64"
    "snd_bytes_in_flight s \<le> snd_next_seqno s"
  obtains segs where "segs \<noteq> []"
    "outstanding (snd_isn s) S (snd_next_seqno s) segs (snd_next_seqno s + (r + of_bool (snd_next_seqno s = 0) + of_bool fin))"
    "th_fin (ts_header (last segs)) \<longleftrightarrow> fin"
    "TCPSender_fill_loop fin buf h 0 r s =
      Inr (s\<lparr>snd_next_seqno := snd_next_seqno s + (r + of_bool (snd_next_seqno s = 0) + of_bool fin),
        snd_bytes_in_flight := snd_bytes_in_flight s + (r + of_bool (snd_next_seqno s = 0) + of_bool fin),
        snd_segments_out := snd_segments_out s @ segs,
        snd_seg_queue := snd_seg_queue s @ map (\<lambda>seg. \<lparr>ss_seg = seg, ss_rto = snd_initial_retransmission_timeout s,
          ss_time = snd_last_tick_time s\<rparr>) segs\<rparr>)"
    "length segs = max 1 ((r + 999) div 1000)"
proof -
  have "length buf = 0 * 1000 + r" "length buf < 100000" "fin \<or> \<not> th_fin h"
    "is_substring S (drop (0 * 1000) buf) (snd_next_seqno s - 1) fin"
    using assms by simp_all
  from TCPSender_fill_loop_spec [OF this(1,2) assms(4,5) this(3) assms(6) this(4) assms(8,9)] show thesis
    unfolding Let_def assms(4) using that by blast
qed

lemma TCPSender_emitted_outstanding:
  assumes "outstanding isn S a segs b" "seg \<in> set segs"
  shows "TCPSender_emitted isn S seg"
proof -
  obtain c where "sent_segment isn S c seg"
    using outstanding_sent [OF assms] by blast
  then show ?thesis
    unfolding TCPSender_emitted_def using sent_segment_bound(1) [of isn S c seg] by (intro exI [of _ c]) simp
qed

text \<open>What reading from the outgoing stream leaves.\<close>

lemma TCPSender_stream_read:
  assumes "TCPSender_stream_inv S st" "r \<le> length (ByteStream_content st)"
  obtains st' where "ByteStream_read st r = Inr (take r (ByteStream_content st), st')" "TCPSender_stream_inv S st'"
    "ByteStream_content st' = drop r (ByteStream_content st)" "bs_bytes_read st' = bs_bytes_read st + r"
    "bs_input_end st' = bs_input_end st"
    "is_substring S (take r (ByteStream_content st)) (bs_bytes_read st) (ByteStream_eof st')"
    "bs_bytes_written st' = bs_bytes_written st" "bs_capacity st' = bs_capacity st"
proof -
  have inv: "ByteStream_inv st" and len: "length S + 3 < W64"
    and sub: "is_substring S (ByteStream_content st) (bs_bytes_read st) False"
    and fin: "bs_input_end st \<longrightarrow> bs_bytes_read st + length (ByteStream_content st) = length S"
    using assms(1) by (simp_all add: TCPSender_stream_inv_def)
  have "bs_bytes_read st + r < W64"
    using sub assms(2) len by (simp add: is_substring_def)
  then have add: "add64 (bs_bytes_read st) r = bs_bytes_read st + r"
    by (simp add: u64_simps)
  obtain st' where st': "ByteStream_read st r = Inr (take r (ByteStream_content st), st')" "ByteStream_inv st'"
    "ByteStream_content st' = drop r (ByteStream_content st)"
    "bs_bytes_read st' = bs_bytes_read st + r" "bs_input_end st' = bs_input_end st"
    "bs_bytes_written st' = bs_bytes_written st" "bs_capacity st' = bs_capacity st"
    by (rule ByteStream_read_ok [OF inv assms(2)]) (use add in simp)
  have "TCPSender_stream_inv S st'"
    using st' is_substring_drop [OF sub assms(2)] fin len assms(2) by (auto simp: TCPSender_stream_inv_def)
  moreover have "is_substring S (take r (ByteStream_content st)) (bs_bytes_read st) (ByteStream_eof st')"
    using is_substring_take [OF sub, of r] ByteStream_eofD [of st'] st'(3,5) fin assms(2)
    by (auto simp: is_substring_def)
  ultimately show thesis
    using st' by (intro that [of st'])
qed

lemma TCPSender_inv_idle:
  assumes "TCPSender_inv S s" "TCPSender_stream_inv S st" "ByteStream_content st = ByteStream_content (snd_stream s)"
    "bs_bytes_read st = bs_bytes_read (snd_stream s)" "bs_input_end st = bs_input_end (snd_stream s)"
  shows "TCPSender_inv S (s\<lparr>snd_stream := st\<rparr>)"
  using assms by (simp add: TCPSender_inv_def TCPSender_fin_sent_def)

text \<open>The state after the loop, which sent the \<open>r\<close> bytes that were read and possibly a SYN and a FIN.\<close>

lemma TCPSender_inv_sent:
  fixes s :: TCPSender and is_fin :: bool and r :: nat
  defines "n \<equiv> r + of_bool (snd_next_seqno s = 0) + of_bool is_fin"
  assumes inv: "TCPSender_inv S s" and "TCPSender_stream_inv S st" "bs_bytes_read st = bs_bytes_read (snd_stream s) + r"
    and "is_fin \<longrightarrow> bs_input_end st \<and> ByteStream_content st = []" "\<not> TCPSender_fin_sent s"
    and "snd_next_seqno s = 0 \<longrightarrow> r \<le> 1" "0 < snd_next_seqno s \<longrightarrow> snd_bytes_in_flight s + r + of_bool is_fin \<le> snd_window_size s"
    and segs: "segs \<noteq> []" "outstanding (snd_isn s) S (snd_next_seqno s) segs (snd_next_seqno s + n)"
      "th_fin (ts_header (last segs)) \<longleftrightarrow> is_fin"
    and queue: "map ss_seg queue = segs"
    and s': "s' = s\<lparr>snd_stream := st, snd_next_seqno := snd_next_seqno s + n,
      snd_bytes_in_flight := snd_bytes_in_flight s + n, snd_segments_out := snd_segments_out s @ segs,
      snd_seg_queue := snd_seg_queue s @ queue\<rparr>"
  shows "TCPSender_inv S s'" "TCPSender_fin_sent s' \<longleftrightarrow> is_fin"
proof -
  note I = inv [unfolded TCPSender_inv_def]
  have "queue \<noteq> []"
    using queue segs(1) by (cases queue) simp_all
  then have q: "queue \<noteq> []" "ss_seg (last queue) = last segs"
    using last_map [of queue ss_seg] queue by simp_all
  show fin: "TCPSender_fin_sent s' \<longleftrightarrow> is_fin"
    using assms(6) q segs(3) s' by (auto simp: TCPSender_fin_sent_def)
  define m where "m = snd_next_seqno s + n"
  have m: "1 + bs_bytes_read st + of_bool is_fin = m" "0 < m" "snd_bytes_in_flight s + n \<le> m"
    "m - (snd_bytes_in_flight s + n) = snd_next_seqno s - snd_bytes_in_flight s"
    "snd_bytes_in_flight s + n < m \<longleftrightarrow> snd_bytes_in_flight s < snd_next_seqno s"
    using I assms(4,6) by (auto simp: m_def n_def)
  have "outstanding (snd_isn s) S (snd_next_seqno s - snd_bytes_in_flight s) (map ss_seg (snd_seg_queue s @ queue)) m"
    using I segs(2) queue by (auto simp: outstanding_append m_def)
  moreover have "snd_bytes_in_flight s + n \<le> 65536"
    using I assms(7,8) by (cases "snd_next_seqno s = 0") (auto simp: n_def)
  moreover have "\<forall>seg \<in> set segs. TCPSender_emitted (snd_isn s) S seg"
    using TCPSender_emitted_outstanding [OF segs(2)] by blast
  ultimately show "TCPSender_inv S s'"
    unfolding TCPSender_inv_def fin unfolding s' m_def [symmetric] using I assms(3,5) m by (simp add: ball_Un)
qed

lemma TCPSender_fill_window_spec:
  assumes inv: "TCPSender_inv S s"
  obtains s' segs where "TCPSender_fill_window s = Inr s'" "TCPSender_inv S s'"
    "snd_segments_out s' = snd_segments_out s @ segs"
    "map ss_seg (snd_seg_queue s') = map ss_seg (snd_seg_queue s) @ segs"
    "outstanding (snd_isn s) S (snd_next_seqno s) segs (snd_next_seqno s')"
    "snd_isn s' = snd_isn s" "snd_window_size s' = snd_window_size s"
    "bs_bytes_written (snd_stream s') = bs_bytes_written (snd_stream s)"
    "bs_input_end (snd_stream s') = bs_input_end (snd_stream s)" "bs_capacity (snd_stream s') = bs_capacity (snd_stream s)"
    "0 < snd_next_seqno s'"
    "TCPSender_remaining_size s = 0 \<or> \<not> snd_is_syn_received s \<and> snd_seg_queue s \<noteq> [] \<or>
      snd_window_size s \<le> snd_bytes_in_flight s' \<or>
      ByteStream_content (snd_stream s') = [] \<and> (ByteStream_eof (snd_stream s') \<longrightarrow> TCPSender_fin_sent s')"
proof -
  note I = inv [unfolded TCPSender_inv_def]
  let ?rem = "TCPSender_remaining_size s" and ?queue = "snd_seg_queue s" and ?content = "ByteStream_content (snd_stream s)"
  have st: "TCPSender_stream_inv S (snd_stream s)" "ByteStream_inv (snd_stream s)"
    using I by (simp_all add: TCPSender_stream_inv_def)
  have head: "th_syn (ts_header (ss_seg (hd ?queue)))" if "\<not> snd_is_syn_received s" "?queue \<noteq> []"
    using I that by (cases ?queue) (auto simp: sent_segment_def)
  show thesis
  proof (cases "?rem = 0 \<or> \<not> snd_is_syn_received s \<and> ?queue \<noteq> []")
    case True
    then have "TCPSender_fill_window s = Inr s"
      using head by (auto simp: TCPSender_fill_window_def Let_def)
    moreover have "0 < snd_next_seqno s"
      using True I by (cases "snd_seg_queue s") (auto simp: TCPSender_remaining_size_def dest: outstanding_sum split: if_splits)
    ultimately show thesis
      by (intro that [of s "[]"]) (use inv True in auto)
  next
    case False
    then have go: "0 < ?rem" "snd_is_syn_received s \<or> ?queue = []"
      by auto
    have syn: "\<not> snd_is_syn_received s \<longleftrightarrow> snd_next_seqno s = 0"
      using I go(2) by auto
    define r where "r = min ?rem (length ?content)"
    obtain st' where st': "ByteStream_read (snd_stream s) r = Inr (take r ?content, st')" "TCPSender_stream_inv S st'"
      "ByteStream_content st' = drop r ?content" "bs_bytes_read st' = bs_bytes_read (snd_stream s) + r"
      "bs_input_end st' = bs_input_end (snd_stream s)"
      "is_substring S (take r ?content) (bs_bytes_read (snd_stream s)) (ByteStream_eof st')"
      "bs_bytes_written st' = bs_bytes_written (snd_stream s)" "bs_capacity st' = bs_capacity (snd_stream s)"
      by (rule TCPSender_stream_read [OF st(1), of r]) (simp add: r_def)
    define fin where "fin \<longleftrightarrow> ByteStream_eof st' \<and> \<not> snd_is_fin_received s \<and> r + 1 \<le> ?rem"
    let ?s = "s\<lparr>snd_stream := st'\<rparr>" and ?h = "TCPHeader_default\<lparr>th_syn := \<not> snd_is_syn_received s, th_fin := fin\<rparr>"
    let ?done = "ByteStream_eof st' \<and> \<not> snd_is_fin_received s \<and> ?queue \<noteq> [] \<and> th_fin (ts_header (ss_seg (last ?queue)))"
    have "?rem \<le> 65535"
      using I by (auto simp: TCPSender_remaining_size_def)
    then have "r \<le> 65535"
      by (simp add: r_def)
    then have r: "r \<le> 65535" "add64 r 1 = r + 1"
      using add64_small [of r 1] W64_gt(1) by linarith+
    have run: "TCPSender_fill_window s = (if ?done \<or> r = 0 \<and> snd_is_syn_received s \<and> \<not> fin then Inr ?s
        else TCPSender_fill_loop fin (take r ?content) ?h 0 r ?s)"
      using go st(2) st'(1) r(2)
      by (auto simp: TCPSender_fill_window_def r_def [symmetric] fin_def TCPHeader_default_def Let_def)
    show thesis
    proof (cases "?done \<or> r = 0 \<and> snd_is_syn_received s \<and> \<not> fin")
      case True
      then have "r = 0"
        using I by (auto simp: r_def TCPSender_fin_sent_def)
      then have content: "?content = []"
        using go(1) by (auto simp: r_def min_def split: if_splits)
      have "ByteStream_eof st' \<longrightarrow> TCPSender_fin_sent ?s"
        using True \<open>r = 0\<close> go(1) by (auto simp: TCPSender_fin_sent_def fin_def)
      moreover have "0 < snd_next_seqno s"
        using True syn I by (auto simp: TCPSender_fin_sent_def)
      ultimately show thesis
        by (intro that [of ?s "[]"])
          (use True run content st' \<open>r = 0\<close> TCPSender_inv_idle [OF inv st'(2)] in simp_all)
    next
      case False
      then have open_stream: "\<not> TCPSender_fin_sent s"
        using I syn by (auto simp: r_def fin_def TCPSender_fin_sent_def)
      have next1: "snd_next_seqno s - 1 = bs_bytes_read (snd_stream s)" "snd_next_seqno s = 0 \<longrightarrow> r \<le> 1"
        using I open_stream by (auto simp: r_def TCPSender_remaining_size_def)
      have sub: "is_substring S (take r ?content) (snd_next_seqno s - 1) fin"
        using st'(6) next1 by (auto simp: is_substring_def fin_def)
      define n where "n = r + of_bool (snd_next_seqno s = 0) + of_bool fin"
      obtain segs where segs: "segs \<noteq> []" "outstanding (snd_isn s) S (snd_next_seqno s) segs (snd_next_seqno s + n)"
        "th_fin (ts_header (last segs)) \<longleftrightarrow> fin"
        and loop: "TCPSender_fill_loop fin (take r ?content) ?h 0 r ?s =
          Inr (?s\<lparr>snd_next_seqno := snd_next_seqno s + n, snd_bytes_in_flight := snd_bytes_in_flight s + n,
            snd_segments_out := snd_segments_out s @ segs,
            snd_seg_queue := ?queue @ map (\<lambda>seg. \<lparr>ss_seg = seg, ss_rto = snd_initial_retransmission_timeout s,
              ss_time = snd_last_tick_time s\<rparr>) segs\<rparr>)"
      proof (rule TCPSender_fill_loop_start)
        show "length (take r ?content) = r" "r \<le> 65535" "th_fin ?h = fin"
          using r(1) by (simp_all add: r_def)
        show "th_syn ?h \<longleftrightarrow> snd_next_seqno ?s = 0" "th_syn ?h \<longrightarrow> r \<le> 1000" "0 < r \<or> fin \<or> th_syn ?h"
          using syn next1(2) False by auto
        show "is_substring S (take r ?content) (snd_next_seqno ?s - 1) fin"
          "length S + 3 < W64" "snd_bytes_in_flight ?s \<le> snd_next_seqno ?s"
          using sub I by (simp_all add: TCPSender_stream_inv_def)
      qed (use that n_def in simp)
      have fin: "fin \<longrightarrow> bs_input_end st' \<and> ByteStream_content st' = []"
        using ByteStream_eofD by (auto simp: fin_def)
      have room: "0 < snd_next_seqno s \<longrightarrow> snd_bytes_in_flight s + r + of_bool fin \<le> snd_window_size s"
        using go(1) by (auto simp: TCPSender_remaining_size_def fin_def r_def split: if_splits)
      let ?q = "map (\<lambda>seg. \<lparr>ss_seg = seg, ss_rto = snd_initial_retransmission_timeout s, ss_time = snd_last_tick_time s\<rparr>) segs"
      let ?s' = "s\<lparr>snd_stream := st', snd_next_seqno := snd_next_seqno s + n, snd_bytes_in_flight := snd_bytes_in_flight s + n,
        snd_segments_out := snd_segments_out s @ segs, snd_seg_queue := ?queue @ ?q\<rparr>"
      have q: "map ss_seg ?q = segs"
        by (simp add: comp_def)
      note sent = TCPSender_inv_sent [OF inv st'(2,4) fin open_stream next1(2) room segs(1) segs(2) [unfolded n_def] segs(3) q,
        folded n_def, OF refl]
      have "snd_window_size s \<le> snd_bytes_in_flight s + n \<or>
          drop r ?content = [] \<and> (ByteStream_eof st' \<longrightarrow> TCPSender_fin_sent ?s')"
        unfolding sent(2) using go(1) open_stream
        by (auto simp: n_def r_def fin_def TCPSender_fin_sent_def TCPSender_remaining_size_def min_def split: if_splits)
      moreover have sent_some: "0 < snd_next_seqno s + n"
        using False syn by (auto simp: n_def)
      ultimately show thesis
        by (intro that [of ?s' segs]) (use run False loop sent(1) segs(1,2) sent_some st'(3,5,7,8) q in simp_all)
    qed
  qed
qed

end
