(* ===== verification/TCP_Sender_Correct.thy ===== *)
theory TCP_Sender_Correct
  imports TCP_Sender
begin

text \<open>
  The correctness of the TCP sender: every operation keeps the invariant, whatever
  acknowledgments arrive, so that a whole sequence of calls never throws and only sends segments
  of the stream the application wrote.
\<close>

section \<open>Acknowledgments\<close>

text \<open>The state after the first \<open>k\<close> outstanding segments were acknowledged.\<close>

definition TCPSender_acked :: "nat \<Rightarrow> TCPSender \<Rightarrow> TCPSender" where
  "TCPSender_acked k s =
    (let front = map ss_seg (take k (snd_seg_queue s)) in
      s\<lparr>snd_consecutive_retrans := (if k = 0 then snd_consecutive_retrans s else 0),
        snd_is_syn_received := snd_is_syn_received s \<or> (\<exists>seg \<in> set front. th_syn (ts_header seg)),
        snd_is_fin_received := snd_is_fin_received s \<or> (\<exists>seg \<in> set front. th_fin (ts_header seg)),
        snd_bytes_in_flight := snd_bytes_in_flight s - sum_list (map seq_len front),
        snd_seg_queue := drop k (snd_seg_queue s)\<rparr>)"

lemma TCPSender_acked_0: "TCPSender_acked 0 s = s"
  by (cases s) (simp add: TCPSender_acked_def)

lemma TCPSender_acked_Suc:
  assumes "snd_seg_queue s = front # queue" "s' = s\<lparr>snd_consecutive_retrans := 0,
      snd_is_syn_received := snd_is_syn_received s \<or> th_syn (ts_header (ss_seg front)),
      snd_is_fin_received := snd_is_fin_received s \<or> th_fin (ts_header (ss_seg front)),
      snd_bytes_in_flight := snd_bytes_in_flight s - seq_len (ss_seg front), snd_seg_queue := queue\<rparr>"
  shows "TCPSender_acked k s' = TCPSender_acked (Suc k) s"
  using assms by (cases s) (auto simp: TCPSender_acked_def Let_def)

text \<open>How many of the outstanding segments from \<open>a\<close> on lie below an acknowledgment number.\<close>

fun acked_count :: "nat \<Rightarrow> nat \<Rightarrow> TCPSegment list \<Rightarrow> nat" where
  "acked_count ack a [] = 0"
| "acked_count ack a (seg # segs) = (if a + seq_len seg \<le> ack then Suc (acked_count ack (a + seq_len seg) segs) else 0)"

lemma acked_count_le: "acked_count ack a segs \<le> length segs"
  by (induction segs arbitrary: a) auto

lemma TCPSender_ack_loop_eq:
  assumes "outstanding (snd_isn s) S a (map ss_seg queue) (snd_next_seqno s)" "length S + 3 < W64"
    and "snd_bytes_in_flight s = snd_next_seqno s - a" "a \<le> snd_next_seqno s" "snd_next_seqno s < W64"
    and "snd_bytes_in_flight s < 2147483648"
  shows "TCPSender_ack_loop ack s queue b =
    (let k = acked_count ack a (map ss_seg queue) in (b \<or> 0 < k, TCPSender_acked k (s\<lparr>snd_seg_queue := queue\<rparr>)))"
  using assms
proof (induction queue arbitrary: a s b)
  case Nil
  then show ?case
    by (simp add: TCPSender_acked_0)
next
  case (Cons front queue)
  let ?seg = "ss_seg front" and ?next = "snd_next_seqno s"
  have seg: "sent_segment (snd_isn s) S a ?seg" "outstanding (snd_isn s) S (a + seq_len ?seg) (map ss_seg queue) ?next"
    using Cons.prems(1) by simp_all
  have "\<bar>int a - int ?next\<bar> < 2147483648" "a < W64"
    using Cons.prems by linarith+
  then have index: "unat (unwrap (th_seqno (ts_header ?seg)) (snd_isn s) (of_nat ?next)) = a"
    using unwrap_index Cons.prems(5) seg(1) by (simp add: sent_segment_def)
  have len: "TCPSegment_length_in_sequence_space ?seg = seq_len ?seg" "add64 a (seq_len ?seg) = a + seq_len ?seg"
    "a + seq_len ?seg \<le> ?next"
    using sent_segment_bound [OF seg(1)] Cons.prems(2) outstanding_sum [OF seg(2)]
    by (simp_all add: length_in_sequence_space_eq u64_simps)
  have sub: "sub64 (snd_bytes_in_flight s) (seq_len ?seg) = snd_bytes_in_flight s - seq_len ?seg"
    using len(3) Cons.prems(3,5) by (simp add: u64_simps)
  let ?s = "s\<lparr>snd_consecutive_retrans := 0, snd_is_syn_received := snd_is_syn_received s \<or> th_syn (ts_header ?seg),
      snd_is_fin_received := snd_is_fin_received s \<or> th_fin (ts_header ?seg),
      snd_bytes_in_flight := snd_bytes_in_flight s - seq_len ?seg\<rparr>"
  show ?case
  proof (cases "a + seq_len ?seg \<le> ack")
    case True
    let ?k = "acked_count ack (a + seq_len ?seg) (map ss_seg queue)"
    have "TCPSender_ack_loop ack ?s queue True = (True, TCPSender_acked ?k (?s\<lparr>snd_seg_queue := queue\<rparr>))"
      using Cons.IH [of ?s "a + seq_len ?seg" True] seg(2) len(3) Cons.prems(2-6) by (simp add: Let_def)
    moreover have "TCPSender_acked ?k (?s\<lparr>snd_seg_queue := queue\<rparr>) =
        TCPSender_acked (Suc ?k) (s\<lparr>snd_seg_queue := front # queue\<rparr>)"
      by (rule TCPSender_acked_Suc) simp_all
    ultimately show ?thesis
      using True index len sub by (simp add: Let_def)
  next
    case False
    then show ?thesis
      using index len by (simp add: TCPSender_acked_0 Let_def)
  qed
qed

text \<open>The number of segments that an acknowledgment takes out of the queue.\<close>

definition TCPSender_ack_count :: "TCPSender \<Rightarrow> nat \<Rightarrow> nat" where
  "TCPSender_ack_count s ack =
    acked_count ack (snd_next_seqno s - snd_bytes_in_flight s) (map ss_seg (snd_seg_queue s))"

lemma TCPSender_ack_received_eq:
  assumes inv: "TCPSender_inv S s"
  shows "TCPSender_ack_received s ackno w =
    (let ack = unat (unwrap ackno (snd_isn s) (of_nat (snd_next_seqno s))); k = TCPSender_ack_count s ack;
         s' = TCPSender_acked k (s\<lparr>snd_window_size := (if w = 0 then 1 else unat w), snd_is_window_zero := (w = 0)\<rparr>)
     in if snd_next_seqno s < ack then s else if 0 < k then TCPSender_restart_timer s' else s')"
proof -
  note I = inv [unfolded TCPSender_inv_def TCPSender_stream_inv_def]
  let ?s = "s\<lparr>snd_window_size := (if w = 0 then 1 else unat w), snd_is_window_zero := (w = 0)\<rparr>"
  let ?a = "snd_next_seqno s - snd_bytes_in_flight s"
  have "snd_next_seqno s < W64"
    using I by (cases "snd_next_seqno s = 0") (auto simp: is_substring_def of_bool_def split: if_splits)
  then have "TCPSender_ack_loop ack ?s (snd_seg_queue s) False =
      (let k = TCPSender_ack_count s ack in (0 < k, TCPSender_acked k ?s))" for ack
    using TCPSender_ack_loop_eq [of ?s S ?a "snd_seg_queue s" ack False] I
    by (simp add: TCPSender_ack_count_def Let_def)
  then show ?thesis
    by (simp add: TCPSender_ack_received_def Let_def)
qed

lemma TCPSender_fin_sent_acked:
  assumes "outstanding isn S a (map ss_seg (snd_seg_queue s)) b"
  shows "TCPSender_fin_sent (TCPSender_acked k s) \<longleftrightarrow> TCPSender_fin_sent s"
proof (cases "drop k (snd_seg_queue s) = []")
  case True
  then have all: "take k (snd_seg_queue s) = snd_seg_queue s"
    by simp
  have "(\<exists>x \<in> set (snd_seg_queue s). th_fin (ts_header (ss_seg x))) \<longleftrightarrow>
      snd_seg_queue s \<noteq> [] \<and> th_fin (ts_header (ss_seg (last (snd_seg_queue s))))"
  proof (cases "snd_seg_queue s" rule: rev_cases)
    case (snoc xs x)
    then have out: "outstanding isn S a (map ss_seg xs @ [ss_seg x]) b"
      using assms by simp
    have "\<not> th_fin (ts_header (ss_seg y))" if "y \<in> set xs" for y
      by (rule outstanding_fin [OF out]) (use that in simp_all)
    then show ?thesis
      using snoc by simp
  qed simp
  then show ?thesis
    using all True by (auto simp: TCPSender_fin_sent_def TCPSender_acked_def Let_def)
next
  case False
  have out: "outstanding isn S a (map ss_seg (take k (snd_seg_queue s)) @ map ss_seg (drop k (snd_seg_queue s))) b"
    using assms by (simp flip: map_append)
  have "\<not> th_fin (ts_header seg)" if "seg \<in> set (map ss_seg (take k (snd_seg_queue s)))" for seg
    by (rule outstanding_fin [OF out _ that]) (use False in simp)
  then have none: "(\<exists>seg \<in> set (map ss_seg (take k (snd_seg_queue s))). th_fin (ts_header seg)) \<longleftrightarrow> False"
    by blast
  have "snd_seg_queue s \<noteq> []" "last (drop k (snd_seg_queue s)) = last (snd_seg_queue s)"
    using False by (auto simp: last_drop)
  then show ?thesis
    using False unfolding TCPSender_fin_sent_def TCPSender_acked_def Let_def none by simp
qed

lemma TCPSender_inv_acked:
  assumes inv: "TCPSender_inv S s"
  shows "TCPSender_inv S (TCPSender_acked k s)"
proof -
  note I = inv [unfolded TCPSender_inv_def]
  let ?q = "snd_seg_queue s" and ?a = "snd_next_seqno s - snd_bytes_in_flight s"
  let ?front = "map ss_seg (take k ?q)"
  define d where "d = sum_list (map seq_len ?front)"
  have "outstanding (snd_isn s) S ?a (?front @ map ss_seg (drop k ?q)) (snd_next_seqno s)"
    using I by (simp flip: map_append)
  then have out: "outstanding (snd_isn s) S ?a ?front (?a + d)"
    "outstanding (snd_isn s) S (?a + d) (map ss_seg (drop k ?q)) (snd_next_seqno s)"
    using outstanding_sum by (fastforce simp: outstanding_append d_def)+
  have d: "d \<le> snd_bytes_in_flight s" "snd_next_seqno s - (snd_bytes_in_flight s - d) = ?a + d"
    "snd_bytes_in_flight s - d \<le> snd_next_seqno s" "snd_bytes_in_flight s - d \<le> 65536"
    using outstanding_sum [OF out(2)] I by auto
  have syn: "snd_is_syn_received s \<or> (\<exists>seg \<in> set ?front. th_syn (ts_header seg)) \<longleftrightarrow>
      snd_bytes_in_flight s - d < snd_next_seqno s"
  proof (cases ?front)
    case Nil
    have "d = 0"
      unfolding d_def Nil by simp
    then show ?thesis
      unfolding Nil using I by simp
  next
    case (Cons seg segs)
    then have "sent_segment (snd_isn s) S ?a seg" "0 < seq_len seg" "seq_len seg \<le> d"
      using out(1) unfolding d_def Cons by simp_all
    then show ?thesis
      unfolding Cons using I d by (cases "?a = 0") (auto simp: sent_segment_def)
  qed
  have fin: "TCPSender_fin_sent (TCPSender_acked k s) \<longleftrightarrow> TCPSender_fin_sent s"
    using TCPSender_fin_sent_acked I by blast
  show ?thesis
    unfolding TCPSender_inv_def fin unfolding TCPSender_acked_def Let_def d_def [symmetric] syn
    using I out(2) d by simp
qed

lemma TCPSender_inv_window:
  "TCPSender_inv S s \<Longrightarrow> 1 \<le> w \<Longrightarrow> w \<le> 65535 \<Longrightarrow> 0 < snd_next_seqno s \<Longrightarrow>
    TCPSender_inv S (s\<lparr>snd_window_size := w, snd_is_window_zero := z\<rparr>)"
  by (simp add: TCPSender_inv_def TCPSender_fin_sent_def)

text \<open>Operations that only touch the timers or only send.\<close>

lemma TCPSender_inv_clock [simp]:
  "TCPSender_inv S (s\<lparr>snd_last_tick_time := t\<rparr>) = TCPSender_inv S s"
  "TCPSender_inv S (s\<lparr>snd_consecutive_retrans := c\<rparr>) = TCPSender_inv S s"
  by (simp_all add: TCPSender_inv_def TCPSender_fin_sent_def)

lemma TCPSender_inv_out:
  assumes "TCPSender_inv S s" "\<forall>seg \<in> set out. TCPSender_emitted (snd_isn s) S seg"
  shows "TCPSender_inv S (s\<lparr>snd_segments_out := snd_segments_out s @ out\<rparr>)" "TCPSender_inv S (s\<lparr>snd_segments_out := out\<rparr>)"
  using assms by (auto simp: TCPSender_inv_def TCPSender_fin_sent_def)

lemma TCPSender_inv_queue:
  assumes "TCPSender_inv S s" "map ss_seg queue = map ss_seg (snd_seg_queue s)"
  shows "TCPSender_inv S (s\<lparr>snd_seg_queue := queue\<rparr>)"
proof -
  have "queue = [] \<longleftrightarrow> snd_seg_queue s = []"
    using assms(2) by (metis map_is_Nil_conv)
  moreover have "queue \<noteq> [] \<Longrightarrow> ss_seg (last queue) = ss_seg (last (snd_seg_queue s))"
    using assms(2) calculation by (metis last_map)
  ultimately have "TCPSender_fin_sent (s\<lparr>snd_seg_queue := queue\<rparr>) = TCPSender_fin_sent s"
    by (auto simp: TCPSender_fin_sent_def)
  then show ?thesis
    using assms unfolding TCPSender_inv_def by simp
qed

lemma TCPSender_inv_restart:
  assumes "TCPSender_inv S s"
  shows "TCPSender_inv S (TCPSender_restart_timer s)"
  using assms by (auto simp: TCPSender_restart_timer_def intro!: TCPSender_inv_queue split: list.split)

lemma wrap_unwrap: "wrap (unwrap n isn checkpoint) isn = n"
  by (simp add: wrap_eq_iff unwrap_mod)

lemma TCPSender_inv_ack:
  assumes inv: "TCPSender_inv S s" and early: "0 < snd_next_seqno s \<or> ackno \<noteq> snd_isn s"
  shows "TCPSender_inv S (TCPSender_ack_received s ackno w)"
proof (cases "0 < snd_next_seqno s")
  case True
  have "unat w < 65536"
    using unsigned_less [of w] by simp
  then have "unat w \<le> 65535" "w \<noteq> 0 \<Longrightarrow> 0 < unat w"
    by (auto simp: unat_gt_0)
  then have "TCPSender_inv S (s\<lparr>snd_window_size := (if w = 0 then 1 else unat w), snd_is_window_zero := (w = 0)\<rparr>)"
    by (intro TCPSender_inv_window [OF inv _ _ True]) auto
  then show ?thesis
    using inv by (simp add: TCPSender_ack_received_eq [OF inv] TCPSender_inv_acked TCPSender_inv_restart Let_def)
next
  case False
  then have "unwrap ackno (snd_isn s) 0 \<noteq> 0"
    using early wrap_unwrap [of ackno "snd_isn s" 0] by auto
  then show ?thesis
    using inv False by (simp add: TCPSender_ack_received_eq [OF inv] Let_def unat_gt_0)
qed

lemma TCPSender_outstanding:
  "TCPSender_inv S s \<Longrightarrow> outstanding (snd_isn s) S (snd_next_seqno s - snd_bytes_in_flight s)
    (map ss_seg (snd_seg_queue s)) (snd_next_seqno s)"
  by (simp add: TCPSender_inv_def)

lemma TCPSender_inv_tick:
  assumes inv: "TCPSender_inv S s"
  shows "TCPSender_inv S (TCPSender_tick s ms)"
proof (cases "snd_seg_queue s")
  case Nil
  then show ?thesis
    using inv by (simp add: TCPSender_tick_def)
next
  case (Cons front queue)
  let ?t = "add64 (snd_last_tick_time s) ms"
  let ?s = "s\<lparr>snd_last_tick_time := ?t\<rparr>"
  have sent: "TCPSender_emitted (snd_isn s) S (ss_seg front)"
    using TCPSender_emitted_outstanding [OF TCPSender_outstanding [OF inv]] Cons by simp
  let ?s' = "?s\<lparr>snd_seg_queue := front\<lparr>ss_rto := (if snd_is_window_zero s then ss_rto front else mul64 (ss_rto front) 2),
      ss_time := ?t\<rparr> # queue, snd_consecutive_retrans := add64 (snd_consecutive_retrans s) 1\<rparr>"
  have "TCPSender_inv S ?s'"
    using TCPSender_inv_queue [of S ?s] inv Cons by simp
  then have "TCPSender_inv S (?s'\<lparr>snd_segments_out := snd_segments_out ?s' @ [ss_seg front]\<rparr>)"
    by (rule TCPSender_inv_out) (use sent in simp)
  then show ?thesis
    using inv Cons by (simp add: TCPSender_tick_def Let_def)
qed

lemma TCPSender_next_bound:
  assumes "TCPSender_inv S s"
  shows "snd_next_seqno s \<le> length S + 2"
  using assms by (cases "snd_next_seqno s = 0")
    (auto simp: TCPSender_inv_def TCPSender_stream_inv_def is_substring_def of_bool_def split: if_splits)

lemma TCPSender_inv_empty:
  assumes inv: "TCPSender_inv S s"
  shows "TCPSender_inv S (TCPSender_send_empty_segment s)"
  unfolding TCPSender_send_empty_segment_def
  by (rule TCPSender_inv_out(1) [OF inv])
    (use TCPSender_next_bound [OF inv] in \<open>auto simp: TCPSender_emitted_def TCPSender_next_seqno_def
      TCPSegment_default_def TCPHeader_default_def\<close>)

text \<open>The loop of \<open>fill_window\<close> leaves the stream alone.\<close>

lemma TCPSender_fill_loop_stream:
  "whenever (TCPSender_fill_loop is_fin buf h index readable s) (\<lambda>s'. snd_stream s' = snd_stream s)"
proof (induction is_fin buf h index readable s rule: TCPSender_fill_loop.induct)
  case (1 is_fin buf h index readable s)
  have piece: "snd_stream (snd (TCPSender_send_piece is_fin piece h readable s)) = snd_stream s" for piece
    by (simp add: TCPSender_send_piece_def Let_def)
  show ?case
    using piece "1.IH" [OF refl surjective_pairing [symmetric]]
    by (subst TCPSender_fill_loop.simps) (auto simp: split_beta whenever_def [of "substr _ _ _"])
qed

section \<open>The application side\<close>

lemma is_substring_append:
  assumes "is_substring S x r False" "is_substring S y (r + length x) False"
  shows "is_substring S (x @ y) r False"
proof -
  have x: "x = take (length x) (drop r S)" and y: "y = take (length y) (drop (r + length x) S)"
    and "r + length x + length y \<le> length S"
    using assms by (simp_all add: is_substring_def)
  moreover have "take (length (x @ y)) (drop r S) = take (length x) (drop r S) @ take (length y) (drop (r + length x) S)"
    by (simp add: take_add add.commute)
  then have "take (length (x @ y)) (drop r S) = x @ y"
    unfolding x [symmetric] y [symmetric] .
  ultimately show ?thesis
    by (simp add: is_substring_def)
qed

text \<open>
  The application writes the next bytes of \<open>S\<close>, as many as the stream accepts, and ends the
  stream when all of \<open>S\<close> was accepted.
\<close>

definition TCPSender_write :: "TCPSender \<Rightarrow> bytes \<Rightarrow> TCPSender" where
  "TCPSender_write s data = s\<lparr>snd_stream := snd (ByteStream_write (snd_stream s) data)\<rparr>"

definition TCPSender_end_input :: "TCPSender \<Rightarrow> TCPSender" where
  "TCPSender_end_input s = s\<lparr>snd_stream := ByteStream_end_input (snd_stream s)\<rparr>"

definition TCPSender_write_ok :: "bytes \<Rightarrow> TCPSender \<Rightarrow> bytes \<Rightarrow> bool" where
  "TCPSender_write_ok S s data \<longleftrightarrow> \<not> bs_input_end (snd_stream s) \<and>
    is_substring S (take (fst (ByteStream_write (snd_stream s) data)) data) (bs_bytes_written (snd_stream s)) False"

lemma TCPSender_stream_written:
  assumes "TCPSender_stream_inv S st"
  shows "bs_bytes_written st = bs_bytes_read st + length (ByteStream_content st)"
proof -
  have "bs_bytes_read st + length (ByteStream_content st) < W64"
    using assms by (simp add: TCPSender_stream_inv_def is_substring_def)
  then show ?thesis
    using assms by (simp add: TCPSender_stream_inv_def ByteStream_inv_def u64_simps)
qed

lemma TCPSender_inv_write:
  assumes inv: "TCPSender_inv S s" and ok: "TCPSender_write_ok S s data"
  shows "TCPSender_inv S (TCPSender_write s data)"
proof -
  let ?st = "snd_stream s"
  note I = inv [unfolded TCPSender_inv_def]
  have st: "TCPSender_stream_inv S ?st" "ByteStream_inv ?st" "is_substring S (ByteStream_content ?st) (bs_bytes_read ?st) False"
    using I by (simp_all add: TCPSender_stream_inv_def)
  obtain n st' where w: "ByteStream_write ?st data = (n, st')"
    by fastforce
  note W = ByteStream_write_spec [OF st(2) w]
  have ended: "\<not> bs_input_end ?st" and sub: "is_substring S (take n data) (bs_bytes_written ?st) False"
    using ok w by (simp_all add: TCPSender_write_ok_def)
  then have "is_substring S (ByteStream_content st') (bs_bytes_read st') False"
    using is_substring_append [OF st(3)] TCPSender_stream_written [OF st(1)] W(2,7) by simp
  then have "TCPSender_stream_inv S st'"
    using st(1) ended W(3,5) by (simp add: TCPSender_stream_inv_def)
  moreover have "\<not> TCPSender_fin_sent s"
    using I ended by blast
  then have fin: "\<not> TCPSender_fin_sent s" "\<not> TCPSender_fin_sent (TCPSender_write s data)"
    by (simp_all add: TCPSender_fin_sent_def TCPSender_write_def)
  ultimately show ?thesis
    using I w W(7) by (simp add: TCPSender_inv_def TCPSender_write_def)
qed

lemma TCPSender_inv_end_input:
  assumes inv: "TCPSender_inv S s" and all: "bs_bytes_written (snd_stream s) = length S"
  shows "TCPSender_inv S (TCPSender_end_input s)"
proof -
  have st: "TCPSender_stream_inv S (snd_stream s)"
    using inv by (simp add: TCPSender_inv_def)
  then have "TCPSender_stream_inv S (ByteStream_end_input (snd_stream s))"
    using TCPSender_stream_written [OF st] all by (simp add: TCPSender_stream_inv_def)
  moreover have "TCPSender_fin_sent (TCPSender_end_input s) = TCPSender_fin_sent s"
    by (simp add: TCPSender_fin_sent_def TCPSender_end_input_def)
  ultimately show ?thesis
    using inv by (cases "TCPSender_fin_sent s") (simp_all add: TCPSender_inv_def TCPSender_end_input_def)
qed

section \<open>Sequences of calls\<close>

text \<open>
  The log keeps what the owner has taken out of the queue of segments to send.
\<close>

datatype TCPSender_op =
    AppWrite bytes
  | AppEnd
  | FillWindow
  | AckReceived WrappingInt32 "16 word"
  | Tick size_t
  | SendEmptySegment
  | TakeSegments

record TCPSender_log =
  sl_sender :: TCPSender
  sl_sent :: "TCPSegment list"

definition TCPSender_log_make :: "size_t \<Rightarrow> 16 word \<Rightarrow> WrappingInt32 \<Rightarrow> TCPSender_log" where
  "TCPSender_log_make capacity retx_timeout isn =
    \<lparr>sl_sender = TCPSender_make capacity retx_timeout (Some isn) 0, sl_sent = []\<rparr>"

fun TCPSender_log_step :: "TCPSender_log \<Rightarrow> TCPSender_op \<Rightarrow> TCPSender_log res" where
  "TCPSender_log_step l (AppWrite data) = Inr (l\<lparr>sl_sender := TCPSender_write (sl_sender l) data\<rparr>)"
| "TCPSender_log_step l AppEnd = Inr (l\<lparr>sl_sender := TCPSender_end_input (sl_sender l)\<rparr>)"
| "TCPSender_log_step l FillWindow = rbind (TCPSender_fill_window (sl_sender l)) (\<lambda>s. Inr (l\<lparr>sl_sender := s\<rparr>))"
| "TCPSender_log_step l (AckReceived ackno w) = Inr (l\<lparr>sl_sender := TCPSender_ack_received (sl_sender l) ackno w\<rparr>)"
| "TCPSender_log_step l (Tick ms) = Inr (l\<lparr>sl_sender := TCPSender_tick (sl_sender l) ms\<rparr>)"
| "TCPSender_log_step l SendEmptySegment = Inr (l\<lparr>sl_sender := TCPSender_send_empty_segment (sl_sender l)\<rparr>)"
| "TCPSender_log_step l TakeSegments = Inr (l\<lparr>sl_sender := (sl_sender l)\<lparr>snd_segments_out := []\<rparr>,
    sl_sent := sl_sent l @ snd_segments_out (sl_sender l)\<rparr>)"

text \<open>
  Any acknowledgment may arrive, forged or stale, except that nothing acknowledges the initial
  sequence number before the SYN was sent.
\<close>

fun TCPSender_op_ok :: "bytes \<Rightarrow> TCPSender_log \<Rightarrow> TCPSender_op \<Rightarrow> bool" where
  "TCPSender_op_ok S l (AppWrite data) = TCPSender_write_ok S (sl_sender l) data"
| "TCPSender_op_ok S l AppEnd = (bs_bytes_written (snd_stream (sl_sender l)) = length S)"
| "TCPSender_op_ok S l (AckReceived ackno w) = (0 < snd_next_seqno (sl_sender l) \<or> ackno \<noteq> snd_isn (sl_sender l))"
| "TCPSender_op_ok S l c = True"

lemmas [sponge_eval] = TCPSender_write_def TCPSender_end_input_def TCPSender_write_ok_def TCPSender_log_make_def

definition TCPSender_log_inv :: "bytes \<Rightarrow> WrappingInt32 \<Rightarrow> TCPSender_log \<Rightarrow> bool" where
  "TCPSender_log_inv S isn l \<longleftrightarrow> TCPSender_inv S (sl_sender l) \<and> snd_isn (sl_sender l) = isn \<and>
    (\<forall>seg \<in> set (sl_sent l). TCPSender_emitted isn S seg)"

lemma TCPSender_isn_kept [simp]:
  "snd_isn (TCPSender_write s data) = snd_isn s" "snd_isn (TCPSender_end_input s) = snd_isn s"
  "snd_isn (TCPSender_tick s ms) = snd_isn s" "snd_isn (TCPSender_send_empty_segment s) = snd_isn s"
  "snd_isn (TCPSender_restart_timer s) = snd_isn s" "snd_isn (TCPSender_acked k s) = snd_isn s"
  by (simp_all add: TCPSender_write_def TCPSender_end_input_def TCPSender_tick_def TCPSender_send_empty_segment_def
    TCPSender_restart_timer_def TCPSender_acked_def Let_def split: list.split)

lemma TCPSender_isn_ack: "TCPSender_inv S s \<Longrightarrow> snd_isn (TCPSender_ack_received s ackno w) = snd_isn s"
  by (simp add: TCPSender_ack_received_eq Let_def)

lemma TCPSender_log_step_safe:
  assumes "TCPSender_log_inv S isn l" "TCPSender_op_ok S l c"
  shows "\<exists>l'. TCPSender_log_step l c = Inr l' \<and> TCPSender_log_inv S isn l'"
proof -
  let ?s = "sl_sender l"
  have inv: "TCPSender_inv S ?s" and isn: "snd_isn ?s = isn" and sent: "\<forall>seg \<in> set (sl_sent l). TCPSender_emitted isn S seg"
    using assms(1) by (simp_all add: TCPSender_log_inv_def)
  show ?thesis
  proof (cases c)
    case FillWindow
    obtain s' segs where "TCPSender_fill_window ?s = Inr s'" "TCPSender_inv S s'" "snd_isn s' = snd_isn ?s"
      by (rule TCPSender_fill_window_spec [OF inv])
    then show ?thesis
      using FillWindow isn sent by (simp add: TCPSender_log_inv_def)
  next
    case TakeSegments
    have "TCPSender_inv S (?s\<lparr>snd_segments_out := []\<rparr>)"
      by (rule TCPSender_inv_out(2) [OF inv]) simp
    moreover have "\<forall>seg \<in> set (snd_segments_out ?s). TCPSender_emitted isn S seg"
      using inv isn by (simp add: TCPSender_inv_def)
    ultimately show ?thesis
      using TakeSegments isn sent by (auto simp: TCPSender_log_inv_def)
  qed (use assms(2) inv isn sent in \<open>simp_all add: TCPSender_log_inv_def TCPSender_inv_write TCPSender_inv_end_input
    TCPSender_inv_ack TCPSender_isn_ack TCPSender_inv_tick TCPSender_inv_empty\<close>)
qed

interpretation snd_log: safe_component TCPSender_log_step "TCPSender_op_ok S" "TCPSender_log_inv S isn" for S isn
  by unfold_locales (rule TCPSender_log_step_safe)

lemma TCPSender_inv_make:
  assumes "capacity < W64" "length S + 3 < W64"
  shows "TCPSender_inv S (TCPSender_make capacity retx_timeout fixed_isn random_device)"
  using assms by (simp add: TCPSender_inv_def TCPSender_stream_inv_def TCPSender_make_def ByteStream_make_fields
    TCPSender_fin_sent_def is_substring_def) (simp add: ByteStream_make_def)

lemma TCPSender_log_inv_make:
  "capacity < W64 \<Longrightarrow> length S + 3 < W64 \<Longrightarrow> TCPSender_log_inv S isn (TCPSender_log_make capacity retx_timeout isn)"
  by (simp add: TCPSender_log_inv_def TCPSender_log_make_def TCPSender_inv_make) (simp add: TCPSender_make_def)

section \<open>Retransmission\<close>

text \<open>
  One millisecond at a time, with nothing acknowledged: after \<open>T\<close> milliseconds the oldest segment
  was sent again \<open>n\<close> times, where \<open>n\<close> is the number of timeouts that fit into \<open>T\<close> when each
  is twice the one before.
\<close>

definition TCPSender_waiting :: "TCPSender \<Rightarrow> TCPSenderSegment \<Rightarrow> TCPSenderSegment list \<Rightarrow> nat \<Rightarrow> nat \<Rightarrow> nat \<Rightarrow> TCPSender" where
  "TCPSender_waiting s front queue R T n = s\<lparr>snd_last_tick_time := snd_last_tick_time s + T,
     snd_consecutive_retrans := snd_consecutive_retrans s + n,
     snd_segments_out := snd_segments_out s @ replicate n (ss_seg front),
     snd_seg_queue := front\<lparr>ss_rto := R * 2 ^ n, ss_time := ss_time front + R * (2 ^ n - 1)\<rparr> # queue\<rparr>"

lemma TCPSender_waiting_tick:
  assumes "\<not> snd_is_window_zero s" "ss_time front = snd_last_tick_time s" "0 < R"
    and "R * (2 ^ n - 1) \<le> T" "T < R * (2 ^ Suc n - 1)"
    and "snd_last_tick_time s + 2 * T + 2 + 2 * R < W64" "snd_consecutive_retrans s + n + 1 < W64"
  obtains n' where "TCPSender_tick (TCPSender_waiting s front queue R T n) 1 = TCPSender_waiting s front queue R (Suc T) n'"
    "R * (2 ^ n' - 1) \<le> Suc T" "Suc T < R * (2 ^ Suc n' - 1)" "n' \<le> Suc n"
proof -
  define rto where "rto = R * 2 ^ n"
  define off where "off = R * (2 ^ n - 1)"
  obtain d where d: "(2 :: nat) ^ n = Suc d"
    using not0_implies_Suc [of "2 ^ n"] by auto
  have rto': "R * 2 ^ Suc n = rto * 2" and off': "R * (2 ^ Suc n - 1) = off + rto"
    "R * (2 ^ Suc (Suc n) - 1) = off + rto + rto * 2" and "rto = off + R"
    by (simp_all add: rto_def off_def d algebra_simps)
  then have "rto * 2 < W64" "snd_last_tick_time s + off + rto < W64" "snd_last_tick_time s + T + 1 < W64" "0 < rto"
    using assms(3,4,6) unfolding off_def [symmetric] by linarith+
  then have arith: "mul64 rto 2 = rto * 2" "add64 (snd_last_tick_time s + off) rto = snd_last_tick_time s + off + rto"
    "add64 (snd_last_tick_time s + T) 1 = snd_last_tick_time s + T + 1"
    "add64 (snd_consecutive_retrans s + n) 1 = snd_consecutive_retrans s + n + 1"
    using assms(7) by (simp_all only: mul64_small add64_small)
  have w: "TCPSender_waiting s front queue R t n = s\<lparr>snd_last_tick_time := snd_last_tick_time s + t,
      snd_consecutive_retrans := snd_consecutive_retrans s + n,
      snd_segments_out := snd_segments_out s @ replicate n (ss_seg front),
      snd_seg_queue := front\<lparr>ss_rto := rto, ss_time := snd_last_tick_time s + off\<rparr> # queue\<rparr>" for t
    by (simp only: TCPSender_waiting_def rto_def off_def assms(2))
  show thesis
  proof (cases "off + rto \<le> Suc T")
    case True
    then have T: "off + rto = Suc T"
      using assms(5) off'(1) by simp
    have w': "TCPSender_waiting s front queue R (Suc T) (Suc n) = s\<lparr>snd_last_tick_time := snd_last_tick_time s + T + 1,
        snd_consecutive_retrans := snd_consecutive_retrans s + n + 1,
        snd_segments_out := (snd_segments_out s @ replicate n (ss_seg front)) @ [ss_seg front],
        snd_seg_queue := front\<lparr>ss_rto := rto * 2, ss_time := snd_last_tick_time s + T + 1\<rparr> # queue\<rparr>"
      using T by (simp only: TCPSender_waiting_def rto' off' assms(2)) (simp add: replicate_append_same)
    have "TCPSender_tick (TCPSender_waiting s front queue R T n) 1 = TCPSender_waiting s front queue R (Suc T) (Suc n)"
      unfolding w w' using T assms(1) arith by (simp add: TCPSender_tick_def Let_def)
    then show thesis
      using that [of "Suc n"] T off' \<open>0 < rto\<close> by simp
  next
    case False
    then have "TCPSender_tick (TCPSender_waiting s front queue R T n) 1 = TCPSender_waiting s front queue R (Suc T) n"
      unfolding w using arith by (simp add: TCPSender_tick_def Let_def)
    then show thesis
      using that [of n] False off'(1) assms(4) by simp
  qed
qed

lemma TCPSender_waiting_ticks:
  assumes "\<not> snd_is_window_zero s" "ss_time front = snd_last_tick_time s" "0 < R" "ss_rto front = R"
    and "snd_seg_queue s = front # queue"
    and "snd_last_tick_time s + 2 * T + 2 + 2 * R < W64" "snd_consecutive_retrans s + T + 1 < W64"
  shows "\<exists>n. n \<le> T \<and> ((\<lambda>s. TCPSender_tick s 1) ^^ T) s = TCPSender_waiting s front queue R T n \<and>
    R * (2 ^ n - 1) \<le> T \<and> T < R * (2 ^ Suc n - 1)"
  using assms(6,7)
proof (induction T)
  case 0
  have "s = TCPSender_waiting s front queue R 0 0"
    using assms(4,5) by (cases s; cases front) (simp add: TCPSender_waiting_def)
  then show ?case
    using assms(3) by auto
next
  case (Suc T)
  then obtain n where n: "n \<le> T" "((\<lambda>s. TCPSender_tick s 1) ^^ T) s = TCPSender_waiting s front queue R T n"
    "R * (2 ^ n - 1) \<le> T" "T < R * (2 ^ Suc n - 1)"
    by auto
  obtain n' where "TCPSender_tick (TCPSender_waiting s front queue R T n) 1 = TCPSender_waiting s front queue R (Suc T) n'"
    "R * (2 ^ n' - 1) \<le> Suc T" "Suc T < R * (2 ^ Suc n' - 1)" "n' \<le> Suc n"
    by (rule TCPSender_waiting_tick [OF assms(1-3) n(3,4), of queue]) (use Suc.prems n(1) in auto)
  then show ?case
    using n(1,2) by (intro exI [of _ n']) simp
qed

section \<open>Properties\<close>



text \<open>C18: \<open>fill_window\<close> sends all it can. In every reachable state with room in the window and no
  SYN waiting for its acknowledgment, the call returns with the window used up, or with nothing
  left to read and, if the stream has reached its end, the FIN sent.\<close>

theorem TCPSender_fill_window_fills:
  assumes "capacity < W64" "length S + 3 < W64"
    and "admissible TCPSender_log_step (TCPSender_op_ok S) (TCPSender_log_make capacity retx_timeout isn) ops"
    and "run_ops TCPSender_log_step (TCPSender_log_make capacity retx_timeout isn) ops = Inr l" "s = sl_sender l"
    and "0 < TCPSender_remaining_size s" "snd_is_syn_received s \<or> snd_seg_queue s = []"
  shows "\<exists>s'. TCPSender_fill_window s = Inr s' \<and>
    (snd_window_size s \<le> snd_bytes_in_flight s' \<or>
     ByteStream_buffer_size (snd_stream s') = 0 \<and> (ByteStream_eof (snd_stream s') \<longrightarrow> TCPSender_fin_sent s'))"
proof -
  have inv: "TCPSender_inv S s"
    using snd_log.run_keeps [OF TCPSender_log_inv_make [OF assms(1,2)] assms(3,4)] assms(5)
    by (simp add: TCPSender_log_inv_def)
  obtain s' segs where s': "TCPSender_fill_window s = Inr s'" "TCPSender_inv S s'"
    "TCPSender_remaining_size s = 0 \<or> \<not> snd_is_syn_received s \<and> snd_seg_queue s \<noteq> [] \<or>
      snd_window_size s \<le> snd_bytes_in_flight s' \<or>
      ByteStream_content (snd_stream s') = [] \<and> (ByteStream_eof (snd_stream s') \<longrightarrow> TCPSender_fin_sent s')"
    by (rule TCPSender_fill_window_spec [OF inv])
  have "ByteStream_inv (snd_stream s')"
    using s'(2) by (simp add: TCPSender_inv_def TCPSender_stream_inv_def)
  then show ?thesis
    using s'(1,3) assms(6,7) by auto
qed

theorem TCPSender_fill_window_fills_witness:
  "\<exists>s'. TCPSender_fill_window (TCPSender_make 8 1000 (Some (WrappingInt32 50)) 0) = Inr s' \<and>
    (1 \<le> snd_bytes_in_flight s' \<or> ByteStream_buffer_size (snd_stream s') = 0)"
proof -
  let ?l = "TCPSender_log_make 8 1000 (WrappingInt32 50)" and ?s = "TCPSender_make 8 1000 (Some (WrappingInt32 50)) 0"
  have "(8 :: nat) < W64" "length [1, 2, 3 :: byte] + 3 < W64"
    by (simp_all add: W64_def)
  moreover have "admissible TCPSender_log_step (TCPSender_op_ok [1, 2, 3]) ?l []" "run_ops TCPSender_log_step ?l [] = Inr ?l"
    by simp_all
  moreover have "?s = sl_sender ?l"
    by (simp add: TCPSender_log_make_def)
  moreover have "0 < TCPSender_remaining_size ?s" "snd_is_syn_received ?s \<or> snd_seg_queue ?s = []" "snd_window_size ?s = 1"
    by (simp_all add: sponge_eval)
  ultimately show ?thesis
    using TCPSender_fill_window_fills [of 8 "[1, 2, 3]" 1000 "WrappingInt32 50" "[]" ?l ?s] by auto
qed



text \<open>C20: the loop of \<open>fill_window\<close> terminates without throwing. Whatever was read, up to the
  largest window, it ends after one segment for every 1000 bytes started, or one segment if there
  are no bytes.\<close>

theorem TCPSender_fill_loop_terminates:
  assumes "TCPSender_inv S s" "length buf = r" "r \<le> 65535" "th_fin h = fin"
    and "th_syn h \<longleftrightarrow> snd_next_seqno s = 0" "th_syn h \<longrightarrow> r \<le> 1000" "0 < r \<or> fin \<or> th_syn h"
    and "is_substring S buf (snd_next_seqno s - 1) fin"
  shows "\<exists>s'. TCPSender_fill_loop fin buf h 0 r s = Inr s' \<and>
    length (snd_segments_out s') = length (snd_segments_out s) + max 1 ((r + 999) div 1000)"
proof -
  have "length S + 3 < W64" "snd_bytes_in_flight s \<le> snd_next_seqno s"
    using assms(1) by (simp_all add: TCPSender_inv_def TCPSender_stream_inv_def)
  then show ?thesis
    by (rule TCPSender_fill_loop_start [OF assms(2-8)]) simp
qed

theorem TCPSender_fill_loop_terminates_witness:
  "\<exists>s'. TCPSender_fill_loop False [] (TCPHeader_default\<lparr>th_syn := True\<rparr>) 0 0 (TCPSender_make 8 100 None 7) = Inr s' \<and>
    length (snd_segments_out s') = 1"
proof -
  let ?s = "TCPSender_make 8 100 None 7"
  have "TCPSender_inv [] ?s"
    by (rule TCPSender_inv_make) (simp_all add: W64_def)
  moreover have "snd_next_seqno ?s = 0" "snd_segments_out ?s = []"
    by (simp_all add: TCPSender_make_def)
  ultimately show ?thesis
    using TCPSender_fill_loop_terminates [of "[]" ?s "[]" 0 "TCPHeader_default\<lparr>th_syn := True\<rparr>" False]
    by (simp add: TCPHeader_default_def is_substring_def)
qed

text \<open>The SYN is not counted against the window. With a byte written before the connection is
  opened, the first segment carries the SYN and the byte and occupies two sequence numbers,
  although the window the sender assumes is 1.\<close>

lemma TCPSender_overruns_window:
  "\<exists>s. TCPSender_fill_window (TCPSender_write (TCPSender_make 8 1000 (Some (WrappingInt32 50)) 0) [9]) = Inr s \<and>
    snd_window_size s = 1 \<and> snd_bytes_in_flight s = 2 \<and>
    map (\<lambda>seg. (th_syn (ts_header seg), Buffer_str (ts_payload seg))) (snd_segments_out s) = [(True, [9])]"
  by (simp add: sponge_eval Let_def)

end
