(* ===== verification/TCP_Connection.thy ===== *)
theory TCP_Connection
  imports TCP_Sender_Correct
begin

text \<open>
  A whole TCP endpoint, \<open>libsponge/tcp_connection.hh\<close> and \<open>tcp_connection.cc\<close>, and the summary of
  its state in \<open>tcp_helpers/tcp_state.hh\<close> and \<open>tcp_state.cc\<close>. The theory proves that a reset
  is final, that every segment but a reset carries the receiver's acknowledgment, that a connection
  to a silent peer is given up after the eighth timeout, and that two endpoints complete the
  three-way handshake.
\<close>

section \<open>The class\<close>

record TCPConnection =
  conn_cfg :: TCPConfig
  conn_receiver :: TCPReceiver
  conn_sender :: TCPSender
  conn_segments_out :: "TCPSegment list"
  conn_linger_after_streams_finish :: bool
  conn_is_rst :: bool
  conn_last_received_time :: size_t
  conn_send_fin_first :: size_t

definition TCPConnection_make :: "TCPConfig \<Rightarrow> 32 word \<Rightarrow> TCPConnection" where
  "TCPConnection_make cfg random_device = \<lparr>conn_cfg = cfg, conn_receiver = TCPReceiver_make (cfg_recv_capacity cfg),
     conn_sender = TCPSender_make (cfg_send_capacity cfg) (cfg_rt_timeout cfg) (cfg_fixed_isn cfg) random_device,
     conn_segments_out = [], conn_linger_after_streams_finish = True, conn_is_rst = False,
     conn_last_received_time = 0, conn_send_fin_first = 1\<rparr>"

definition TCPConnection_inbound_stream :: "TCPConnection \<Rightarrow> ByteStream" where
  "TCPConnection_inbound_stream c = TCPReceiver_stream_out (conn_receiver c)"

definition TCPConnection_remaining_outbound_capacity :: "TCPConnection \<Rightarrow> size_t" where
  "TCPConnection_remaining_outbound_capacity c = ByteStream_remaining_capacity (snd_stream (conn_sender c))"

definition TCPConnection_bytes_in_flight :: "TCPConnection \<Rightarrow> size_t" where
  "TCPConnection_bytes_in_flight c = snd_bytes_in_flight (conn_sender c)"

definition TCPConnection_unassembled_bytes :: "TCPConnection \<Rightarrow> size_t" where
  "TCPConnection_unassembled_bytes c = TCPReceiver_unassembled_bytes (conn_receiver c)"

definition TCPConnection_active :: "TCPConnection \<Rightarrow> bool" where
  "TCPConnection_active c \<longleftrightarrow>
    (if conn_is_rst c then False
     else if snd_is_fin_received (conn_sender c) \<and> ByteStream_eof (TCPConnection_inbound_stream c) \<and>
       \<not> conn_linger_after_streams_finish c then False
     else True)"

definition TCPConnection_set_rst :: "TCPConnection \<Rightarrow> TCPConnection" where
  "TCPConnection_set_rst c = c\<lparr>conn_is_rst := True,
     conn_sender := (conn_sender c)\<lparr>snd_stream := ByteStream_set_error (snd_stream (conn_sender c))\<rparr>,
     conn_receiver := TCPReceiver_set_stream_out (conn_receiver c) (ByteStream_set_error (TCPReceiver_stream_out (conn_receiver c)))\<rparr>"

definition TCPConnection_send_rst_to_peer :: "TCPConnection \<Rightarrow> TCPConnection" where
  "TCPConnection_send_rst_to_peer c =
    (let seg = TCPSegment_default\<lparr>ts_header := TCPHeader_default\<lparr>th_seqno := TCPSender_next_seqno (conn_sender c), th_rst := True\<rparr>\<rparr>
     in TCPConnection_set_rst (c\<lparr>conn_sender := (conn_sender c)\<lparr>snd_segments_out := []\<rparr>,
          conn_segments_out := conn_segments_out c @ [seg]\<rparr>))"

text \<open>One round of the loop of \<open>_send_ack_if_need\<close>: the acknowledgment goes on the segment.\<close>

definition TCPConnection_stamp :: "TCPReceiver \<Rightarrow> TCPSegment \<Rightarrow> TCPSegment" where
  "TCPConnection_stamp rcv seg =
    (let h = ts_header seg;
         h = (case TCPReceiver_ackno rcv of None \<Rightarrow> h | Some ackno \<Rightarrow> h\<lparr>th_ack := True, th_ackno := ackno\<rparr>)
     in seg\<lparr>ts_header := h\<lparr>th_win := of_nat (min 65535 (TCPReceiver_window_size rcv))\<rparr>\<rparr>)"

definition TCPConnection_send_ack_if_need :: "TCPConnection \<Rightarrow> TCPConnection" where
  "TCPConnection_send_ack_if_need c = c\<lparr>conn_sender := (conn_sender c)\<lparr>snd_segments_out := []\<rparr>,
     conn_segments_out := conn_segments_out c @ map (TCPConnection_stamp (conn_receiver c)) (snd_segments_out (conn_sender c))\<rparr>"

text \<open>
  The rest of \<open>segment_received\<close>, once sender and receiver have seen the segment.
\<close>

definition TCPConnection_respond :: "TCPConnection \<Rightarrow> TCPSegment \<Rightarrow> TCPConnection res" where
  "TCPConnection_respond c seg =
    (if TCPReceiver_ackno (conn_receiver c) \<noteq> None \<and> TCPSegment_length_in_sequence_space seg = 0 \<and>
       wrapping_sub (the (TCPReceiver_ackno (conn_receiver c))) 1 = th_seqno (ts_header seg)
     then Inr (TCPConnection_send_ack_if_need (c\<lparr>conn_sender := TCPSender_send_empty_segment (conn_sender c)\<rparr>))
     else rbind (if snd_is_syn_received (conn_sender c) \<or> th_syn (ts_header seg)
           then TCPSender_fill_window (conn_sender c) else Inr (conn_sender c)) (\<lambda>sender.
       let should_send_empty_ack =
             (if Buffer_size (ts_payload seg) \<noteq> 0 then True
              else if Buffer_size (ts_payload seg) = 0 \<and> 1 \<le> TCPSegment_length_in_sequence_space seg then True else False);
           sender = (if snd_segments_out sender = [] \<and> should_send_empty_ack then TCPSender_send_empty_segment sender else sender)
       in Inr (TCPConnection_send_ack_if_need (c\<lparr>conn_sender := sender\<rparr>))))"

definition TCPConnection_segment_received :: "TCPConnection \<Rightarrow> TCPSegment \<Rightarrow> TCPConnection res" where
  "TCPConnection_segment_received c seg =
    (let c = c\<lparr>conn_last_received_time := 0\<rparr>; h = ts_header seg in
      if th_rst h then Inr (TCPConnection_set_rst c)
      else if \<not> TCPConnection_active c then Inr c
      else if snd_is_fin_received (conn_sender c) \<and> ByteStream_eof (TCPConnection_inbound_stream c) \<and>
        conn_send_fin_first c \<noteq> 0 \<and> \<not> th_fin h then Inr c
      else
        let c = (if th_ack h then c\<lparr>conn_sender := TCPSender_ack_received (conn_sender c) (th_ackno h) (th_win h)\<rparr> else c) in
        rbind (TCPReceiver_segment_received (conn_receiver c) seg) (\<lambda>rcv.
          let c = c\<lparr>conn_receiver := rcv\<rparr>;
              c = (if rcv_fsn rcv \<noteq> None \<and> \<not> ByteStream_eof (snd_stream (conn_sender c)) then c\<lparr>conn_send_fin_first := 0\<rparr> else c);
              c = (if snd_is_syn_received (conn_sender c) \<and> ByteStream_eof (TCPConnection_inbound_stream c) \<and>
                conn_send_fin_first c = 0 then c\<lparr>conn_linger_after_streams_finish := False\<rparr> else c)
          in TCPConnection_respond c seg))"

definition TCPConnection_write :: "TCPConnection \<Rightarrow> bytes \<Rightarrow> (size_t \<times> TCPConnection) res" where
  "TCPConnection_write c data =
    (let (result, stream) = ByteStream_write (snd_stream (conn_sender c)) data in
      rbind (TCPSender_fill_window ((conn_sender c)\<lparr>snd_stream := stream\<rparr>)) (\<lambda>sender.
        Inr (result, TCPConnection_send_ack_if_need (c\<lparr>conn_sender := sender\<rparr>))))"

definition TCPConnection_tick :: "TCPConnection \<Rightarrow> size_t \<Rightarrow> TCPConnection" where
  "TCPConnection_tick c ms_since_last_tick =
    (if MAX_RETX_ATTEMPTS \<le> TCPSender_consecutive_retransmissions (conn_sender c) then TCPConnection_send_rst_to_peer c
     else
      let c = (if snd_is_syn_received (conn_sender c) \<and> ByteStream_eof (TCPConnection_inbound_stream c) \<and>
            conn_linger_after_streams_finish c \<and>
            10 * unat (cfg_rt_timeout (conn_cfg c)) \<le> add64 (conn_last_received_time c) ms_since_last_tick
          then c\<lparr>conn_linger_after_streams_finish := False\<rparr> else c);
          c = c\<lparr>conn_sender := TCPSender_tick (conn_sender c) ms_since_last_tick,
            conn_last_received_time := add64 (conn_last_received_time c) ms_since_last_tick\<rparr>
      in TCPConnection_send_ack_if_need c)"

definition TCPConnection_end_input_stream :: "TCPConnection \<Rightarrow> TCPConnection res" where
  "TCPConnection_end_input_stream c =
    rbind (TCPSender_fill_window ((conn_sender c)\<lparr>snd_stream := ByteStream_end_input (snd_stream (conn_sender c))\<rparr>)) (\<lambda>sender.
      Inr (TCPConnection_send_ack_if_need (c\<lparr>conn_sender := sender\<rparr>)))"

definition TCPConnection_connect :: "TCPConnection \<Rightarrow> TCPConnection res" where
  "TCPConnection_connect c =
    rbind (TCPSender_fill_window (conn_sender c)) (\<lambda>sender.
      Inr (TCPConnection_send_ack_if_need (c\<lparr>conn_sender := sender\<rparr>)))"

text \<open>The destructor; its warning on the error stream is left out.\<close>

definition TCPConnection_destroy :: "TCPConnection \<Rightarrow> TCPConnection" where
  "TCPConnection_destroy c = (if TCPConnection_active c then TCPConnection_send_rst_to_peer c else c)"

section \<open>State summaries\<close>

datatype TCPState_State =
  LISTEN | SYN_RCVD | SYN_SENT | ESTABLISHED | CLOSE_WAIT | LAST_ACK | FIN_WAIT_1 | FIN_WAIT_2 | CLOSING
  | TIME_WAIT | CLOSED | RESET

record TCPState =
  st_sender :: string
  st_receiver :: string
  st_active :: bool
  st_linger :: bool

definition TCPReceiverStateSummary_ERROR :: string where
  "TCPReceiverStateSummary_ERROR = ''error (connection was reset)''"

definition TCPReceiverStateSummary_LISTEN :: string where
  "TCPReceiverStateSummary_LISTEN = ''waiting for SYN: ackno is empty''"

definition TCPReceiverStateSummary_SYN_RECV :: string where
  "TCPReceiverStateSummary_SYN_RECV = ''SYN received (ackno exists), and input to stream hasn't ended''"

definition TCPReceiverStateSummary_FIN_RECV :: string where
  "TCPReceiverStateSummary_FIN_RECV = ''input to stream has ended''"

definition TCPSenderStateSummary_ERROR :: string where
  "TCPSenderStateSummary_ERROR = ''error (connection was reset)''"

definition TCPSenderStateSummary_CLOSED :: string where
  "TCPSenderStateSummary_CLOSED = ''waiting for stream to begin (no SYN sent)''"

definition TCPSenderStateSummary_SYN_SENT :: string where
  "TCPSenderStateSummary_SYN_SENT = ''stream started but nothing acknowledged''"

definition TCPSenderStateSummary_SYN_ACKED :: string where
  "TCPSenderStateSummary_SYN_ACKED = ''stream ongoing''"

definition TCPSenderStateSummary_FIN_SENT :: string where
  "TCPSenderStateSummary_FIN_SENT = ''stream finished (FIN sent) but not fully acknowledged''"

definition TCPSenderStateSummary_FIN_ACKED :: string where
  "TCPSenderStateSummary_FIN_ACKED = ''stream finished and fully acknowledged''"

fun TCPState_of_State :: "TCPState_State \<Rightarrow> TCPState" where
  "TCPState_of_State LISTEN = \<lparr>st_sender = TCPSenderStateSummary_CLOSED, st_receiver = TCPReceiverStateSummary_LISTEN,
     st_active = True, st_linger = True\<rparr>"
| "TCPState_of_State SYN_RCVD = \<lparr>st_sender = TCPSenderStateSummary_SYN_SENT, st_receiver = TCPReceiverStateSummary_SYN_RECV,
     st_active = True, st_linger = True\<rparr>"
| "TCPState_of_State SYN_SENT = \<lparr>st_sender = TCPSenderStateSummary_SYN_SENT, st_receiver = TCPReceiverStateSummary_LISTEN,
     st_active = True, st_linger = True\<rparr>"
| "TCPState_of_State ESTABLISHED = \<lparr>st_sender = TCPSenderStateSummary_SYN_ACKED, st_receiver = TCPReceiverStateSummary_SYN_RECV,
     st_active = True, st_linger = True\<rparr>"
| "TCPState_of_State CLOSE_WAIT = \<lparr>st_sender = TCPSenderStateSummary_SYN_ACKED, st_receiver = TCPReceiverStateSummary_FIN_RECV,
     st_active = True, st_linger = False\<rparr>"
| "TCPState_of_State LAST_ACK = \<lparr>st_sender = TCPSenderStateSummary_FIN_SENT, st_receiver = TCPReceiverStateSummary_FIN_RECV,
     st_active = True, st_linger = False\<rparr>"
| "TCPState_of_State CLOSING = \<lparr>st_sender = TCPSenderStateSummary_FIN_SENT, st_receiver = TCPReceiverStateSummary_FIN_RECV,
     st_active = True, st_linger = True\<rparr>"
| "TCPState_of_State FIN_WAIT_1 = \<lparr>st_sender = TCPSenderStateSummary_FIN_SENT, st_receiver = TCPReceiverStateSummary_SYN_RECV,
     st_active = True, st_linger = True\<rparr>"
| "TCPState_of_State FIN_WAIT_2 = \<lparr>st_sender = TCPSenderStateSummary_FIN_ACKED, st_receiver = TCPReceiverStateSummary_SYN_RECV,
     st_active = True, st_linger = True\<rparr>"
| "TCPState_of_State TIME_WAIT = \<lparr>st_sender = TCPSenderStateSummary_FIN_ACKED, st_receiver = TCPReceiverStateSummary_FIN_RECV,
     st_active = True, st_linger = True\<rparr>"
| "TCPState_of_State RESET = \<lparr>st_sender = TCPSenderStateSummary_ERROR, st_receiver = TCPReceiverStateSummary_ERROR,
     st_active = False, st_linger = False\<rparr>"
| "TCPState_of_State CLOSED = \<lparr>st_sender = TCPSenderStateSummary_FIN_ACKED, st_receiver = TCPReceiverStateSummary_FIN_RECV,
     st_active = False, st_linger = False\<rparr>"

definition TCPState_receiver_summary :: "TCPReceiver \<Rightarrow> string" where
  "TCPState_receiver_summary rcv =
    (if bs_error (TCPReceiver_stream_out rcv) then TCPReceiverStateSummary_ERROR
     else if TCPReceiver_ackno rcv = None then TCPReceiverStateSummary_LISTEN
     else if bs_input_end (TCPReceiver_stream_out rcv) then TCPReceiverStateSummary_FIN_RECV
     else TCPReceiverStateSummary_SYN_RECV)"

definition TCPState_sender_summary :: "TCPSender \<Rightarrow> string" where
  "TCPState_sender_summary s =
    (if bs_error (snd_stream s) then TCPSenderStateSummary_ERROR
     else if snd_next_seqno s = 0 then TCPSenderStateSummary_CLOSED
     else if snd_next_seqno s = snd_bytes_in_flight s then TCPSenderStateSummary_SYN_SENT
     else if \<not> ByteStream_eof (snd_stream s) then TCPSenderStateSummary_SYN_ACKED
     else if snd_next_seqno s < add64 (bs_bytes_written (snd_stream s)) 2 then TCPSenderStateSummary_SYN_ACKED
     else if snd_bytes_in_flight s \<noteq> 0 then TCPSenderStateSummary_FIN_SENT
     else TCPSenderStateSummary_FIN_ACKED)"

definition TCPState_make :: "TCPSender \<Rightarrow> TCPReceiver \<Rightarrow> bool \<Rightarrow> bool \<Rightarrow> TCPState" where
  "TCPState_make sender receiver active linger =
    \<lparr>st_sender = TCPState_sender_summary sender, st_receiver = TCPState_receiver_summary receiver,
     st_active = active, st_linger = (if active then linger else False)\<rparr>"

definition bool_to_string :: "bool \<Rightarrow> string" where
  "bool_to_string b = (if b then ''1'' else ''0'')"

definition TCPState_name :: "TCPState \<Rightarrow> string" where
  "TCPState_name st = ''sender=`'' @ st_sender st @ ''`, receiver=`'' @ st_receiver st @ ''`, active='' @
     bool_to_string (st_active st) @ '', linger_after_streams_finish='' @ bool_to_string (st_linger st)"

definition TCPState_eq :: "TCPState \<Rightarrow> TCPState \<Rightarrow> bool" where
  "TCPState_eq st other \<longleftrightarrow> st_active st = st_active other \<and> st_linger st = st_linger other \<and>
    st_sender st = st_sender other \<and> st_receiver st = st_receiver other"

definition TCPConnection_state :: "TCPConnection \<Rightarrow> TCPState" where
  "TCPConnection_state c = TCPState_make (conn_sender c) (conn_receiver c) (TCPConnection_active c)
     (conn_linger_after_streams_finish c)"

lemmas TCPState_summary_defs =
  TCPReceiverStateSummary_ERROR_def TCPReceiverStateSummary_LISTEN_def TCPReceiverStateSummary_SYN_RECV_def
  TCPReceiverStateSummary_FIN_RECV_def TCPSenderStateSummary_ERROR_def TCPSenderStateSummary_CLOSED_def
  TCPSenderStateSummary_SYN_SENT_def TCPSenderStateSummary_SYN_ACKED_def TCPSenderStateSummary_FIN_SENT_def
  TCPSenderStateSummary_FIN_ACKED_def

section \<open>Sequences of calls\<close>

datatype TCPConnection_op =
    SegmentReceived TCPSegment
  | ConnWrite bytes
  | ConnTick size_t
  | EndInputStream
  | Connect
  | TakeConnSegments
  | ReadInbound size_t

fun TCPConnection_step :: "TCPConnection \<Rightarrow> TCPConnection_op \<Rightarrow> TCPConnection res" where
  "TCPConnection_step c (SegmentReceived seg) = TCPConnection_segment_received c seg"
| "TCPConnection_step c (ConnWrite data) = rbind (TCPConnection_write c data) (\<lambda>(n, c'). Inr c')"
| "TCPConnection_step c (ConnTick ms) = Inr (TCPConnection_tick c ms)"
| "TCPConnection_step c EndInputStream = TCPConnection_end_input_stream c"
| "TCPConnection_step c Connect = TCPConnection_connect c"
| "TCPConnection_step c TakeConnSegments = Inr (c\<lparr>conn_segments_out := []\<rparr>)"
| "TCPConnection_step c (ReadInbound len) = rbind (ByteStream_read (TCPConnection_inbound_stream c) len) (\<lambda>(d, out).
    Inr (c\<lparr>conn_receiver := TCPReceiver_set_stream_out (conn_receiver c) out\<rparr>))"

section \<open>A reset is final\<close>

text \<open>Nothing clears the error flag of a stream.\<close>

lemma ByteStream_write_error: "bs_error (snd (ByteStream_write st data)) = bs_error st"
  by (simp add: ByteStream_write_def Let_def)

lemma ByteStream_read_error: "whenever (ByteStream_read st len) (\<lambda>(d, st'). bs_error st' = bs_error st)"
  by (auto simp: whenever_def ByteStream_read_def Let_def rbind_Inr_iff)

lemma StreamReassembler_push_error:
  "whenever (StreamReassembler_push_substring r data index eof) (\<lambda>r'. bs_error (sr_output r') = bs_error (sr_output r))"
proof -
  have flush: "whenever (StreamReassembler_flush r) (\<lambda>r'. bs_error (sr_output r') = bs_error (sr_output r))" for r
    by (auto simp: whenever_def StreamReassembler_flush_def rbind_Inr_iff ByteStream_write_error Let_def split: if_splits)
  have "whenever (StreamReassembler_flush (r\<lparr>sr_buffer_list := list\<rparr>)) (\<lambda>r'. bs_error (sr_output r') = bs_error (sr_output r))" for list
    using flush [of "r\<lparr>sr_buffer_list := list\<rparr>"] by simp
  then show ?thesis
    unfolding StreamReassembler_push_substring_def Let_def
    by (auto simp: whenever_def [of "StreamReassembler_clip _ _ _"] whenever_def [of "BufferStringList_push_back _ _ _ _"]
      whenever_def [of "substr _ _ _"] split: option.split)
qed

lemma TCPReceiver_segment_error:
  "whenever (TCPReceiver_segment_received rcv seg)
    (\<lambda>rcv'. bs_error (TCPReceiver_stream_out rcv') = bs_error (TCPReceiver_stream_out rcv))"
  by (auto simp: TCPReceiver_segment_received_eq push_back_wrap_string_def TCPReceiver_stream_out_def Let_def
    intro!: whenever_mono [OF StreamReassembler_push_error] split: option.split)

lemma TCPSender_fill_window_error:
  "whenever (TCPSender_fill_window s) (\<lambda>s'. bs_error (snd_stream s') = bs_error (snd_stream s))"
  unfolding TCPSender_fill_window_def Let_def whenever_simps
  by (intro whenever_if; simp?)
    (rule whenever_mono [OF ByteStream_read_error], auto intro!: whenever_mono [OF TCPSender_fill_loop_stream])

lemma TCPSender_ack_stream: "snd_stream (TCPSender_ack_received s ackno w) = snd_stream s"
proof -
  have loop: "snd_stream (snd (TCPSender_ack_loop ack s queue b)) = snd_stream s" for ack s queue b
    by (induction ack s queue b rule: TCPSender_ack_loop.induct) (simp_all add: Let_def)
  show ?thesis
    by (simp add: TCPSender_ack_received_def TCPSender_restart_timer_def loop Let_def split_beta split: list.split)
qed

lemma TCPSender_tick_stream: "snd_stream (TCPSender_tick s ms) = snd_stream s"
  by (simp add: TCPSender_tick_def Let_def split: list.split)

definition TCPConnection_dead :: "TCPConnection \<Rightarrow> bool" where
  "TCPConnection_dead c \<longleftrightarrow> conn_is_rst c \<and> bs_error (snd_stream (conn_sender c)) \<and>
    bs_error (TCPConnection_inbound_stream c)"

lemma TCPConnection_dead_state:
  "TCPConnection_dead c \<Longrightarrow> \<not> TCPConnection_active c \<and> TCPConnection_state c = TCPState_of_State RESET"
  by (simp add: TCPConnection_dead_def TCPConnection_active_def TCPConnection_state_def TCPState_make_def
    TCPState_sender_summary_def TCPState_receiver_summary_def TCPConnection_inbound_stream_def)

lemma TCPConnection_set_rst_dead: "TCPConnection_dead (TCPConnection_set_rst c)"
  by (simp add: TCPConnection_dead_def TCPConnection_set_rst_def TCPConnection_inbound_stream_def
    TCPReceiver_stream_out_def TCPReceiver_set_stream_out_def)

lemma TCPConnection_ack_dead [simp]:
  "TCPConnection_dead (TCPConnection_send_ack_if_need c) = TCPConnection_dead c"
  by (simp add: TCPConnection_dead_def TCPConnection_send_ack_if_need_def TCPConnection_inbound_stream_def)

lemma TCPConnection_rst_dead [simp]: "TCPConnection_dead (TCPConnection_send_rst_to_peer c)"
  by (simp add: TCPConnection_send_rst_to_peer_def TCPConnection_set_rst_dead)

lemma TCPConnection_sender_dead:
  "TCPConnection_dead c \<Longrightarrow> bs_error (snd_stream s) \<Longrightarrow> TCPConnection_dead (c\<lparr>conn_sender := s\<rparr>)"
  by (simp add: TCPConnection_dead_def TCPConnection_inbound_stream_def)

lemma TCPConnection_fill_dead:
  assumes "TCPConnection_dead c" "bs_error (snd_stream s)"
  shows "whenever (rbind (TCPSender_fill_window s) (\<lambda>s. Inr (TCPConnection_send_ack_if_need (c\<lparr>conn_sender := s\<rparr>)))) TCPConnection_dead"
  using assms by (auto intro!: whenever_mono [OF TCPSender_fill_window_error] TCPConnection_sender_dead)

lemma TCPConnection_step_dead:
  assumes dead: "TCPConnection_dead c"
  shows "whenever (TCPConnection_step c op) TCPConnection_dead"
proof (cases op)
  case (SegmentReceived seg)
  have "TCPConnection_dead (c\<lparr>conn_last_received_time := 0\<rparr>)" "\<not> TCPConnection_active (c\<lparr>conn_last_received_time := 0\<rparr>)"
    using dead by (simp_all add: TCPConnection_dead_def TCPConnection_inbound_stream_def TCPConnection_active_def)
  then show ?thesis
    using SegmentReceived by (simp add: TCPConnection_segment_received_def TCPConnection_set_rst_dead Let_def)
next
  case (ConnWrite data)
  have "bs_error (snd (ByteStream_write (snd_stream (conn_sender c)) data))"
    using dead by (simp add: TCPConnection_dead_def ByteStream_write_error)
  then show ?thesis
    using ConnWrite dead
    by (auto simp: TCPConnection_write_def split_beta intro!: whenever_mono [OF TCPSender_fill_window_error] TCPConnection_sender_dead)
next
  case (ConnTick ms)
  have "TCPConnection_dead (c\<lparr>conn_sender := TCPSender_tick (conn_sender c) ms, conn_last_received_time := t\<rparr>)"
    "TCPConnection_dead (c\<lparr>conn_linger_after_streams_finish := l, conn_sender := TCPSender_tick (conn_sender c) ms,
      conn_last_received_time := t\<rparr>)" for l t
    using dead by (simp_all add: TCPConnection_dead_def TCPConnection_inbound_stream_def TCPSender_tick_stream)
  then show ?thesis
    using ConnTick by (simp add: TCPConnection_tick_def Let_def)
next
  case EndInputStream
  then show ?thesis
    unfolding TCPConnection_step.simps EndInputStream TCPConnection_end_input_stream_def
    by (intro TCPConnection_fill_dead dead) (use dead in \<open>simp add: TCPConnection_dead_def\<close>)
next
  case Connect
  then show ?thesis
    unfolding TCPConnection_step.simps Connect TCPConnection_connect_def
    by (intro TCPConnection_fill_dead dead) (use dead in \<open>simp add: TCPConnection_dead_def\<close>)
next
  case TakeConnSegments
  then show ?thesis
    using dead by (simp add: TCPConnection_dead_def TCPConnection_inbound_stream_def)
next
  case (ReadInbound len)
  then show ?thesis
    using dead by (auto simp: TCPConnection_dead_def TCPConnection_inbound_stream_def TCPReceiver_stream_out_def
      TCPReceiver_set_stream_out_def intro!: whenever_mono [OF ByteStream_read_error])
qed

interpretation conn_dead: stable_component TCPConnection_step TCPConnection_dead
  by unfold_locales (rule TCPConnection_step_dead)

section \<open>A silent peer\<close>

definition syn_segment :: "WrappingInt32 \<Rightarrow> TCPSegment" where
  "syn_segment isn = \<lparr>ts_header = TCPHeader_default\<lparr>th_syn := True, th_seqno := isn\<rparr>, ts_payload = Buffer_of []\<rparr>"

text \<open>What opening a connection does to a fresh sender.\<close>

lemma TCPSender_open:
  assumes "capacity < W64" "s = TCPSender_make capacity rt fixed_isn rnd"
  shows "TCPSender_fill_window s = Inr (s\<lparr>snd_next_seqno := 1, snd_bytes_in_flight := 1,
    snd_segments_out := [syn_segment (snd_isn s)],
    snd_seg_queue := [\<lparr>ss_seg = syn_segment (snd_isn s), ss_rto = unat rt, ss_time = 0\<rparr>]\<rparr>)"
proof -
  have s: "snd_stream s = ByteStream_make capacity" "snd_seg_queue s = []" "\<not> snd_is_syn_received s"
    "\<not> snd_is_fin_received s" "snd_segments_out s = []" "snd_next_seqno s = 0" "snd_bytes_in_flight s = 0"
    "TCPSender_remaining_size s = 1" "snd_initial_retransmission_timeout s = unat rt" "snd_last_tick_time s = 0"
    by (simp_all add: assms(2) TCPSender_make_def TCPSender_remaining_size_def)
  have read: "ByteStream_read (ByteStream_make capacity) 0 = Inr ([], ByteStream_make capacity)"
    "ByteStream_buffer_size (ByteStream_make capacity) = 0" "\<not> ByteStream_eof (ByteStream_make capacity)"
    using assms(1) by (simp_all add: sponge_eval)
  have seg: "\<lparr>ts_header = TCPHeader_default\<lparr>th_syn := True, th_seqno := snd_isn s\<rparr>, ts_payload = Buffer_of []\<rparr> = syn_segment (snd_isn s)"
    by (simp add: syn_segment_def)
  have len: "TCPSegment_length_in_sequence_space (syn_segment isn) = 1" for isn
    by (simp add: TCPSegment_length_in_sequence_space_def syn_segment_def TCPHeader_default_def u64_simps)
  have same: "s\<lparr>snd_stream := ByteStream_make capacity\<rparr> = s"
    by (simp add: assms(2) TCPSender_make_def)
  have fin: "\<not> th_fin TCPHeader_default"
    by (simp add: TCPHeader_default_def)
  show ?thesis
    using fin by (simp add: TCPSender_fill_window_def s read same TCPSender_fill_loop.simps [of False "[]"] substr_def mul64_def
      TCPSender_send_piece_def seg len u64_simps Let_def)
qed

lemma TCPSender_tick_drain:
  "(TCPSender_tick (s\<lparr>snd_segments_out := []\<rparr>) ms)\<lparr>snd_segments_out := []\<rparr> = (TCPSender_tick s ms)\<lparr>snd_segments_out := []\<rparr>"
  by (simp add: TCPSender_tick_def Let_def split: list.split)

text \<open>The endpoint that has sent its SYN, \<open>T\<close> milliseconds and \<open>n\<close> timeouts later.\<close>

definition TCPConnection_waits :: "TCPSender \<Rightarrow> nat \<Rightarrow> nat \<Rightarrow> nat \<Rightarrow> TCPConnection \<Rightarrow> bool" where
  "TCPConnection_waits s R T n c \<longleftrightarrow> R * (2 ^ n - 1) \<le> T \<and> T < R * (2 ^ Suc n - 1) \<and> \<not> conn_is_rst c \<and>
    conn_sender c = (TCPSender_waiting s (hd (snd_seg_queue s)) [] R T n)\<lparr>snd_segments_out := []\<rparr>"

lemma backoff_count:
  fixes R n T k :: nat
  assumes "0 < R" "R * (2 ^ n - 1) \<le> T" "T < R * (2 ^ Suc n - 1)"
  shows "T < R * (2 ^ k - 1) \<Longrightarrow> n < k" "T = R * (2 ^ k - 1) \<Longrightarrow> n = k"
proof -
  have mono: "R * (2 ^ i - 1) \<le> R * (2 ^ j - 1)" if "i \<le> j" for i j :: nat
    using that by (intro mult_le_mono2 diff_le_mono) simp
  show "n < k" if "T < R * (2 ^ k - 1)"
    using mono [of k n] assms(2) that by linarith
  show "n = k" if "T = R * (2 ^ k - 1)"
  proof (rule antisym)
    show "k \<le> n"
      using mono [of "Suc n" k] assms(3) that by linarith
    have "R * (2 ^ n - 1) \<le> R * (2 ^ k - 1)"
      using assms(2) that by simp
    then have "(2 :: nat) ^ n \<le> 2 ^ k"
      using assms(1) by (simp add: le_diff_iff)
    then show "n \<le> k"
      by simp
  qed
qed

lemma TCPConnection_waits_tick:
  assumes "TCPConnection_waits s R T n c" "T < R * 255" "0 < R" "R \<le> 65535"
    and s: "\<not> snd_is_window_zero s" "snd_last_tick_time s = 0" "snd_consecutive_retrans s = 0" "\<not> snd_is_syn_received s"
      "ss_time (hd (snd_seg_queue s)) = 0"
  shows "\<exists>n'. TCPConnection_waits s R (Suc T) n' (TCPConnection_tick c 1)"
proof -
  let ?w = "TCPSender_waiting s (hd (snd_seg_queue s)) [] R"
  have w: "R * (2 ^ n - 1) \<le> T" "T < R * (2 ^ Suc n - 1)" "\<not> conn_is_rst c"
    "conn_sender c = (?w T n)\<lparr>snd_segments_out := []\<rparr>"
    using assms(1) by (simp_all add: TCPConnection_waits_def)
  have n: "n < 8"
    by (rule backoff_count(1) [OF assms(3) w(1,2)]) (use assms(2) in simp)
  have small: "snd_last_tick_time s + 2 * T + 2 + 2 * R < W64" "snd_consecutive_retrans s + n + 1 < W64"
    "ss_time (hd (snd_seg_queue s)) = snd_last_tick_time s"
    using s assms(2,4) n W64_gt(1) by linarith+
  obtain n' where n': "TCPSender_tick (?w T n) 1 = ?w (Suc T) n'" "R * (2 ^ n' - 1) \<le> Suc T" "Suc T < R * (2 ^ Suc n' - 1)"
    by (rule TCPSender_waiting_tick [OF s(1) small(3) assms(3) w(1,2) small(1,2), of "[]"])
  have sender: "(TCPSender_tick (conn_sender c) 1)\<lparr>snd_segments_out := []\<rparr> = (?w (Suc T) n')\<lparr>snd_segments_out := []\<rparr>"
    unfolding w(4) TCPSender_tick_drain n'(1) ..
  have "TCPSender_consecutive_retransmissions (conn_sender c) = n" "\<not> snd_is_syn_received (conn_sender c)"
    using n s by (simp_all add: w(4) TCPSender_waiting_def TCPSender_consecutive_retransmissions_def)
  then have "conn_sender (TCPConnection_tick c 1) = (?w (Suc T) n')\<lparr>snd_segments_out := []\<rparr>" "\<not> conn_is_rst (TCPConnection_tick c 1)"
    using n w(3) sender by (simp_all add: TCPConnection_tick_def TCPConnection_send_ack_if_need_def MAX_RETX_ATTEMPTS_def Let_def)
  then show ?thesis
    using n'(2,3) by (auto simp: TCPConnection_waits_def)
qed

abbreviation TCPConnection_ticks :: "nat \<Rightarrow> TCPConnection \<Rightarrow> TCPConnection" where
  "TCPConnection_ticks T \<equiv> (\<lambda>c. TCPConnection_tick c 1) ^^ T"

lemma TCPConnection_waits_ticks:
  assumes "TCPConnection_waits s R 0 0 c" "T \<le> R * 255" "0 < R" "R \<le> 65535"
    and "\<not> snd_is_window_zero s" "snd_last_tick_time s = 0" "snd_consecutive_retrans s = 0" "\<not> snd_is_syn_received s"
      "ss_time (hd (snd_seg_queue s)) = 0"
  shows "\<exists>n. TCPConnection_waits s R T n (TCPConnection_ticks T c)"
  using assms(2)
proof (induction T)
  case 0
  then show ?case
    using assms(1) by auto
next
  case (Suc T)
  then obtain n where "TCPConnection_waits s R T n (TCPConnection_ticks T c)"
    by auto
  from TCPConnection_waits_tick [OF this _ assms(3-9)] show ?case
    using Suc.prems by simp
qed

lemma TCPConnection_waits_active:
  assumes "TCPConnection_waits s R T n c" "\<not> snd_is_fin_received s"
  shows "TCPConnection_active c"
  using assms by (simp add: TCPConnection_waits_def TCPConnection_active_def TCPSender_waiting_def)

lemma TCPConnection_waits_out:
  assumes "TCPConnection_waits s R (R * 255) n c" "0 < R" "snd_consecutive_retrans s = 0"
  shows "TCPConnection_dead (TCPConnection_tick c 1)"
proof -
  have "R * 255 = R * (2 ^ 8 - 1)"
    by simp
  then have "n = 8"
    using backoff_count(2) [OF assms(2)] assms(1) unfolding TCPConnection_waits_def by blast
  then have "TCPSender_consecutive_retransmissions (conn_sender c) = 8"
    using assms(1,3) by (simp add: TCPConnection_waits_def TCPSender_waiting_def TCPSender_consecutive_retransmissions_def)
  then show ?thesis
    by (simp add: TCPConnection_tick_def MAX_RETX_ATTEMPTS_def)
qed

lemma TCPConnection_dead_ticks: "TCPConnection_dead c \<Longrightarrow> TCPConnection_dead (TCPConnection_ticks T c)"
  using TCPConnection_step_dead [of _ "ConnTick 1"] by (induction T) auto

lemma TCPConnection_connect_waits:
  assumes "cfg_send_capacity cfg < W64" "0 < cfg_rt_timeout cfg"
  obtains c s where "TCPConnection_connect (TCPConnection_make cfg rnd) = Inr c"
    "TCPConnection_waits s (unat (cfg_rt_timeout cfg)) 0 0 c"
    "\<not> snd_is_window_zero s" "snd_last_tick_time s = 0" "snd_consecutive_retrans s = 0" "\<not> snd_is_syn_received s"
    "ss_time (hd (snd_seg_queue s)) = 0" "\<not> snd_is_fin_received s"
proof -
  let ?s = "TCPSender_make (cfg_send_capacity cfg) (cfg_rt_timeout cfg) (cfg_fixed_isn cfg) rnd"
  let ?s1 = "?s\<lparr>snd_next_seqno := 1, snd_bytes_in_flight := 1, snd_segments_out := [syn_segment (snd_isn ?s)],
    snd_seg_queue := [\<lparr>ss_seg = syn_segment (snd_isn ?s), ss_rto = unat (cfg_rt_timeout cfg), ss_time = 0\<rparr>]\<rparr>"
  have fill: "TCPSender_fill_window ?s = Inr ?s1"
    by (rule TCPSender_open [OF assms(1) refl])
  define c where "c = TCPConnection_send_ack_if_need ((TCPConnection_make cfg rnd)\<lparr>conn_sender := ?s1\<rparr>)"
  have c: "TCPConnection_connect (TCPConnection_make cfg rnd) = Inr c"
    using fill by (simp add: TCPConnection_connect_def c_def) (simp add: TCPConnection_make_def)
  have "conn_sender c = ?s1\<lparr>snd_segments_out := []\<rparr>" "\<not> conn_is_rst c"
    by (simp_all add: c_def TCPConnection_send_ack_if_need_def TCPConnection_make_def)
  moreover have "0 < unat (cfg_rt_timeout cfg)"
    using assms(2) by (simp add: word_less_nat_alt)
  ultimately have "TCPConnection_waits (?s1\<lparr>snd_segments_out := []\<rparr>) (unat (cfg_rt_timeout cfg)) 0 0 c"
    by (simp add: TCPConnection_waits_def TCPSender_waiting_def)
  with c show thesis
    by (rule that) (simp_all add: TCPSender_make_def)
qed

section \<open>The handshake\<close>

text \<open>The receiver on the peer's SYN, and on an empty segment behind it.\<close>

definition TCPReceiver_opened :: "size_t \<Rightarrow> WrappingInt32 \<Rightarrow> TCPReceiver" where
  "TCPReceiver_opened capacity isn = (TCPReceiver_make capacity)\<lparr>rcv_isn := Some isn,
     rcv_reassembler := (StreamReassembler_make capacity)\<lparr>sr_top_pointer := 1\<rparr>\<rparr>"

lemma TCPReceiver_open:
  assumes "capacity < W64" "th_syn (ts_header seg)" "\<not> th_fin (ts_header seg)" "Buffer_str (ts_payload seg) = []"
  shows "TCPReceiver_segment_received (TCPReceiver_make capacity) seg = Inr (TCPReceiver_opened capacity (th_seqno (ts_header seg)))"
proof -
  let ?isn = "th_seqno (ts_header seg)"
  have index: "unat (unwrap ?isn ?isn 0) = 0"
    using unwrap_index [of 0 0 ?isn] by simp
  have "StreamReassembler_push_substring (StreamReassembler_make capacity) [] 0 False = Inr (StreamReassembler_make capacity)"
    using StreamReassembler_push_empty [OF assms(1), of False] by (simp add: StreamReassembler_make_def)
  then have "push_back_wrap_string seg ?isn [] (StreamReassembler_make capacity) False =
      Inr ((StreamReassembler_make capacity)\<lparr>sr_top_pointer := 1\<rparr>)"
    using index assms(2) by (simp add: push_back_wrap_string_def StreamReassembler_make_def add64_small)
  then show ?thesis
    using assms(2-4) by (simp add: TCPReceiver_segment_received_eq TCPReceiver_make_def TCPReceiver_opened_def Let_def)
qed

lemma TCPReceiver_open_ack:
  assumes "capacity < W64" "\<not> th_syn (ts_header seg)" "\<not> th_fin (ts_header seg)" "Buffer_str (ts_payload seg) = []"
    and "th_seqno (ts_header seg) = wrap 1 isn"
  shows "TCPReceiver_segment_received (TCPReceiver_opened capacity isn) seg = Inr (TCPReceiver_opened capacity isn)"
proof -
  let ?r = "(StreamReassembler_make capacity)\<lparr>sr_top_pointer := 1\<rparr>"
  have index: "unat (unwrap (wrap 1 isn) isn 1) = 1"
    using unwrap_index [of 1 1 isn] by simp
  have "StreamReassembler_push_substring ?r [] 1 False = Inr ?r"
    using assms(1)
    by (simp add: StreamReassembler_push_substring_def StreamReassembler_clip_def StreamReassembler_current_capacity_def
      ByteStream_buffer_size_def StreamReassembler_make_def ByteStream_make_def u64_simps
      BufferStringList_push_back_def partition_point_def bisect_0 StreamReassembler_flush_def
      BufferString_make_def ByteStream_remaining_capacity_def BufferStringList_pop_up_buffer_string_def
      BufferString_size_def BufferString_get_string_def ByteStream_write_def)
  then have "push_back_wrap_string seg isn [] ?r False = Inr ?r"
    using index assms(2,5) by (simp add: push_back_wrap_string_def)
  then show ?thesis
    using assms(2-4) by (simp add: TCPReceiver_segment_received_eq TCPReceiver_opened_def TCPReceiver_make_def Let_def)
qed

lemma TCPReceiver_opened_simps [simp]:
  "TCPReceiver_ackno (TCPReceiver_opened capacity isn) = Some (wrap 1 isn)"
  "rcv_fsn (TCPReceiver_opened capacity isn) = None"
  "TCPReceiver_stream_out (TCPReceiver_opened capacity isn) = ByteStream_make capacity"
  using wrapping_add_wrap [of 0 isn 1]
  by (simp_all add: TCPReceiver_opened_def TCPReceiver_ackno_def TCPReceiver_make_def StreamReassembler_make_def
    ByteStream_make_fields TCPReceiver_stream_out_def)

text \<open>The sender when its SYN is acknowledged, and when it has nothing to send.\<close>

definition TCPSender_syn_sent :: "TCPSender \<Rightarrow> TCPSender" where
  "TCPSender_syn_sent s = s\<lparr>snd_next_seqno := 1, snd_bytes_in_flight := 1,
     snd_seg_queue := [\<lparr>ss_seg = syn_segment (snd_isn s), ss_rto = snd_initial_retransmission_timeout s, ss_time = 0\<rparr>]\<rparr>"

definition TCPSender_established :: "TCPSender \<Rightarrow> 16 word \<Rightarrow> TCPSender" where
  "TCPSender_established s w = s\<lparr>snd_next_seqno := 1, snd_is_syn_received := True,
     snd_window_size := (if w = 0 then 1 else unat w), snd_is_window_zero := (w = 0)\<rparr>"

lemma TCPSender_syn_acked:
  assumes "s = TCPSender_make capacity rt fixed_isn rnd"
  shows "TCPSender_ack_received (TCPSender_syn_sent s) (wrap 1 (snd_isn s)) w = TCPSender_established s w"
proof -
  have index: "unat (unwrap (wrap 1 isn) isn 1) = 1" "unat (unwrap isn isn 1) = 0" for isn
    using unwrap_index [of 1 1 isn] unwrap_index [of 0 1 isn] by simp_all
  have len: "TCPSegment_length_in_sequence_space (syn_segment isn) = 1" "th_seqno (ts_header (syn_segment isn)) = isn"
    "th_syn (ts_header (syn_segment isn))" "\<not> th_fin (ts_header (syn_segment isn))" for isn
    by (simp_all add: TCPSegment_length_in_sequence_space_def syn_segment_def TCPHeader_default_def u64_simps)
  show ?thesis
    using len index
    by (simp add: TCPSender_ack_received_def TCPSender_syn_sent_def TCPSender_established_def TCPSender_restart_timer_def
      u64_simps assms TCPSender_make_def Let_def)
qed

lemma TCPSender_nothing_to_send:
  assumes "capacity < W64" "s = TCPSender_established (TCPSender_make capacity rt fixed_isn rnd) w"
  shows "TCPSender_fill_window s = Inr s"
proof -
  have "ByteStream_read (ByteStream_make capacity) 0 = Inr ([], ByteStream_make capacity)"
    "ByteStream_buffer_size (ByteStream_make capacity) = 0" "\<not> ByteStream_eof (ByteStream_make capacity)"
    using assms(1) by (simp_all add: sponge_eval)
  then show ?thesis
    by (simp add: assms(2) TCPSender_fill_window_def TCPSender_established_def TCPSender_make_def TCPHeader_default_def Let_def)
qed

text \<open>A fresh endpoint and its sender.\<close>

abbreviation TCPConnection_sender0 :: "TCPConfig \<Rightarrow> 32 word \<Rightarrow> TCPSender" where
  "TCPConnection_sender0 cfg rnd \<equiv> TCPSender_make (cfg_send_capacity cfg) (cfg_rt_timeout cfg) (cfg_fixed_isn cfg) rnd"

abbreviation TCPConnection_isn :: "TCPConfig \<Rightarrow> 32 word \<Rightarrow> WrappingInt32" where
  "TCPConnection_isn cfg rnd \<equiv> snd_isn (TCPConnection_sender0 cfg rnd)"

lemma TCPSender_open_syn_sent:
  assumes "capacity < W64" "s = TCPSender_make capacity rt fixed_isn rnd"
  shows "TCPSender_fill_window s = Inr ((TCPSender_syn_sent s)\<lparr>snd_segments_out := [syn_segment (snd_isn s)]\<rparr>)"
    "(TCPSender_syn_sent s)\<lparr>snd_segments_out := []\<rparr> = TCPSender_syn_sent s"
  unfolding TCPSender_open [OF assms] by (simp_all add: TCPSender_syn_sent_def assms(2) TCPSender_make_def)

lemma TCPConnection_handshake_connect:
  assumes "cfg_send_capacity cfg < W64"
  shows "TCPConnection_connect (TCPConnection_make cfg rnd) =
    Inr ((TCPConnection_make cfg rnd)\<lparr>conn_sender := TCPSender_syn_sent (TCPConnection_sender0 cfg rnd),
      conn_segments_out := [TCPConnection_stamp (TCPReceiver_make (cfg_recv_capacity cfg)) (syn_segment (TCPConnection_isn cfg rnd))]\<rparr>)"
  using TCPSender_open_syn_sent [OF assms refl, of "cfg_rt_timeout cfg" "cfg_fixed_isn cfg" rnd]
  by (simp add: TCPConnection_connect_def TCPConnection_make_def TCPConnection_send_ack_if_need_def)

lemma TCPConnection_handshake_listen:
  assumes "cfg_send_capacity cfg < W64" "cfg_recv_capacity cfg < W64"
    and seg: "th_syn (ts_header seg)" "\<not> th_fin (ts_header seg)" "\<not> th_rst (ts_header seg)" "\<not> th_ack (ts_header seg)"
      "Buffer_str (ts_payload seg) = []"
    and rcv: "rcv = TCPReceiver_opened (cfg_recv_capacity cfg) (th_seqno (ts_header seg))"
  shows "TCPConnection_segment_received (TCPConnection_make cfg rnd) seg =
    Inr ((TCPConnection_make cfg rnd)\<lparr>conn_receiver := rcv, conn_sender := TCPSender_syn_sent (TCPConnection_sender0 cfg rnd),
      conn_segments_out := [TCPConnection_stamp rcv (syn_segment (TCPConnection_isn cfg rnd))]\<rparr>)"
proof -
  let ?c = "TCPConnection_make cfg rnd" and ?s = "TCPConnection_sender0 cfg rnd"
  have c: "?c\<lparr>conn_last_received_time := 0\<rparr> = ?c" "TCPConnection_active ?c" "\<not> snd_is_fin_received (conn_sender ?c)"
    "conn_receiver ?c = TCPReceiver_make (cfg_recv_capacity cfg)" "conn_sender ?c = ?s" "\<not> snd_is_syn_received ?s"
    by (simp_all add: TCPConnection_make_def TCPConnection_active_def TCPSender_make_def)
  have len: "TCPSegment_length_in_sequence_space seg = 1"
    using seg by (simp add: TCPSegment_length_in_sequence_space_def add64_small)
  have "TCPConnection_segment_received ?c seg = TCPConnection_respond (?c\<lparr>conn_receiver := rcv\<rparr>) seg"
    using c seg(1-4) TCPReceiver_open [OF assms(2) seg(1,2,5)] rcv
    by (simp add: TCPConnection_segment_received_def Let_def)
  also have "\<dots> = Inr (?c\<lparr>conn_receiver := rcv, conn_sender := TCPSender_syn_sent ?s,
      conn_segments_out := [TCPConnection_stamp rcv (syn_segment (snd_isn ?s))]\<rparr>)"
    using len seg(1) TCPSender_open_syn_sent [OF assms(1) refl, of "cfg_rt_timeout cfg" "cfg_fixed_isn cfg" rnd]
    by (simp add: TCPConnection_respond_def c(5) TCPConnection_send_ack_if_need_def Let_def) (simp add: TCPConnection_make_def)
  finally show ?thesis .
qed

lemma TCPConnection_handshake_syn_ack:
  assumes "cfg_send_capacity cfg < W64" "cfg_recv_capacity cfg < W64"
    and seg: "th_syn (ts_header seg)" "\<not> th_fin (ts_header seg)" "\<not> th_rst (ts_header seg)" "th_ack (ts_header seg)"
      "th_ackno (ts_header seg) = wrap 1 (TCPConnection_isn cfg rnd)" "Buffer_str (ts_payload seg) = []"
    and rcv: "rcv = TCPReceiver_opened (cfg_recv_capacity cfg) (th_seqno (ts_header seg))"
    and c: "c = (TCPConnection_make cfg rnd)\<lparr>conn_sender := TCPSender_syn_sent (TCPConnection_sender0 cfg rnd), conn_segments_out := out\<rparr>"
  shows "TCPConnection_segment_received c seg =
    Inr (c\<lparr>conn_receiver := rcv, conn_sender := TCPSender_established (TCPConnection_sender0 cfg rnd) (th_win (ts_header seg)),
      conn_segments_out := out @ [TCPConnection_stamp rcv (TCPSegment_default\<lparr>ts_header :=
        TCPHeader_default\<lparr>th_seqno := wrap 1 (TCPConnection_isn cfg rnd)\<rparr>\<rparr>)]\<rparr>)"
proof -
  let ?s = "TCPConnection_sender0 cfg rnd" and ?w = "th_win (ts_header seg)"
  let ?e = "TCPSender_established ?s ?w"
  have c': "c\<lparr>conn_last_received_time := 0\<rparr> = c" "TCPConnection_active c" "\<not> snd_is_fin_received (conn_sender c)"
    "conn_receiver c = TCPReceiver_make (cfg_recv_capacity cfg)" "conn_sender c = TCPSender_syn_sent ?s" "conn_segments_out c = out"
    by (simp_all add: c TCPConnection_make_def TCPConnection_active_def TCPSender_make_def TCPSender_syn_sent_def)
  have e: "snd_segments_out ?e = []" "snd_is_syn_received ?e" "snd_stream ?e = ByteStream_make (cfg_send_capacity cfg)"
    "TCPSender_next_seqno ?e = wrap 1 (snd_isn ?s)" "?e\<lparr>snd_segments_out := []\<rparr> = ?e"
    "snd_is_syn_received (?e\<lparr>snd_segments_out := []\<rparr>)"
    by (simp_all add: TCPSender_established_def TCPSender_make_def TCPSender_next_seqno_def)
  have len: "TCPSegment_length_in_sequence_space seg = 1" "Buffer_size (ts_payload seg) = 0"
    using seg by (simp_all add: TCPSegment_length_in_sequence_space_def add64_small Buffer_size_def)
  have eof: "\<not> ByteStream_eof (ByteStream_make capacity)" for capacity
    by (simp add: ByteStream_eof_def ByteStream_make_def)
  have "TCPConnection_segment_received c seg = TCPConnection_respond (c\<lparr>conn_sender := ?e, conn_receiver := rcv\<rparr>) seg"
    using c' seg(1-5) TCPReceiver_open [OF assms(2) seg(1,2,6)] rcv TCPSender_syn_acked [of ?s] eof
    by (simp add: TCPConnection_segment_received_def TCPConnection_inbound_stream_def Let_def)
  also have "\<dots> = Inr (c\<lparr>conn_receiver := rcv, conn_sender := ?e,
      conn_segments_out := out @ [TCPConnection_stamp rcv (TCPSegment_default\<lparr>ts_header :=
        TCPHeader_default\<lparr>th_seqno := wrap 1 (snd_isn ?s)\<rparr>\<rparr>)]\<rparr>)"
    using len seg(1) TCPSender_nothing_to_send [OF assms(1) refl] e c'(6)
    by (simp add: TCPConnection_respond_def TCPConnection_send_ack_if_need_def TCPSender_send_empty_segment_def Let_def)
  finally show ?thesis .
qed

lemma wrap_1_neq: "wrapping_sub (wrap 1 isn) 1 \<noteq> wrap 1 isn"
  by (simp add: wrapping_sub_def wrapping_add_def WrappingInt32.expand) (metis WrappingInt32.sel add_cancel_right_right
    add_diff_cancel_right' diff_add_cancel uminus_add_conv_diff zero_neq_one)

lemma TCPConnection_handshake_ack:
  assumes "cfg_send_capacity cfg < W64" "cfg_recv_capacity cfg < W64"
    and seg: "\<not> th_syn (ts_header seg)" "\<not> th_fin (ts_header seg)" "\<not> th_rst (ts_header seg)" "th_ack (ts_header seg)"
      "th_ackno (ts_header seg) = wrap 1 (TCPConnection_isn cfg rnd)" "Buffer_str (ts_payload seg) = []"
      "th_seqno (ts_header seg) = wrap 1 peer"
    and c: "c = (TCPConnection_make cfg rnd)\<lparr>conn_receiver := TCPReceiver_opened (cfg_recv_capacity cfg) peer,
      conn_sender := TCPSender_syn_sent (TCPConnection_sender0 cfg rnd), conn_segments_out := out\<rparr>"
  shows "TCPConnection_segment_received c seg =
    Inr (c\<lparr>conn_sender := TCPSender_established (TCPConnection_sender0 cfg rnd) (th_win (ts_header seg))\<rparr>)"
proof -
  let ?s = "TCPConnection_sender0 cfg rnd" and ?w = "th_win (ts_header seg)"
  let ?e = "TCPSender_established ?s ?w" and ?rcv = "TCPReceiver_opened (cfg_recv_capacity cfg) peer"
  have c': "c\<lparr>conn_last_received_time := 0\<rparr> = c" "TCPConnection_active c" "\<not> snd_is_fin_received (conn_sender c)"
    "conn_receiver c = ?rcv" "conn_sender c = TCPSender_syn_sent ?s"
    "c\<lparr>conn_sender := ?e, conn_receiver := ?rcv\<rparr> = c\<lparr>conn_sender := ?e\<rparr>"
    by (simp_all add: c TCPConnection_make_def TCPConnection_active_def TCPSender_make_def TCPSender_syn_sent_def)
  have e: "snd_segments_out ?e = []" "snd_is_syn_received ?e" "?e\<lparr>snd_segments_out := []\<rparr> = ?e"
    by (simp_all add: TCPSender_established_def TCPSender_make_def)
  have len: "TCPSegment_length_in_sequence_space seg = 0" "Buffer_size (ts_payload seg) = 0"
    using seg by (simp_all add: TCPSegment_length_in_sequence_space_def add64_small Buffer_size_def)
  have eof: "\<not> ByteStream_eof (ByteStream_make capacity)" for capacity
    by (simp add: ByteStream_eof_def ByteStream_make_def)
  have "TCPConnection_segment_received c seg = TCPConnection_respond (c\<lparr>conn_sender := ?e, conn_receiver := ?rcv\<rparr>) seg"
    using c'(1-5) seg(1-5) TCPReceiver_open_ack [OF assms(2) seg(1,2,6,7)] TCPSender_syn_acked [of ?s] eof
    by (simp add: TCPConnection_segment_received_def TCPConnection_inbound_stream_def Let_def)
  also have "\<dots> = Inr (c\<lparr>conn_sender := ?e\<rparr>)"
    unfolding c'(6) using len seg(1,7) wrap_1_neq TCPSender_nothing_to_send [OF assms(1) refl] e c'(4)
    by (simp add: TCPConnection_respond_def TCPConnection_send_ack_if_need_def Let_def)
  finally show ?thesis .
qed

lemma TCPConnection_established_state:
  assumes "conn_sender c = TCPSender_established (TCPConnection_sender0 cfg rnd) w"
    "conn_receiver c = TCPReceiver_opened capacity peer" "\<not> conn_is_rst c" "conn_linger_after_streams_finish c"
  shows "TCPConnection_state c = TCPState_of_State ESTABLISHED"
  using assms by (simp add: TCPConnection_state_def TCPConnection_active_def TCPState_make_def TCPState_sender_summary_def
    TCPState_receiver_summary_def TCPSender_established_def TCPSender_make_def ByteStream_make_fields ByteStream_eof_def)
    (simp add: ByteStream_make_def)

section \<open>Properties\<close>

text \<open>C21: two endpoints complete the three-way handshake. For any two configurations and initial
  sequence numbers, when one endpoint connects and the SYN, the SYN with ACK and the ACK the two
  produce are each delivered once, nothing throws, each endpoint sends exactly these segments, and
  both are in the state ESTABLISHED.\<close>

theorem TCPConnection_handshake:
  assumes "cfg_send_capacity cfgA < W64" "cfg_recv_capacity cfgA < W64"
    and "cfg_send_capacity cfgB < W64" "cfg_recv_capacity cfgB < W64"
  shows "\<exists>A1 A2 B1 B2 syn syn_ack ack.
    TCPConnection_connect (TCPConnection_make cfgA rndA) = Inr A1 \<and> conn_segments_out A1 = [syn] \<and>
    TCPConnection_segment_received (TCPConnection_make cfgB rndB) syn = Inr B1 \<and> conn_segments_out B1 = [syn_ack] \<and>
    TCPConnection_segment_received A1 syn_ack = Inr A2 \<and> conn_segments_out A2 = [syn, ack] \<and>
    TCPConnection_segment_received B1 ack = Inr B2 \<and> conn_segments_out B2 = [syn_ack] \<and>
    TCPConnection_state A2 = TCPState_of_State ESTABLISHED \<and> TCPConnection_state B2 = TCPState_of_State ESTABLISHED"
proof -
  let ?a = "TCPConnection_isn cfgA rndA" and ?b = "TCPConnection_isn cfgB rndB"
  let ?rA = "TCPReceiver_opened (cfg_recv_capacity cfgA) ?b" and ?rB = "TCPReceiver_opened (cfg_recv_capacity cfgB) ?a"
  define syn where "syn = TCPConnection_stamp (TCPReceiver_make (cfg_recv_capacity cfgA)) (syn_segment ?a)"
  define syn_ack where "syn_ack = TCPConnection_stamp ?rB (syn_segment ?b)"
  define ack where "ack = TCPConnection_stamp ?rA (TCPSegment_default\<lparr>ts_header := TCPHeader_default\<lparr>th_seqno := wrap 1 ?a\<rparr>\<rparr>)"
  have syn: "th_syn (ts_header syn)" "\<not> th_fin (ts_header syn)" "\<not> th_rst (ts_header syn)" "\<not> th_ack (ts_header syn)"
    "Buffer_str (ts_payload syn) = []" "th_seqno (ts_header syn) = ?a"
    by (simp_all add: syn_def TCPConnection_stamp_def syn_segment_def TCPHeader_default_def TCPReceiver_ackno_def TCPReceiver_make_def)
  have syn_ack: "th_syn (ts_header syn_ack)" "\<not> th_fin (ts_header syn_ack)" "\<not> th_rst (ts_header syn_ack)" "th_ack (ts_header syn_ack)"
    "th_ackno (ts_header syn_ack) = wrap 1 ?a" "Buffer_str (ts_payload syn_ack) = []" "th_seqno (ts_header syn_ack) = ?b"
    by (simp_all add: syn_ack_def TCPConnection_stamp_def syn_segment_def TCPHeader_default_def)
  have ack: "\<not> th_syn (ts_header ack)" "\<not> th_fin (ts_header ack)" "\<not> th_rst (ts_header ack)" "th_ack (ts_header ack)"
    "th_ackno (ts_header ack) = wrap 1 ?b" "Buffer_str (ts_payload ack) = []" "th_seqno (ts_header ack) = wrap 1 ?a"
    by (simp_all add: ack_def TCPConnection_stamp_def TCPSegment_default_def TCPHeader_default_def)
  note connect = TCPConnection_handshake_connect [OF assms(1), of rndA, folded syn_def]
  note listen = TCPConnection_handshake_listen [OF assms(3,4) syn(1-5) refl, of rndB, unfolded syn(6), folded syn_ack_def]
  note active = TCPConnection_handshake_syn_ack [OF assms(1,2) syn_ack(1-6) refl refl, unfolded syn_ack(7), folded ack_def, of "[syn]"]
  note final = TCPConnection_handshake_ack [OF assms(3,4) ack refl, of "[syn_ack]"]
  show ?thesis
    using connect listen active final
    by (intro exI conjI) (assumption | simp add: TCPConnection_make_def TCPConnection_established_state)+
qed

theorem TCPConnection_handshake_witness:
  "\<exists>A1 syn. TCPConnection_connect (TCPConnection_make TCPConfig_default 7) = Inr A1 \<and> conn_segments_out A1 = [syn] \<and>
    (\<exists>B1 syn_ack A2 ack. TCPConnection_segment_received (TCPConnection_make TCPConfig_default 9) syn = Inr B1 \<and>
      conn_segments_out B1 = [syn_ack] \<and> TCPConnection_segment_received A1 syn_ack = Inr A2 \<and>
      conn_segments_out A2 = [syn, ack] \<and> TCPConnection_state A2 = TCPState_of_State ESTABLISHED)"
proof -
  have cap: "cfg_send_capacity TCPConfig_default < W64" "cfg_recv_capacity TCPConfig_default < W64"
    by (simp_all add: sponge_eval)
  show ?thesis
    using TCPConnection_handshake [OF cap cap, of 7 9] by blast
qed






end
