(* ===== verification/TCP_Transfer.thy ===== *)
theory TCP_Transfer
  imports TCP_Sender_Correct
begin

text \<open>
  A sender and a receiver joined by a network that loses, repeats, delays and reorders what it
  carries: whatever the sender hands out may arrive at any later time and any number of times, and
  so may the acknowledgments of the receiver. The composition is a step relation; its reachable
  states are an inductive predicate and the invariant is proved by rule induction. The results need
  no assumption on the network other than that it does not forge segments, and that no copy of the
  SYN arrives after data was received (a repeated SYN rewinds the receiver's reassembler); the
  application writes after the SYN was sent, as the users of \<open>TCPConnection::connect\<close> do, so
  that the SYN carries no data.
\<close>

section \<open>The composition\<close>

record Transfer =
  tr_sender :: TCPSender_log
  tr_receiver :: TCPReceiver_log
  tr_acks :: "(WrappingInt32 \<times> 16 word) list"

abbreviation tr_snd :: "Transfer \<Rightarrow> TCPSender" where
  "tr_snd t \<equiv> sl_sender (tr_sender t)"

abbreviation tr_rcv :: "Transfer \<Rightarrow> TCPReceiver" where
  "tr_rcv t \<equiv> tl_receiver (tr_receiver t)"

definition Transfer_make :: "size_t \<Rightarrow> 16 word \<Rightarrow> WrappingInt32 \<Rightarrow> size_t \<Rightarrow> Transfer" where
  "Transfer_make send_capacity retx_timeout isn recv_capacity =
    \<lparr>tr_sender = TCPSender_log_make send_capacity retx_timeout isn,
     tr_receiver = TCPReceiver_log_make recv_capacity, tr_acks = []\<rparr>"

text \<open>
  What the receiver's endpoint puts into the header of a segment it sends, as
  \<open>TCPConnection\<close> does: the acknowledgment number and the window, cut to 16 bits at its largest value.
\<close>

definition TCPReceiver_acknowledge :: "TCPReceiver \<Rightarrow> (WrappingInt32 \<times> 16 word) list" where
  "TCPReceiver_acknowledge rcv =
    (case TCPReceiver_ackno rcv of None \<Rightarrow> []
     | Some ackno \<Rightarrow> [(ackno, of_nat (min 65535 (TCPReceiver_window_size rcv)))])"

datatype Transfer_event =
    SenderCall TCPSender_op
  | SegmentDelivered nat
  | ReceiverRead size_t
  | ReceiverAcks
  | AckDelivered nat

fun Transfer_step :: "Transfer \<Rightarrow> Transfer_event \<Rightarrow> Transfer res" where
  "Transfer_step t (SenderCall c) = rbind (TCPSender_log_step (tr_sender t) c) (\<lambda>l. Inr (t\<lparr>tr_sender := l\<rparr>))"
| "Transfer_step t (SegmentDelivered i) =
    rbind (TCPReceiver_log_step (tr_receiver t) (SegmentArrives (sl_sent (tr_sender t) ! i))) (\<lambda>l. Inr (t\<lparr>tr_receiver := l\<rparr>))"
| "Transfer_step t (ReceiverRead len) =
    rbind (TCPReceiver_log_step (tr_receiver t) (StreamRead len)) (\<lambda>l. Inr (t\<lparr>tr_receiver := l\<rparr>))"
| "Transfer_step t ReceiverAcks = Inr (t\<lparr>tr_acks := tr_acks t @ TCPReceiver_acknowledge (tr_rcv t)\<rparr>)"
| "Transfer_step t (AckDelivered j) =
    rbind (TCPSender_log_step (tr_sender t) (AckReceived (fst (tr_acks t ! j)) (snd (tr_acks t ! j))))
      (\<lambda>l. Inr (t\<lparr>tr_sender := l\<rparr>))"

text \<open>What the application and the network may do.\<close>

fun Transfer_allowed :: "bytes \<Rightarrow> Transfer \<Rightarrow> Transfer_event \<Rightarrow> bool" where
  "Transfer_allowed S t (SenderCall c) = (case c of
      AckReceived ackno w \<Rightarrow> False
    | AppWrite data \<Rightarrow> 0 < snd_next_seqno (tr_snd t) \<and> TCPSender_write_ok S (tr_snd t) data
    | AppEnd \<Rightarrow> 0 < snd_next_seqno (tr_snd t) \<and> bs_bytes_written (snd_stream (tr_snd t)) = length S
    | _ \<Rightarrow> TCPSender_op_ok S (tr_sender t) c)"
| "Transfer_allowed S t (SegmentDelivered i) = (i < length (sl_sent (tr_sender t)) \<and>
    (th_syn (ts_header (sl_sent (tr_sender t) ! i)) \<longrightarrow> bs_bytes_written (TCPReceiver_stream_out (tr_rcv t)) = 0))"
| "Transfer_allowed S t (ReceiverRead len) = (len \<le> ByteStream_buffer_size (TCPReceiver_stream_out (tr_rcv t)))"
| "Transfer_allowed S t ReceiverAcks = True"
| "Transfer_allowed S t (AckDelivered j) = (j < length (tr_acks t))"

inductive Transfer_reaches :: "bytes \<Rightarrow> Transfer \<Rightarrow> Transfer \<Rightarrow> bool" for S :: bytes and t0 :: Transfer where
  start: "Transfer_reaches S t0 t0"
| step: "Transfer_reaches S t0 t \<Longrightarrow> Transfer_allowed S t e \<Longrightarrow> Transfer_step t e = Inr t' \<Longrightarrow> Transfer_reaches S t0 t'"

section \<open>Invariant\<close>

text \<open>The oldest sequence number the sender has no acknowledgment for.\<close>

definition TCPSender_una :: "TCPSender \<Rightarrow> nat" where
  "TCPSender_una s = snd_next_seqno s - snd_bytes_in_flight s"

text \<open>
  A segment whose sequence numbers all lie below \<open>n\<close>: a piece of the stream, or empty. A SYN
  carries neither data nor a FIN.
\<close>

definition sent_upto :: "WrappingInt32 \<Rightarrow> bytes \<Rightarrow> nat \<Rightarrow> TCPSegment \<Rightarrow> bool" where
  "sent_upto isn S n seg \<longleftrightarrow>
    (\<exists>a. a + seq_len seg \<le> n \<and> (sent_segment isn S a seg \<or> th_seqno (ts_header seg) = wrap (of_nat a) isn \<and> seq_len seg = 0)) \<and>
    (th_syn (ts_header seg) \<longrightarrow> Buffer_str (ts_payload seg) = [] \<and> \<not> th_fin (ts_header seg))"

definition TCPSender_opening :: "bytes \<Rightarrow> TCPSender \<Rightarrow> bool" where
  "TCPSender_opening S s \<longleftrightarrow>
    (snd_next_seqno s = 0 \<longrightarrow> bs_bytes_written (snd_stream s) = 0 \<and> \<not> bs_input_end (snd_stream s)) \<and>
    (\<forall>seg \<in> set (snd_segments_out s) \<union> set (map ss_seg (snd_seg_queue s)). sent_upto (snd_isn s) S (snd_next_seqno s) seg)"

text \<open>The receiver has nothing that was not sent.\<close>

definition TCPReceiver_within :: "bytes \<Rightarrow> nat \<Rightarrow> TCPReceiver \<Rightarrow> bool" where
  "TCPReceiver_within S n rcv \<longleftrightarrow> (rcv_isn rcv \<noteq> None \<longrightarrow> StreamReassembler_within n (rcv_reassembler rcv) \<and>
    (StreamReassembler_marked (rcv_reassembler rcv) \<longrightarrow> length S + 2 \<le> n))"

definition Transfer_inv :: "size_t \<Rightarrow> size_t \<Rightarrow> bytes \<Rightarrow> WrappingInt32 \<Rightarrow> Transfer \<Rightarrow> bool" where
  "Transfer_inv send_capacity capacity S isn t \<longleftrightarrow> length S + 3 < 2147483648 \<and>
    TCPSender_log_inv S isn (tr_sender t) \<and> TCPReceiver_log_inv capacity S isn (tr_receiver t) \<and>
    TCPSender_opening S (tr_snd t) \<and> bs_capacity (snd_stream (tr_snd t)) = send_capacity \<and>
    (\<forall>seg \<in> set (sl_sent (tr_sender t)). sent_upto isn S (snd_next_seqno (tr_snd t)) seg) \<and>
    TCPReceiver_within S (snd_next_seqno (tr_snd t)) (tr_rcv t) \<and>
    (\<forall>(ackno, w) \<in> set (tr_acks t). \<exists>k. 0 < k \<and> k \<le> TCPReceiver_received (tr_rcv t) \<and> ackno = wrap (of_nat k) isn) \<and>
    TCPSender_una (tr_snd t) \<le> TCPReceiver_received (tr_rcv t)"

subsection \<open>The sender's calls\<close>

lemma sent_upto_mono: "sent_upto isn S a seg \<Longrightarrow> a \<le> b \<Longrightarrow> sent_upto isn S b seg"
  unfolding sent_upto_def by (meson order_trans)

text \<open>The relation between the states before and after a call that is not an acknowledgment.\<close>

definition TCPSender_goes_on :: "bytes \<Rightarrow> TCPSender \<Rightarrow> TCPSender \<Rightarrow> bool" where
  "TCPSender_goes_on S s s' \<longleftrightarrow> TCPSender_una s' = TCPSender_una s \<and> snd_next_seqno s \<le> snd_next_seqno s' \<and>
    TCPSender_opening S s' \<and> bs_capacity (snd_stream s') = bs_capacity (snd_stream s)"

lemma outstanding_sent_upto:
  assumes "outstanding isn S a segs b" "seg \<in> set segs"
  shows "\<exists>c \<ge> a. c + seq_len seg \<le> b \<and> sent_segment isn S c seg"
proof -
  obtain us vs where "segs = us @ seg # vs"
    using assms(2) split_list by metis
  then obtain c where "outstanding isn S a us c" "sent_segment isn S c seg" "outstanding isn S (c + seq_len seg) vs b"
    using assms(1) by (auto simp: outstanding_append)
  then show ?thesis
    using outstanding_sum [of isn S a us c] outstanding_sum [of isn S "c + seq_len seg" vs b] by (intro exI [of _ c]) simp
qed

lemma TCPSender_fill_first:
  assumes inv: "TCPSender_inv S s'" and "bs_bytes_written (snd_stream s') = 0" "\<not> bs_input_end (snd_stream s')"
    and out: "outstanding isn S 0 segs (snd_next_seqno s')" and seg: "seg \<in> set segs"
  shows "sent_upto isn S (snd_next_seqno s') seg"
proof -
  note I = inv [unfolded TCPSender_inv_def TCPSender_stream_inv_def]
  have st: "bs_bytes_read (snd_stream s') = 0" "\<not> TCPSender_fin_sent s'"
    using TCPSender_stream_written [of S "snd_stream s'"] I assms(2,3) by (auto simp: TCPSender_stream_inv_def)
  obtain c where c: "c + seq_len seg \<le> snd_next_seqno s'" "sent_segment isn S c seg"
    using outstanding_sent_upto [OF out seg] by auto
  have "seq_len seg \<le> 1"
    using c(1) I st by (cases "snd_next_seqno s' = 0") auto
  then show ?thesis
    unfolding sent_upto_def using c by (intro conjI exI [of _ c]) (auto simp: seq_len_def)
qed

lemma TCPSender_fill_goes_on:
  assumes inv: "TCPSender_inv S s" and op: "TCPSender_opening S s" and run: "TCPSender_fill_window s = Inr s'"
  shows "TCPSender_goes_on S s s'"
proof -
  obtain segs where inv': "TCPSender_inv S s'"
    and segs: "snd_segments_out s' = snd_segments_out s @ segs"
      "map ss_seg (snd_seg_queue s') = map ss_seg (snd_seg_queue s) @ segs"
      "outstanding (snd_isn s) S (snd_next_seqno s) segs (snd_next_seqno s')" "snd_isn s' = snd_isn s"
      "bs_bytes_written (snd_stream s') = bs_bytes_written (snd_stream s)"
      "bs_input_end (snd_stream s') = bs_input_end (snd_stream s)"
      "bs_capacity (snd_stream s') = bs_capacity (snd_stream s)"
    by (rule TCPSender_fill_window_spec [OF inv]) (use run in auto)
  have grow: "snd_next_seqno s' = snd_next_seqno s + sum_list (map seq_len segs)"
    by (rule outstanding_sum [OF segs(3)])
  moreover have "snd_next_seqno s = TCPSender_una s + sum_list (map seq_len (map ss_seg (snd_seg_queue s)))"
    "snd_next_seqno s' = TCPSender_una s' + sum_list (map seq_len (map ss_seg (snd_seg_queue s) @ segs))"
    using outstanding_sum [OF TCPSender_outstanding [OF inv]] outstanding_sum [OF TCPSender_outstanding [OF inv']]
    unfolding TCPSender_una_def segs(2) by simp_all
  ultimately have una: "TCPSender_una s' = TCPSender_una s"
    by simp
  have new: "sent_upto (snd_isn s) S (snd_next_seqno s') seg" if seg: "seg \<in> set segs" for seg
  proof (cases "snd_next_seqno s = 0")
    case True
    then show ?thesis
      using TCPSender_fill_first [OF inv' _ _ _ seg] segs(3,5,6) op by (simp add: TCPSender_opening_def)
  next
    case False
    then show ?thesis
      using outstanding_sent_upto [OF segs(3) seg] unfolding sent_upto_def
      by (intro conjI) (blast, auto simp: sent_segment_def)
  qed
  have old: "sent_upto (snd_isn s) S (snd_next_seqno s') seg"
    if "seg \<in> set (snd_segments_out s) \<union> set (map ss_seg (snd_seg_queue s))" for seg
    using sent_upto_mono [of "snd_isn s" S "snd_next_seqno s" seg] op that grow by (auto simp: TCPSender_opening_def)
  have "TCPSender_opening S s'"
    unfolding TCPSender_opening_def segs(1,2,4) set_append
    using new old op segs(5,6) grow by (auto simp: TCPSender_opening_def)
  then show ?thesis
    using una grow segs(7) by (simp add: TCPSender_goes_on_def)
qed

lemma TCPSender_tick_goes_on:
  assumes "TCPSender_opening S s"
  shows "TCPSender_goes_on S s (TCPSender_tick s ms)"
  using assms by (cases "snd_seg_queue s")
    (auto simp: TCPSender_goes_on_def TCPSender_tick_def TCPSender_opening_def TCPSender_una_def Let_def)

lemma TCPSender_call_goes_on:
  assumes linv: "TCPSender_log_inv S isn l" and op: "TCPSender_opening S (sl_sender l)"
    and ok: "Transfer_allowed S t (SenderCall c)" "tr_sender t = l" and run: "TCPSender_log_step l c = Inr l'"
  shows "TCPSender_goes_on S (sl_sender l) (sl_sender l') \<and>
    set (sl_sent l') \<subseteq> set (sl_sent l) \<union> set (snd_segments_out (sl_sender l))"
proof -
  have inv: "TCPSender_inv S (sl_sender l)"
    using linv by (simp add: TCPSender_log_inv_def)
  have empty: "sent_upto i S n (TCPSegment_default\<lparr>ts_header := TCPHeader_default\<lparr>th_seqno := wrap (of_nat n) i\<rparr>\<rparr>)" for n i
    by (auto simp: sent_upto_def seq_len_def TCPSegment_default_def TCPHeader_default_def intro: exI [of _ n])
  show ?thesis
  proof (cases c)
    case FillWindow
    then show ?thesis
      using TCPSender_fill_goes_on [OF inv op] run by (auto simp: rbind_Inr_iff)
  next
    case (Tick ms)
    then show ?thesis
      using TCPSender_tick_goes_on [OF op] run by auto
  qed (use ok op run empty in \<open>auto simp: TCPSender_next_seqno_def TCPSender_goes_on_def TCPSender_una_def TCPSender_opening_def TCPSender_write_def
    TCPSender_end_input_def ByteStream_end_input_def ByteStream_write_def Let_def TCPSender_send_empty_segment_def\<close>)
qed

subsection \<open>Acknowledgments\<close>

lemma acked_count_sum: "a + sum_list (map seq_len (take (acked_count ack a segs) segs)) \<le> max a ack"
proof (induction segs arbitrary: a)
  case (Cons seg segs)
  show ?case
    using Cons [of "a + seq_len seg"] by (simp add: add.assoc) linarith
qed simp

lemma TCPSender_restart_timer_fields:
  "snd_next_seqno (TCPSender_restart_timer s) = snd_next_seqno s"
  "snd_bytes_in_flight (TCPSender_restart_timer s) = snd_bytes_in_flight s"
  "snd_stream (TCPSender_restart_timer s) = snd_stream s"
  "snd_segments_out (TCPSender_restart_timer s) = snd_segments_out s"
  "map ss_seg (snd_seg_queue (TCPSender_restart_timer s)) = map ss_seg (snd_seg_queue s)"
  by (simp_all add: TCPSender_restart_timer_def split: list.split)

lemma TCPSender_opening_acked:
  "TCPSender_opening S (TCPSender_restart_timer s) = TCPSender_opening S s"
  "TCPSender_opening S (s\<lparr>snd_window_size := w, snd_is_window_zero := z\<rparr>) = TCPSender_opening S s"
  "TCPSender_opening S s \<Longrightarrow> TCPSender_opening S (TCPSender_acked k s)"
  unfolding TCPSender_opening_def TCPSender_restart_timer_fields TCPSender_isn_kept
  by (auto simp: TCPSender_acked_def Let_def dest: in_set_dropD)

lemma TCPSender_ack_una:
  assumes inv: "TCPSender_inv S s" and op: "TCPSender_opening S s" and k: "k \<le> length S + 2" "length S + 3 < 2147483648"
  shows "TCPSender_una (TCPSender_ack_received s (wrap (of_nat k) (snd_isn s)) w) \<le> max (TCPSender_una s) k"
    "snd_next_seqno (TCPSender_ack_received s (wrap (of_nat k) (snd_isn s)) w) = snd_next_seqno s"
    "TCPSender_opening S (TCPSender_ack_received s (wrap (of_nat k) (snd_isn s)) w)"
    "snd_stream (TCPSender_ack_received s (wrap (of_nat k) (snd_isn s)) w) = snd_stream s"
proof -
  note I = inv [unfolded TCPSender_inv_def]
  let ?q = "map ss_seg (snd_seg_queue s)" and ?n = "TCPSender_ack_count s k"
  have nxt: "snd_next_seqno s \<le> length S + 2"
    by (rule TCPSender_next_bound [OF inv])
  have "\<bar>int k - int (snd_next_seqno s)\<bar> < 2147483648" "k < W64" "snd_next_seqno s < W64"
    using k nxt W64_gt(1) by linarith+
  then have ack: "unat (unwrap (wrap (of_nat k) (snd_isn s)) (snd_isn s) (of_nat (snd_next_seqno s))) = k"
    by (rule unwrap_index)
  define d where "d = sum_list (map seq_len (take ?n ?q))"
  have "TCPSender_una s + d \<le> max (TCPSender_una s) k"
    using acked_count_sum unfolding d_def TCPSender_ack_count_def TCPSender_una_def by blast
  moreover have "sum_list (map seq_len ?q) = d + sum_list (map seq_len (drop ?n ?q))"
    unfolding d_def by (metis append_take_drop_id map_append sum_list_append)
  then have "d \<le> snd_bytes_in_flight s"
    using outstanding_sum [OF TCPSender_outstanding [OF inv]] I by linarith
  ultimately have una: "snd_next_seqno s - (snd_bytes_in_flight s - d) \<le> max (TCPSender_una s) k"
    using I by (simp add: TCPSender_una_def)
  show "TCPSender_una (TCPSender_ack_received s (wrap (of_nat k) (snd_isn s)) w) \<le> max (TCPSender_una s) k"
    using una by (auto simp: TCPSender_ack_received_eq [OF inv] ack Let_def TCPSender_una_def
      TCPSender_restart_timer_fields TCPSender_acked_def d_def take_map)
  show "snd_next_seqno (TCPSender_ack_received s (wrap (of_nat k) (snd_isn s)) w) = snd_next_seqno s"
    "snd_stream (TCPSender_ack_received s (wrap (of_nat k) (snd_isn s)) w) = snd_stream s"
    by (simp add: TCPSender_ack_received_eq [OF inv] Let_def TCPSender_restart_timer_fields TCPSender_acked_def)+
  show "TCPSender_opening S (TCPSender_ack_received s (wrap (of_nat k) (snd_isn s)) w)"
    using op by (simp add: TCPSender_ack_received_eq [OF inv] Let_def TCPSender_opening_acked)
qed

subsection \<open>The receiver\<close>

lemma TCPReceiver_received_bound:
  assumes "TCPReceiver_inv capacity S isn delivered rcv"
  shows "TCPReceiver_received rcv \<le> length S + 2"
  using assms by (auto simp: TCPReceiver_inv_def TCPReceiver_received_def StreamReassembler_inv_def TCPReceiver_stream_out_def)

lemma TCPReceiver_read_effect:
  assumes "TCPReceiver_log_step l (StreamRead len) = Inr l'"
  obtains out where "tl_receiver l' = TCPReceiver_set_stream_out (tl_receiver l) out"
    "bs_bytes_written out = bs_bytes_written (TCPReceiver_stream_out (tl_receiver l))"
    "bs_input_end out = bs_input_end (TCPReceiver_stream_out (tl_receiver l))"
proof -
  have "\<exists>out. tl_receiver l' = TCPReceiver_set_stream_out (tl_receiver l) out \<and>
      bs_bytes_written out = bs_bytes_written (TCPReceiver_stream_out (tl_receiver l)) \<and>
      bs_input_end out = bs_input_end (TCPReceiver_stream_out (tl_receiver l))"
    using assms by (auto simp: rbind_Inr_iff ByteStream_read_def Let_def intro: exI)
  then show thesis
    using that by blast
qed

lemma TCPReceiver_acknowledge_eq:
  assumes "TCPReceiver_inv capacity S isn delivered rcv" "(ackno, w) \<in> set (TCPReceiver_acknowledge rcv)"
  shows "0 < TCPReceiver_received rcv \<and> ackno = wrap (of_nat (TCPReceiver_received rcv)) isn"
  using assms(2) by (cases "rcv_isn rcv")
    (auto simp: TCPReceiver_acknowledge_def TCPReceiver_ackno_eq [OF assms(1)] TCPReceiver_received_def)

text \<open>What the sender emits is what the receiver expects of its peer.\<close>

lemma sent_uptoE:
  assumes "sent_upto isn S n seg"
  obtains (syn) "th_syn (ts_header seg)" "th_seqno (ts_header seg) = isn" "Buffer_str (ts_payload seg) = []"
      "\<not> th_fin (ts_header seg)" "0 < n"
  | (data) a where "\<not> th_syn (ts_header seg)" "th_seqno (ts_header seg) = wrap (of_nat a) isn"
      "a + length (Buffer_str (ts_payload seg)) + of_bool (th_fin (ts_header seg)) \<le> n"
      "Buffer_str (ts_payload seg) = [] \<and> \<not> th_fin (ts_header seg) \<or>
        0 < a \<and> is_substring S (Buffer_str (ts_payload seg)) (a - 1) (th_fin (ts_header seg))"
proof (cases "th_syn (ts_header seg)")
  case True
  then show thesis
    by (intro syn) (use assms in \<open>auto simp: sent_upto_def sent_segment_def seq_len_def\<close>)
next
  case False
  then obtain a where a: "a + seq_len seg \<le> n"
      "sent_segment isn S a seg \<or> th_seqno (ts_header seg) = wrap (of_nat a) isn \<and> seq_len seg = 0"
    using assms by (auto simp: sent_upto_def)
  show thesis
    by (rule data [OF False, of a]) (use a False in \<open>auto simp: sent_segment_def seq_len_def\<close>)
qed

lemma TCPReceiver_near:
  assumes "TCPReceiver_inv capacity S isn delivered rcv" "rcv_isn rcv \<noteq> None" "a \<le> length S + 2" "length S + 3 < 2147483648"
  shows "\<bar>int a - int (sr_top_pointer (rcv_reassembler rcv))\<bar> < 2147483648"
proof -
  have "sr_top_pointer (rcv_reassembler rcv) \<le> 1 + length S"
    using assms(1,2) by (auto simp: TCPReceiver_inv_def StreamReassembler_inv_def)
  then show ?thesis
    using assms(3,4) by linarith
qed

lemma sent_upto_of_stream:
  assumes inv: "TCPReceiver_inv capacity S isn delivered rcv" and len: "length S + 3 < 2147483648"
    and seg: "sent_upto isn S n seg" "n \<le> length S + 2"
    and syn: "th_syn (ts_header seg) \<longrightarrow> bs_bytes_written (TCPReceiver_stream_out rcv) = 0"
  shows "segment_of_stream S isn rcv seg"
  using seg(1)
proof (cases rule: sent_uptoE)
  case syn
  then show ?thesis
    using assms(5) by (simp add: segment_of_stream_def Let_def)
next
  case (data a)
  then have "a \<le> length S + 2"
    using seg(2) by simp
  then show ?thesis
    using data TCPReceiver_near [OF inv _ _ len] by (auto simp: segment_of_stream_def Let_def)
qed

lemma TCPReceiver_within_step:
  assumes inv: "TCPReceiver_inv capacity S isn delivered rcv" and len: "length S + 3 < 2147483648"
    and seg: "sent_upto isn S n seg" "n \<le> length S + 2"
    and syn: "th_syn (ts_header seg) \<longrightarrow> bs_bytes_written (TCPReceiver_stream_out rcv) = 0"
    and within: "TCPReceiver_within S n rcv" and run: "TCPReceiver_segment_received rcv seg = Inr rcv'"
  shows "TCPReceiver_within S n rcv'"
proof (cases "rcv_isn rcv")
  case None
  show ?thesis
  proof (cases "th_syn (ts_header seg)")
    case True
    then have s: "th_seqno (ts_header seg) = isn" "Buffer_str (ts_payload seg) = []" "\<not> th_fin (ts_header seg)" "0 < n"
      using seg(1) by (auto elim: sent_uptoE)
    have I: "rcv = TCPReceiver_make capacity" "capacity < W64" "length S + 3 < W64"
      using inv None by (auto simp: TCPReceiver_inv_def)
    obtain r where "push_back_wrap_string seg isn [] (StreamReassembler_make capacity) False = Inr r"
      "sr_top_pointer r = 1" "sr_buffer_list r = []" "bs_input_end (sr_output r) \<longrightarrow> False"
      by (rule TCPReceiver_first_syn [OF I(2,3) _ True s(1), of False]) simp_all
    then show ?thesis
      using run I(1) True s by (auto simp: TCPReceiver_segment_received_eq TCPReceiver_make_def TCPReceiver_within_def
        StreamReassembler_within_def StreamReassembler_marked_def Let_def)
  next
    case False
    then show ?thesis
      using None run within by (simp add: TCPReceiver_segment_received_eq)
  qed
next
  case (Some isn')
  then have I: "rcv_isn rcv = Some isn" "StreamReassembler_inv 1 S delivered (rcv_reassembler rcv)" "length S + 3 < W64"
    using inv by (auto simp: TCPReceiver_inv_def)
  let ?r = "rcv_reassembler rcv" and ?data = "Buffer_str (ts_payload seg)" and ?fin = "th_fin (ts_header seg)"
  have top: "sr_top_pointer ?r < W64"
    using I(2) by (simp add: StreamReassembler_inv_def)
  obtain r where push: "push_back_wrap_string seg isn ?data ?r ?fin = Inr r" and rcv': "rcv_reassembler rcv' = r" "rcv_isn rcv' = Some isn"
    using run I(1) by (auto simp: TCPReceiver_segment_received_eq rbind_Inr_iff Let_def)
  have W: "StreamReassembler_within n ?r" "StreamReassembler_marked ?r \<longrightarrow> length S + 2 \<le> n"
    using within Some by (simp_all add: TCPReceiver_within_def)
  show ?thesis
    using seg(1)
  proof (cases rule: sent_uptoE)
    case syn
    then have "r = ?r"
      using push assms(5) TCPReceiver_syn_again [OF I(2)] by (simp add: TCPReceiver_stream_out_def)
    then show ?thesis
      using W rcv' by (simp add: TCPReceiver_within_def)
  next
    case (data a)
    have a: "a \<le> length S + 2" "a < W64" "a + length ?data + 1 < W64"
      using data(3) seg(2) I(3) by linarith+
    have at: "push_back_wrap_string seg isn ?data ?r ?fin = StreamReassembler_push_substring ?r ?data a ?fin"
      by (rule push_back_at_index [OF data(1,2) TCPReceiver_near [OF inv _ a(1) len] a(2) top]) (simp add: Some)
    have "seg_fits 1 S (Seg a ?data ?fin)"
      using data(4) is_substring_fits_at [of S ?data "a - 1" ?fin 1] seg_fits_empty by auto
    then obtain r' where "StreamReassembler_push_substring ?r ?data a ?fin = Inr r'"
      and r': "StreamReassembler_marked r' \<longrightarrow> StreamReassembler_marked ?r \<or> ?fin"
        "\<forall>b. StreamReassembler_within b ?r \<longrightarrow> a + length ?data \<le> b \<longrightarrow> StreamReassembler_within b r'"
      by (rule StreamReassembler_push_safe [OF I(2) _ a(3)])
    then have "r' = r"
      using push at by simp
    moreover have "length S + 2 \<le> n" if ?fin
      using data(3,4) that by (auto simp: is_substring_def)
    ultimately show ?thesis
      using rcv' r' W data(3) by (auto simp: TCPReceiver_within_def)
  qed
qed

lemma TCPReceiver_within_received:
  assumes "TCPReceiver_inv capacity S isn delivered rcv" "TCPReceiver_within S n rcv"
  shows "TCPReceiver_received rcv \<le> n"
proof (cases "rcv_isn rcv")
  case (Some isn')
  then have I: "StreamReassembler_inv 1 S delivered (rcv_reassembler rcv)"
    using assms(1) by (auto simp: TCPReceiver_inv_def)
  show ?thesis
    using assms(2) Some I TCPReceiver_received_bound [OF assms(1)]
    by (cases "bs_input_end (TCPReceiver_stream_out rcv)") (auto simp: TCPReceiver_within_def StreamReassembler_within_def
      StreamReassembler_marked_def TCPReceiver_received_def TCPReceiver_stream_out_def StreamReassembler_inv_def)
qed (simp add: TCPReceiver_received_def)

lemma TCPReceiver_within_mono: "TCPReceiver_within S a rcv \<Longrightarrow> a \<le> b \<Longrightarrow> TCPReceiver_within S b rcv"
  by (auto simp: TCPReceiver_within_def StreamReassembler_within_def)

lemma TCPReceiver_read_keeps:
  assumes "TCPReceiver_log_step l (StreamRead len) = Inr l'"
  shows "TCPReceiver_received (tl_receiver l') = TCPReceiver_received (tl_receiver l)"
    "TCPReceiver_within S n (tl_receiver l') = TCPReceiver_within S n (tl_receiver l)"
  by (rule TCPReceiver_read_effect [OF assms];
    simp add: TCPReceiver_received_def TCPReceiver_within_def TCPReceiver_stream_out_def TCPReceiver_set_stream_out_def
      StreamReassembler_within_def StreamReassembler_marked_def)+

subsection \<open>Every step keeps the invariant\<close>

lemma Transfer_invD:
  assumes "Transfer_inv send_capacity capacity S isn t"
  shows "TCPSender_log_inv S isn (tr_sender t)" "TCPReceiver_log_inv capacity S isn (tr_receiver t)"
    "TCPSender_opening S (tr_snd t)" "length S + 3 < 2147483648" "TCPSender_inv S (tr_snd t)" "snd_isn (tr_snd t) = isn"
    "TCPReceiver_inv capacity S isn (tl_delivered (tr_receiver t)) (tr_rcv t)"
    "TCPSender_una (tr_snd t) \<le> TCPReceiver_received (tr_rcv t)"
  using assms by (simp_all add: Transfer_inv_def TCPSender_log_inv_def TCPReceiver_log_inv_def)

lemma Transfer_call_safe:
  assumes inv: "Transfer_inv send_capacity capacity S isn t" and ok: "Transfer_allowed S t (SenderCall c)"
  shows "\<exists>t'. Transfer_step t (SenderCall c) = Inr t' \<and> Transfer_inv send_capacity capacity S isn t'"
proof -
  note I = inv [unfolded Transfer_inv_def] and D = Transfer_invD [OF inv]
  have "TCPSender_op_ok S (tr_sender t) c"
    using ok by (cases c) simp_all
  then obtain l where l: "TCPSender_log_step (tr_sender t) c = Inr l" "TCPSender_log_inv S isn l"
    using TCPSender_log_step_safe [OF D(1)] by blast
  have on: "TCPSender_goes_on S (tr_snd t) (sl_sender l)"
    and sent: "set (sl_sent l) \<subseteq> set (sl_sent (tr_sender t)) \<union> set (snd_segments_out (tr_snd t))"
    using TCPSender_call_goes_on [OF D(1,3) ok refl l(1)] by auto
  have isn: "snd_isn (tr_snd t) = isn"
    by (rule D(6))
  have "sent_upto isn S (snd_next_seqno (sl_sender l)) seg" if "seg \<in> set (sl_sent l)" for seg
    using that sent I on isn sent_upto_mono [of isn S "snd_next_seqno (tr_snd t)" seg]
    by (auto simp: TCPSender_opening_def TCPSender_goes_on_def)
  then show ?thesis
    using I l on TCPReceiver_within_mono [of S "snd_next_seqno (tr_snd t)"] by (auto simp: Transfer_inv_def TCPSender_goes_on_def)
qed

lemma Transfer_delivery_safe:
  assumes inv: "Transfer_inv send_capacity capacity S isn t" and ok: "Transfer_allowed S t (SegmentDelivered i)"
  shows "\<exists>t'. Transfer_step t (SegmentDelivered i) = Inr t' \<and> Transfer_inv send_capacity capacity S isn t'"
proof -
  note I = inv [unfolded Transfer_inv_def] and D = Transfer_invD [OF inv]
  let ?seg = "sl_sent (tr_sender t) ! i"
  have seg: "?seg \<in> set (sl_sent (tr_sender t))"
    using ok by simp
  then have sent: "sent_upto isn S (snd_next_seqno (tr_snd t)) ?seg" "snd_next_seqno (tr_snd t) \<le> length S + 2"
    using I TCPSender_next_bound [OF D(5)] by simp_all
  have syn: "th_syn (ts_header ?seg) \<longrightarrow> bs_bytes_written (TCPReceiver_stream_out (tr_rcv t)) = 0"
    using ok by simp
  obtain rcv where rcv: "TCPReceiver_segment_received (tr_rcv t) ?seg = Inr rcv"
      "TCPReceiver_inv capacity S isn (tl_delivered (tr_receiver t)) rcv"
      "TCPReceiver_received (tr_rcv t) \<le> TCPReceiver_received rcv"
    using TCPReceiver_segment_safe [OF D(7) sent_upto_of_stream [OF D(7,4) sent syn]] by blast
  have "TCPReceiver_within S (snd_next_seqno (tr_snd t)) rcv"
    using I by (intro TCPReceiver_within_step [OF D(7,4) sent syn _ rcv(1)]) simp
  then show ?thesis
    using I rcv by (fastforce simp: Transfer_inv_def TCPReceiver_log_inv_def)
qed

lemma Transfer_ack_safe:
  assumes inv: "Transfer_inv send_capacity capacity S isn t" and ok: "Transfer_allowed S t (AckDelivered j)"
  shows "\<exists>t'. Transfer_step t (AckDelivered j) = Inr t' \<and> Transfer_inv send_capacity capacity S isn t'"
proof -
  note I = inv [unfolded Transfer_inv_def] and D = Transfer_invD [OF inv]
  obtain ackno w where a: "tr_acks t ! j = (ackno, w)" "(ackno, w) \<in> set (tr_acks t)"
    using ok by (metis Transfer_allowed.simps(5) nth_mem prod.exhaust)
  then obtain k where k: "0 < k" "k \<le> TCPReceiver_received (tr_rcv t)" "ackno = wrap (of_nat k) isn"
    using I by fastforce
  let ?s = "TCPSender_ack_received (tr_snd t) ackno w"
  have "k \<le> length S + 2"
    using k(2) TCPReceiver_received_bound [OF D(7)] by simp
  then have s: "TCPSender_una ?s \<le> max (TCPSender_una (tr_snd t)) k" "snd_next_seqno ?s = snd_next_seqno (tr_snd t)"
    "TCPSender_opening S ?s" "snd_stream ?s = snd_stream (tr_snd t)"
    using TCPSender_ack_una [OF D(5,3) _ D(4)] k(3) D(6) by auto
  have "TCPSender_inv S ?s" "snd_isn ?s = isn"
    using TCPSender_inv_ack [OF D(5)] TCPSender_isn_ack [OF D(5)] D(6) k(1,2)
      TCPReceiver_within_received [OF D(7), of "snd_next_seqno (tr_snd t)"] I by auto
  then show ?thesis
    using I a(1) s k(2) by (auto simp: Transfer_inv_def TCPSender_log_inv_def)
qed

lemma Transfer_step_safe:
  assumes inv: "Transfer_inv send_capacity capacity S isn t" and ok: "Transfer_allowed S t e"
  shows "\<exists>t'. Transfer_step t e = Inr t' \<and> Transfer_inv send_capacity capacity S isn t'"
proof -
  note I = inv [unfolded Transfer_inv_def] and D = Transfer_invD [OF inv]
  show ?thesis
  proof (cases e)
    case (ReceiverRead len)
    then obtain l where "TCPReceiver_log_step (tr_receiver t) (StreamRead len) = Inr l" "TCPReceiver_log_inv capacity S isn l"
      using TCPReceiver_log_step_safe [OF D(2), of "StreamRead len"] ok by auto
    then show ?thesis
      using I TCPReceiver_read_keeps [of "tr_receiver t" len l] ReceiverRead by (auto simp: Transfer_inv_def)
  next
    case ReceiverAcks
    then show ?thesis
      using I TCPReceiver_acknowledge_eq [OF D(7)] by (fastforce simp: Transfer_inv_def)
  qed (use inv ok Transfer_call_safe Transfer_delivery_safe Transfer_ack_safe in blast)+
qed

lemma Transfer_inv_make:
  assumes "send_capacity < W64" "recv_capacity < W64" "length S + 3 < 2147483648"
  shows "Transfer_inv send_capacity recv_capacity S isn (Transfer_make send_capacity retx_timeout isn recv_capacity)"
proof -
  have len: "length S + 3 < W64"
    using assms(3) W64_gt(1) by linarith
  show ?thesis
    using assms TCPSender_log_inv_make [OF assms(1) len] TCPReceiver_log_inv_make [OF assms(2) len]
    by (simp add: Transfer_inv_def Transfer_make_def TCPReceiver_received_def TCPReceiver_within_def
      TCPSender_opening_def TCPSender_una_def)
      (simp add: TCPSender_log_make_def TCPReceiver_log_make_def TCPSender_make_def TCPReceiver_make_def ByteStream_make_fields)
qed

lemma Transfer_reaches_inv:
  assumes "Transfer_reaches S (Transfer_make send_capacity retx_timeout isn recv_capacity) t"
    "send_capacity < W64" "recv_capacity < W64" "length S + 3 < 2147483648"
  shows "Transfer_inv send_capacity recv_capacity S isn t"
  using assms(1)
proof (induction rule: Transfer_reaches.induct)
  case start
  then show ?case
    by (rule Transfer_inv_make [OF assms(2-4)])
next
  case (step t e t')
  then show ?case
    using Transfer_step_safe [OF step.IH step.hyps(2)] by auto
qed

end
