(* ===== verification/TCP_Delivery.thy ===== *)
theory TCP_Delivery
  imports TCP_Transfer
begin

text \<open>
  No state of a transfer is a dead end: whatever the network has lost, repeated or reordered so
  far, and however far the application has got, the calls of the two endpoints and a network that
  delivers what is sent from now on bring the whole stream across. The proof follows the protocol:
  the oldest outstanding segment is sent again by the timer and moves the receiver on, the
  acknowledgment takes it out of the sender's queue, and an empty queue lets \<open>fill_window\<close> send
  the next part of the stream.
\<close>

section \<open>Runs of a transfer\<close>

lemma Transfer_reaches_trans:
  assumes "Transfer_reaches S t1 t2" "Transfer_reaches S t2 t3"
  shows "Transfer_reaches S t1 t3"
  using assms(2,1) by (induction rule: Transfer_reaches.induct) (auto intro: Transfer_reaches.step)

text \<open>A continuation to a state that satisfies the invariant and a given property.\<close>

definition Transfer_can :: "size_t \<Rightarrow> size_t \<Rightarrow> bytes \<Rightarrow> WrappingInt32 \<Rightarrow> Transfer \<Rightarrow> (Transfer \<Rightarrow> bool) \<Rightarrow> bool" where
  "Transfer_can send_capacity capacity S isn t P \<longleftrightarrow>
    (\<exists>t'. Transfer_reaches S t t' \<and> Transfer_inv send_capacity capacity S isn t' \<and> P t')"

lemma Transfer_can_stay: "Transfer_inv m c S isn t \<Longrightarrow> P t \<Longrightarrow> Transfer_can m c S isn t P"
  unfolding Transfer_can_def using Transfer_reaches.start by blast

lemma Transfer_can_step:
  assumes "Transfer_inv m c S isn t" "Transfer_allowed S t e" "\<And>t'. Transfer_step t e = Inr t' \<Longrightarrow> P t'"
  shows "Transfer_can m c S isn t P"
proof -
  obtain t' where "Transfer_step t e = Inr t'" "Transfer_inv m c S isn t'"
    using Transfer_step_safe [OF assms(1,2)] by blast
  then show ?thesis
    unfolding Transfer_can_def using assms(2,3) Transfer_reaches.start Transfer_reaches.step by blast
qed

lemma Transfer_can_trans:
  assumes "Transfer_can m c S isn t Q" "\<And>t'. Transfer_inv m c S isn t' \<Longrightarrow> Q t' \<Longrightarrow> Transfer_can m c S isn t' P"
  shows "Transfer_can m c S isn t P"
  using assms unfolding Transfer_can_def by (meson Transfer_reaches_trans)

lemma Transfer_can_mono:
  "Transfer_can m c S isn t Q \<Longrightarrow> (\<And>t'. Transfer_inv m c S isn t' \<Longrightarrow> Q t' \<Longrightarrow> P t') \<Longrightarrow> Transfer_can m c S isn t P"
  unfolding Transfer_can_def by blast

section \<open>The oldest segment gets across\<close>

text \<open>The part of the sender that only \<open>fill_window\<close>, the application and acknowledgments change.\<close>

definition same_flight :: "Transfer \<Rightarrow> Transfer \<Rightarrow> bool" where
  "same_flight t t' \<longleftrightarrow> map ss_seg (snd_seg_queue (tr_snd t')) = map ss_seg (snd_seg_queue (tr_snd t)) \<and>
    snd_next_seqno (tr_snd t') = snd_next_seqno (tr_snd t) \<and> snd_bytes_in_flight (tr_snd t') = snd_bytes_in_flight (tr_snd t) \<and>
    snd_stream (tr_snd t') = snd_stream (tr_snd t)"

lemma same_flight_refl [simp]: "same_flight t t"
  by (simp add: same_flight_def)

lemma same_flight_trans: "same_flight t1 t2 \<Longrightarrow> same_flight t2 t3 \<Longrightarrow> same_flight t1 t3"
  by (simp add: same_flight_def)

lemma same_flight_una: "same_flight t t' \<Longrightarrow> TCPSender_una (tr_snd t') = TCPSender_una (tr_snd t)"
  by (simp add: same_flight_def TCPSender_una_def)

text \<open>The owner of the receiver reads all there is, which opens the window.\<close>

lemma Transfer_can_read:
  assumes inv: "Transfer_inv m c S isn t"
  shows "Transfer_can m c S isn t (\<lambda>t'. tr_sender t' = tr_sender t \<and>
    ByteStream_content (TCPReceiver_stream_out (tr_rcv t')) = [] \<and>
    TCPReceiver_received (tr_rcv t') = TCPReceiver_received (tr_rcv t))"
proof (rule Transfer_can_step [OF inv])
  let ?out = "TCPReceiver_stream_out (tr_rcv t)"
  let ?len = "ByteStream_buffer_size ?out"
  show "Transfer_allowed S t (ReceiverRead ?len)"
    by simp
  fix t'
  assume step: "Transfer_step t (ReceiverRead ?len) = Inr t'"
  then obtain l where l: "TCPReceiver_log_step (tr_receiver t) (StreamRead ?len) = Inr l" "t' = t\<lparr>tr_receiver := l\<rparr>"
    by (auto simp: rbind_Inr_iff)
  have out: "ByteStream_inv ?out"
    using TCPReceiver_out_inv [OF Transfer_invD(7) [OF inv]] .
  then have len: "?len = length (ByteStream_content ?out)"
    by simp
  have "ByteStream_content (TCPReceiver_stream_out (tl_receiver l)) = []"
    using l(1) ByteStream_read_ok [OF out, of ?len] len
    by (fastforce simp: rbind_Inr_iff TCPReceiver_set_stream_out_def TCPReceiver_stream_out_def)
  then show "tr_sender t' = tr_sender t \<and> ByteStream_content (TCPReceiver_stream_out (tr_rcv t')) = [] \<and>
      TCPReceiver_received (tr_rcv t') = TCPReceiver_received (tr_rcv t)"
    using l TCPReceiver_read_keeps(1) [OF l(1)] by simp
qed

text \<open>The timer runs out, and the oldest segment is on its way again.\<close>

lemma Transfer_can_retransmit:
  assumes inv: "Transfer_inv m c S isn t" and queue: "snd_seg_queue (tr_snd t) = front # queue"
  shows "Transfer_can m c S isn t (\<lambda>t'. same_flight t t' \<and> tr_receiver t' = tr_receiver t \<and>
    ss_seg front \<in> set (sl_sent (tr_sender t')))"
proof (rule Transfer_can_trans)
  define ms where "ms = W64 - 1 - snd_last_tick_time (tr_snd t) mod W64"
  have "snd_last_tick_time (tr_snd t) mod W64 + ms = W64 - 1"
    unfolding ms_def using mod_less_divisor [OF W64_pos, of "snd_last_tick_time (tr_snd t)"] by linarith
  then have late: "add64 (snd_last_tick_time (tr_snd t)) ms = W64 - 1"
    unfolding add64_def by (metis W64_pos diff_less mod_add_left_eq mod_less zero_less_one)
  have "add64 a b \<le> W64 - 1" for a b
    using add64_less [of a b] by linarith
  then have "ss_seg front \<in> set (snd_segments_out (TCPSender_tick (tr_snd t) ms))"
    "map ss_seg (snd_seg_queue (TCPSender_tick (tr_snd t) ms)) = map ss_seg (snd_seg_queue (tr_snd t))"
    "snd_next_seqno (TCPSender_tick (tr_snd t) ms) = snd_next_seqno (tr_snd t)"
    "snd_bytes_in_flight (TCPSender_tick (tr_snd t) ms) = snd_bytes_in_flight (tr_snd t)"
    "snd_stream (TCPSender_tick (tr_snd t) ms) = snd_stream (tr_snd t)"
    using queue late by (simp_all add: TCPSender_tick_def Let_def)
  then show "Transfer_can m c S isn t (\<lambda>t'. same_flight t t' \<and> tr_receiver t' = tr_receiver t \<and>
      ss_seg front \<in> set (snd_segments_out (tr_snd t')))"
    by (intro Transfer_can_step [OF inv, of "SenderCall (Tick ms)"]) (auto simp: same_flight_def)
next
  fix t'
  assume inv': "Transfer_inv m c S isn t'" and t': "same_flight t t' \<and> tr_receiver t' = tr_receiver t \<and>
      ss_seg front \<in> set (snd_segments_out (tr_snd t'))"
  show "Transfer_can m c S isn t' (\<lambda>t'. same_flight t t' \<and> tr_receiver t' = tr_receiver t \<and>
      ss_seg front \<in> set (sl_sent (tr_sender t')))"
    by (rule Transfer_can_step [OF inv', of "SenderCall TakeSegments"]) (use t' in \<open>auto simp: same_flight_def\<close>)
qed

text \<open>A segment that begins with something received and ends with something missing moves the receiver on.\<close>

lemma TCPReceiver_first_syn_received:
  assumes inv: "TCPReceiver_inv c S isn delivered rcv" and "rcv_isn rcv = None"
    and seg: "th_syn (ts_header seg)" "th_seqno (ts_header seg) = isn" "Buffer_str (ts_payload seg) = []" "\<not> th_fin (ts_header seg)"
  shows "\<exists>rcv'. TCPReceiver_segment_received rcv seg = Inr rcv' \<and> 0 < TCPReceiver_received rcv'"
proof -
  have I: "rcv = TCPReceiver_make c" "c < W64" "length S + 3 < W64"
    using assms(1,2) by (auto simp: TCPReceiver_inv_def)
  obtain r where "push_back_wrap_string seg isn [] (StreamReassembler_make c) False = Inr r"
    by (rule TCPReceiver_first_syn [OF I(2,3) _ seg(1,2), of False]) simp_all
  then show ?thesis
    using I(1) seg by (simp add: TCPReceiver_segment_received_eq TCPReceiver_make_def TCPReceiver_received_def)
qed

lemma TCPReceiver_open_facts:
  assumes inv: "TCPReceiver_inv c S isn delivered rcv" and "0 < TCPReceiver_received rcv" "TCPReceiver_received rcv < length S + 2"
  shows "rcv_isn rcv = Some isn" "StreamReassembler_inv 1 S delivered (rcv_reassembler rcv)"
    "StreamReassembler_settled (rcv_reassembler rcv)" "sr_top_pointer (rcv_reassembler rcv) = TCPReceiver_received rcv"
    "ByteStream_content (TCPReceiver_stream_out rcv) = [] \<Longrightarrow> StreamReassembler_window (rcv_reassembler rcv) = c"
proof -
  have some: "rcv_isn rcv \<noteq> None"
    using assms(2) by (auto simp: TCPReceiver_received_def split: if_splits)
  then show "rcv_isn rcv = Some isn" and I: "StreamReassembler_inv 1 S delivered (rcv_reassembler rcv)"
    "StreamReassembler_settled (rcv_reassembler rcv)"
    using inv by (auto simp: TCPReceiver_inv_def)
  show "sr_top_pointer (rcv_reassembler rcv) = TCPReceiver_received rcv"
    using I(1) some assms(3) by (auto simp: StreamReassembler_inv_def TCPReceiver_received_def TCPReceiver_stream_out_def)
  show "ByteStream_content (TCPReceiver_stream_out rcv) = [] \<Longrightarrow> StreamReassembler_window (rcv_reassembler rcv) = c"
    using inv some by (auto simp: TCPReceiver_inv_def StreamReassembler_window_def TCPReceiver_stream_out_def)
qed

lemma TCPReceiver_front_progress:
  assumes inv: "TCPReceiver_inv c S isn delivered rcv" and c: "0 < c" and len: "length S + 3 < 2147483648"
    and empty: "ByteStream_content (TCPReceiver_stream_out rcv) = []"
    and seg: "sent_segment isn S a seg" "0 < a" and front: "a \<le> TCPReceiver_received rcv" "TCPReceiver_received rcv < a + seq_len seg"
  shows "\<exists>rcv'. TCPReceiver_segment_received rcv seg = Inr rcv' \<and> TCPReceiver_received rcv < TCPReceiver_received rcv'"
proof -
  let ?r = "rcv_reassembler rcv" and ?data = "Buffer_str (ts_payload seg)" and ?fin = "th_fin (ts_header seg)"
  note sb = sent_segment_bound [OF seg(1)]
  have recv: "0 < TCPReceiver_received rcv" "TCPReceiver_received rcv < length S + 2"
    using seg(2) front sb(1) by simp_all
  note F = TCPReceiver_open_facts [OF inv recv]
  have s: "\<not> th_syn (ts_header seg)" "th_seqno (ts_header seg) = wrap (of_nat a) isn" "is_substring S ?data (a - 1) ?fin"
    "seq_len seg = length ?data + of_bool ?fin"
    using seg by (auto simp: sent_segment_def seq_len_def)
  have bounds: "length S + 3 < W64" "a \<le> length S + 2"
    using inv sb(1) by (auto simp: TCPReceiver_inv_def)
  have fits: "seg_fits 1 S (Seg a ?data ?fin)"
    using is_substring_fits_at [OF s(3), of 1] seg(2) by simp
  have bound: "a + length ?data + 1 < W64"
    using sb(1) s(4) bounds(1) by simp
  have at: "push_back_wrap_string seg isn ?data ?r ?fin = StreamReassembler_push_substring ?r ?data a ?fin"
    by (rule push_back_at_index [OF s(1,2) TCPReceiver_near [OF inv _ bounds(2) len]])
      (use F(1,4) recv(2) bounds in simp_all)
  have run: "TCPReceiver_segment_received rcv seg = Inr rcv' \<Longrightarrow>
      \<exists>r. StreamReassembler_push_substring ?r ?data a ?fin = Inr r \<and> rcv_reassembler rcv' = r \<and> rcv_isn rcv' = Some isn" for rcv'
    using F(1) at by (auto simp: TCPReceiver_segment_received_eq rbind_Inr_iff Let_def)
  have "segment_of_stream S isn rcv seg"
    using s(1-3) seg(2) TCPReceiver_near [OF inv _ bounds(2) len] bounds(2) by (auto simp: segment_of_stream_def Let_def)
  then obtain rcv' where rcv': "TCPReceiver_segment_received rcv seg = Inr rcv'" "TCPReceiver_inv c S isn delivered rcv'"
    using TCPReceiver_segment_safe [OF inv] by blast
  obtain r where r: "StreamReassembler_push_substring ?r ?data a ?fin = Inr r" "rcv_reassembler rcv' = r" "rcv_isn rcv' = Some isn"
    using run [OF rcv'(1)] by blast
  then have rinv: "StreamReassembler_inv 1 S delivered r"
    using rcv'(2) by (auto simp: TCPReceiver_inv_def)
  have w: "StreamReassembler_window ?r = c"
    by (rule F(5) [OF empty])
  have "TCPReceiver_received rcv < TCPReceiver_received rcv'"
  proof (cases "TCPReceiver_received rcv < a + length ?data")
    case True
    obtain r' where "StreamReassembler_push_substring ?r ?data a ?fin = Inr r'"
      "min (a + length ?data) (sr_top_pointer ?r + StreamReassembler_window ?r) \<le> sr_top_pointer r'"
      by (rule StreamReassembler_push_progress [OF F(2) fits bound]) (use True front(1) F(4) in simp_all)
    then have "TCPReceiver_received rcv < sr_top_pointer r"
      using r(1) True w c F(4) by simp
    then show ?thesis
      using rinv r(2,3) by (auto simp: TCPReceiver_received_def TCPReceiver_stream_out_def StreamReassembler_inv_def)
  next
    case False
    then have fin: ?fin and top: "TCPReceiver_received rcv = a + length ?data"
      using front(2) s(4) by (auto simp: of_bool_def split: if_splits)
    have all: "sr_top_pointer ?r = 1 + length S"
      using top fin sb(3) s(4) F(4) by simp
    obtain r' where "StreamReassembler_push_substring ?r ?data a True = Inr r'" "bs_input_end (sr_output r')"
      by (rule StreamReassembler_push_end [OF F(2,3) all _ _ bound]) (use w c fits fin in simp_all)
    then have "bs_input_end (sr_output r)"
      using r(1) fin by simp
    then show ?thesis
      using rinv r(2,3) recv(2) by (auto simp: TCPReceiver_received_def TCPReceiver_stream_out_def StreamReassembler_inv_def)
  qed
  then show ?thesis
    using rcv'(1) by blast
qed

lemma Transfer_front:
  assumes inv: "Transfer_inv m c S isn t" and queue: "map ss_seg (snd_seg_queue (tr_snd t)) = seg # segs"
  shows "sent_segment isn S (TCPSender_una (tr_snd t)) seg" "0 < seq_len seg"
    "TCPSender_una (tr_snd t) + seq_len seg \<le> snd_next_seqno (tr_snd t)"
    "th_syn (ts_header seg) \<longrightarrow> Buffer_str (ts_payload seg) = [] \<and> \<not> th_fin (ts_header seg)"
proof -
  note D = Transfer_invD [OF inv]
  have out: "outstanding isn S (TCPSender_una (tr_snd t)) (seg # segs) (snd_next_seqno (tr_snd t))"
    using TCPSender_outstanding [OF D(5)] queue D(6) by (simp add: TCPSender_una_def)
  then show "sent_segment isn S (TCPSender_una (tr_snd t)) seg" "0 < seq_len seg"
    "TCPSender_una (tr_snd t) + seq_len seg \<le> snd_next_seqno (tr_snd t)"
    by (auto dest!: outstanding_sum)
  have "seg \<in> set (map ss_seg (snd_seg_queue (tr_snd t)))"
    unfolding queue by simp
  then show "th_syn (ts_header seg) \<longrightarrow> Buffer_str (ts_payload seg) = [] \<and> \<not> th_fin (ts_header seg)"
    using D(3) by (simp add: TCPSender_opening_def sent_upto_def)
qed

lemma Transfer_can_deliver:
  assumes inv: "Transfer_inv m c S isn t" and c: "0 < c" and queue: "map ss_seg (snd_seg_queue (tr_snd t)) = seg # segs"
    and sent: "seg \<in> set (sl_sent (tr_sender t))" and empty: "ByteStream_content (TCPReceiver_stream_out (tr_rcv t)) = []"
    and missing: "TCPReceiver_received (tr_rcv t) < TCPSender_una (tr_snd t) + seq_len seg"
  shows "Transfer_can m c S isn t (\<lambda>t'. tr_sender t' = tr_sender t \<and>
    TCPReceiver_received (tr_rcv t) < TCPReceiver_received (tr_rcv t'))"
proof -
  note D = Transfer_invD [OF inv] and F = Transfer_front [OF inv queue]
  obtain i where i: "i < length (sl_sent (tr_sender t))" "sl_sent (tr_sender t) ! i = seg"
    using sent by (auto simp: in_set_conv_nth)
  have syn: "th_syn (ts_header seg) \<longleftrightarrow> TCPSender_una (tr_snd t) = 0"
    using F(1) by (simp add: sent_segment_def)
  have start: "TCPReceiver_received (tr_rcv t) = 0" if "th_syn (ts_header seg)"
    using that F(4) missing syn by (auto simp: seq_len_def)
  then have none: "rcv_isn (tr_rcv t) = None" if "th_syn (ts_header seg)"
    using that by (auto simp: TCPReceiver_received_def split: if_splits)
  then have allowed: "Transfer_allowed S t (SegmentDelivered i)"
    using i D(7) by (auto simp: TCPReceiver_inv_def TCPReceiver_stream_out_def TCPReceiver_make_def
      StreamReassembler_make_def ByteStream_make_fields)
  have "\<exists>rcv. TCPReceiver_segment_received (tr_rcv t) seg = Inr rcv \<and> TCPReceiver_received (tr_rcv t) < TCPReceiver_received rcv"
  proof (cases "th_syn (ts_header seg)")
    case True
    then have "th_seqno (ts_header seg) = isn"
      using F(1) syn by (simp add: sent_segment_def)
    then show ?thesis
      using TCPReceiver_first_syn_received [OF D(7) none [OF True] True] F(4) True start by simp
  next
    case False
    then show ?thesis
      using TCPReceiver_front_progress [OF D(7) c D(4) empty F(1) _ D(8) missing] syn by simp
  qed
  then show ?thesis
    using i by (intro Transfer_can_step [OF inv allowed]) (auto simp: rbind_Inr_iff)
qed

lemma Transfer_can_advance:
  assumes inv: "Transfer_inv m c S isn t" and c: "0 < c" and queue: "map ss_seg (snd_seg_queue (tr_snd t)) = seg # segs"
    and missing: "TCPReceiver_received (tr_rcv t) < TCPSender_una (tr_snd t) + seq_len seg"
  shows "Transfer_can m c S isn t (\<lambda>t'. same_flight t t' \<and> TCPReceiver_received (tr_rcv t) < TCPReceiver_received (tr_rcv t'))"
proof (rule Transfer_can_trans [OF Transfer_can_read [OF inv]])
  fix t1
  assume inv1: "Transfer_inv m c S isn t1" and t1: "tr_sender t1 = tr_sender t \<and>
    ByteStream_content (TCPReceiver_stream_out (tr_rcv t1)) = [] \<and> TCPReceiver_received (tr_rcv t1) = TCPReceiver_received (tr_rcv t)"
  obtain front queue where q: "snd_seg_queue (tr_snd t1) = front # queue" "ss_seg front = seg"
    using queue t1 by auto
  show "Transfer_can m c S isn t1 (\<lambda>t'. same_flight t t' \<and> TCPReceiver_received (tr_rcv t) < TCPReceiver_received (tr_rcv t'))"
  proof (rule Transfer_can_trans [OF Transfer_can_retransmit [OF inv1 q(1)]])
    fix t2
    assume inv2: "Transfer_inv m c S isn t2"
      and t2: "same_flight t1 t2 \<and> tr_receiver t2 = tr_receiver t1 \<and> ss_seg front \<in> set (sl_sent (tr_sender t2))"
    have same: "same_flight t t2"
      using t1 t2 by (simp add: same_flight_def)
    show "Transfer_can m c S isn t2 (\<lambda>t'. same_flight t t' \<and> TCPReceiver_received (tr_rcv t) < TCPReceiver_received (tr_rcv t'))"
      by (rule Transfer_can_mono [OF Transfer_can_deliver [OF inv2 c, of seg segs]])
        (use same same_flight_una [OF same] t1 t2 q queue missing in \<open>auto simp: same_flight_def\<close>)
  qed
qed

lemma Transfer_can_receive_front:
  assumes "Transfer_inv m c S isn t" and c: "0 < c" and "map ss_seg (snd_seg_queue (tr_snd t)) = seg # segs"
  shows "Transfer_can m c S isn t (\<lambda>t'. same_flight t t' \<and>
    TCPSender_una (tr_snd t) + seq_len seg \<le> TCPReceiver_received (tr_rcv t'))"
  using assms
proof (induction "length S + 2 - TCPReceiver_received (tr_rcv t)" arbitrary: t rule: less_induct)
  case less
  show ?case
  proof (cases "TCPSender_una (tr_snd t) + seq_len seg \<le> TCPReceiver_received (tr_rcv t)")
    case True
    then show ?thesis
      using less.prems(1) by (intro Transfer_can_stay) simp_all
  next
    case False
    then have missing: "TCPReceiver_received (tr_rcv t) < TCPSender_una (tr_snd t) + seq_len seg"
      by simp
    show ?thesis
    proof (rule Transfer_can_trans [OF Transfer_can_advance [OF less.prems missing]])
      fix t1
      assume inv1: "Transfer_inv m c S isn t1"
        and t1: "same_flight t t1 \<and> TCPReceiver_received (tr_rcv t) < TCPReceiver_received (tr_rcv t1)"
      have closer: "length S + 2 - TCPReceiver_received (tr_rcv t1) < length S + 2 - TCPReceiver_received (tr_rcv t)"
        using t1 TCPReceiver_received_bound [OF Transfer_invD(7) [OF inv1]] by linarith
      have q1: "map ss_seg (snd_seg_queue (tr_snd t1)) = seg # segs"
        using t1 less.prems(3) by (simp add: same_flight_def)
      show "Transfer_can m c S isn t1 (\<lambda>t'. same_flight t t' \<and>
          TCPSender_una (tr_snd t) + seq_len seg \<le> TCPReceiver_received (tr_rcv t'))"
        by (rule Transfer_can_mono [OF less.hyps [OF closer inv1 c q1]])
          (use t1 same_flight_una [of t t1] in \<open>auto intro: same_flight_trans\<close>)
    qed
  qed
qed

section \<open>The queue is emptied\<close>

lemma TCPSender_ack_front:
  assumes inv: "TCPSender_inv S s" and queue: "map ss_seg (snd_seg_queue s) = seg # segs"
    and k: "TCPSender_una s + seq_len seg \<le> k" "k \<le> snd_next_seqno s" and len: "length S + 3 < 2147483648"
  shows "TCPSender_una s + seq_len seg \<le> TCPSender_una (TCPSender_ack_received s (wrap (of_nat k) (snd_isn s)) w)"
proof -
  note I = inv [unfolded TCPSender_inv_def]
  have "\<bar>int k - int (snd_next_seqno s)\<bar> < 2147483648" "k < W64" "snd_next_seqno s < W64"
    using k(2) TCPSender_next_bound [OF inv] len W64_gt(1) by linarith+
  then have ack: "unat (unwrap (wrap (of_nat k) (snd_isn s)) (snd_isn s) (of_nat (snd_next_seqno s))) = k"
    by (rule unwrap_index)
  obtain n where n: "TCPSender_ack_count s k = Suc n"
    using k(1) queue by (simp add: TCPSender_ack_count_def TCPSender_una_def)
  define d where "d = sum_list (map seq_len (map ss_seg (take (Suc n) (snd_seg_queue s))))"
  have "seq_len seg \<le> d"
    using queue unfolding d_def take_map [symmetric] by simp
  moreover have "sum_list (map seq_len (map ss_seg (snd_seg_queue s))) =
      d + sum_list (map seq_len (map ss_seg (drop (Suc n) (snd_seg_queue s))))"
    unfolding d_def by (metis append_take_drop_id map_append sum_list_append)
  then have "d \<le> snd_bytes_in_flight s"
    using outstanding_sum [OF TCPSender_outstanding [OF inv]] I by linarith
  ultimately have "TCPSender_una s + seq_len seg \<le> snd_next_seqno s - (snd_bytes_in_flight s - d)"
    using I by (simp add: TCPSender_una_def)
  then show ?thesis
    using k(2) unfolding TCPSender_ack_received_eq [OF inv] ack Let_def n
    by (simp add: TCPSender_una_def TCPSender_restart_timer_fields TCPSender_acked_def d_def Let_def)
qed

lemma Transfer_can_ack:
  assumes inv: "Transfer_inv m c S isn t" and queue: "map ss_seg (snd_seg_queue (tr_snd t)) = seg # segs"
    and recv: "TCPSender_una (tr_snd t) + seq_len seg \<le> TCPReceiver_received (tr_rcv t)"
  shows "Transfer_can m c S isn t (\<lambda>t'. snd_next_seqno (tr_snd t') = snd_next_seqno (tr_snd t) \<and>
    snd_stream (tr_snd t') = snd_stream (tr_snd t) \<and> TCPSender_una (tr_snd t) < TCPSender_una (tr_snd t'))"
proof -
  note D = Transfer_invD [OF inv] and F = Transfer_front [OF inv queue]
  let ?k = "TCPReceiver_received (tr_rcv t)"
  have "?k \<noteq> 0"
    using recv F(2) by simp
  then obtain ackno w where a: "TCPReceiver_acknowledge (tr_rcv t) = [(ackno, w)]"
    using TCPReceiver_ackno_eq [OF D(7)] by (auto simp: TCPReceiver_acknowledge_def TCPReceiver_received_def split: if_splits)
  then have ackno: "ackno = wrap (of_nat ?k) (snd_isn (tr_snd t))"
    using TCPReceiver_acknowledge_eq [OF D(7), of ackno w] D(6) by simp
  have k: "?k \<le> snd_next_seqno (tr_snd t)" "?k \<le> length S + 2"
    using TCPReceiver_within_received [OF D(7)] TCPReceiver_received_bound [OF D(7)] inv by (simp_all add: Transfer_inv_def)
  show ?thesis
  proof (rule Transfer_can_trans)
    show "Transfer_can m c S isn t (\<lambda>t'. tr_sender t' = tr_sender t \<and> tr_acks t' = tr_acks t @ [(ackno, w)])"
      by (rule Transfer_can_step [OF inv, of ReceiverAcks]) (use a in auto)
  next
    fix t1
    assume inv1: "Transfer_inv m c S isn t1" and t1: "tr_sender t1 = tr_sender t \<and> tr_acks t1 = tr_acks t @ [(ackno, w)]"
    show "Transfer_can m c S isn t1 (\<lambda>t'. snd_next_seqno (tr_snd t') = snd_next_seqno (tr_snd t) \<and>
        snd_stream (tr_snd t') = snd_stream (tr_snd t) \<and> TCPSender_una (tr_snd t) < TCPSender_una (tr_snd t'))"
    proof (rule Transfer_can_step [OF inv1, of "AckDelivered (length (tr_acks t))"])
      fix t'
      assume "Transfer_step t1 (AckDelivered (length (tr_acks t))) = Inr t'"
      then have "tr_snd t' = TCPSender_ack_received (tr_snd t) ackno w"
        using t1 by auto
      then show "snd_next_seqno (tr_snd t') = snd_next_seqno (tr_snd t) \<and> snd_stream (tr_snd t') = snd_stream (tr_snd t) \<and>
          TCPSender_una (tr_snd t) < TCPSender_una (tr_snd t')"
        using ackno TCPSender_ack_una(2,4) [OF D(5,3) k(2) D(4)] TCPSender_ack_front [OF D(5) queue recv k(1) D(4), of w] F(2)
        by auto
    qed (use t1 in simp)
  qed
qed

lemma Transfer_can_drain:
  assumes "Transfer_inv m c S isn t" and c: "0 < c"
  shows "Transfer_can m c S isn t (\<lambda>t'. snd_next_seqno (tr_snd t') = snd_next_seqno (tr_snd t) \<and>
    snd_stream (tr_snd t') = snd_stream (tr_snd t) \<and> TCPSender_una (tr_snd t') = snd_next_seqno (tr_snd t'))"
  using assms
proof (induction "snd_next_seqno (tr_snd t) - TCPSender_una (tr_snd t)" arbitrary: t rule: less_induct)
  case less
  note inv = less.prems(1)
  have out: "outstanding isn S (TCPSender_una (tr_snd t)) (map ss_seg (snd_seg_queue (tr_snd t))) (snd_next_seqno (tr_snd t))"
    using TCPSender_outstanding [OF Transfer_invD(5) [OF inv]] Transfer_invD(6) [OF inv] by (simp add: TCPSender_una_def)
  show ?case
  proof (cases "map ss_seg (snd_seg_queue (tr_snd t))")
    case Nil
    then show ?thesis
      using inv out by (intro Transfer_can_stay) simp_all
  next
    case (Cons seg segs)
    show ?thesis
    proof (rule Transfer_can_trans [OF Transfer_can_receive_front [OF inv c Cons]])
      fix t1
      assume inv1: "Transfer_inv m c S isn t1"
        and t1: "same_flight t t1 \<and> TCPSender_una (tr_snd t) + seq_len seg \<le> TCPReceiver_received (tr_rcv t1)"
      have q1: "map ss_seg (snd_seg_queue (tr_snd t1)) = seg # segs" and una1: "TCPSender_una (tr_snd t1) = TCPSender_una (tr_snd t)"
        and same: "snd_next_seqno (tr_snd t1) = snd_next_seqno (tr_snd t)" "snd_stream (tr_snd t1) = snd_stream (tr_snd t)"
        using t1 Cons same_flight_una by (auto simp: same_flight_def)
      show "Transfer_can m c S isn t1 (\<lambda>t'. snd_next_seqno (tr_snd t') = snd_next_seqno (tr_snd t) \<and>
          snd_stream (tr_snd t') = snd_stream (tr_snd t) \<and> TCPSender_una (tr_snd t') = snd_next_seqno (tr_snd t'))"
      proof (rule Transfer_can_trans [OF Transfer_can_ack [OF inv1 q1]])
        fix t2
        assume inv2: "Transfer_inv m c S isn t2" and t2: "snd_next_seqno (tr_snd t2) = snd_next_seqno (tr_snd t1) \<and>
          snd_stream (tr_snd t2) = snd_stream (tr_snd t1) \<and> TCPSender_una (tr_snd t1) < TCPSender_una (tr_snd t2)"
        have "TCPSender_una (tr_snd t) < snd_next_seqno (tr_snd t)"
          using Transfer_front(2,3) [OF inv Cons] by simp
        then have closer: "snd_next_seqno (tr_snd t2) - TCPSender_una (tr_snd t2) <
            snd_next_seqno (tr_snd t) - TCPSender_una (tr_snd t)"
          using t2 same una1 by (simp add: diff_less_mono2)
        show "Transfer_can m c S isn t2 (\<lambda>t'. snd_next_seqno (tr_snd t') = snd_next_seqno (tr_snd t) \<and>
            snd_stream (tr_snd t') = snd_stream (tr_snd t) \<and> TCPSender_una (tr_snd t') = snd_next_seqno (tr_snd t'))"
          using less.hyps [OF closer inv2 c] t2 same by simp
      qed (use t1 una1 in simp)
    qed
  qed
qed

section \<open>The stream is sent on\<close>

lemma TCPSender_fill_loop_round:
  assumes "TCPSender_fill_loop is_fin buf h index readable s = Inr s'"
  obtains piece h1 s1 where "TCPSender_send_piece is_fin piece h readable s = (h1, s1)"
    "if MAX_PAYLOAD_SIZE < readable
     then TCPSender_fill_loop is_fin buf h1 (add64 index 1) (readable - MAX_PAYLOAD_SIZE) s1 = Inr s' else s' = s1"
proof -
  obtain piece where piece: "(let (h, s) = TCPSender_send_piece is_fin piece h readable s in
      if MAX_PAYLOAD_SIZE < readable
      then TCPSender_fill_loop is_fin buf h (add64 index 1) (readable - MAX_PAYLOAD_SIZE) s else Inr s) = Inr s'"
    using assms unfolding TCPSender_fill_loop.simps [of is_fin buf h index] rbind_Inr_iff by blast
  obtain h1 s1 where "TCPSender_send_piece is_fin piece h readable s = (h1, s1)"
    by fastforce
  with piece show thesis
    by (intro that [of piece h1 s1]) (simp_all split: if_splits)
qed

text \<open>The call does nothing, only reads, or sends what it has read, with a FIN only at the end of the stream.\<close>

lemma TCPSender_fill_cases:
  assumes run: "TCPSender_fill_window s = Inr s'" and inv: "ByteStream_inv (snd_stream s)"
  obtains r d st' where "r \<le> length (ByteStream_content (snd_stream s))" "ByteStream_read (snd_stream s) r = Inr (d, st')"
    "bs_input_end st' = bs_input_end (snd_stream s)"
    "s' = s \<or> s' = s\<lparr>snd_stream := st'\<rparr> \<or> (\<exists>h. (th_fin h \<longrightarrow> ByteStream_eof st') \<and>
      TCPSender_fill_loop (th_fin h) d h 0 r (s\<lparr>snd_stream := st'\<rparr>) = Inr s')"
proof -
  define r where "r = min (TCPSender_remaining_size s) (ByteStream_buffer_size (snd_stream s))"
  have r: "r \<le> length (ByteStream_content (snd_stream s))"
    using inv by (simp add: r_def)
  obtain d st' where read: "ByteStream_read (snd_stream s) r = Inr (d, st')" and ended: "bs_input_end st' = bs_input_end (snd_stream s)"
    by (rule ByteStream_read_ok [OF inv r])
  let ?h = "TCPHeader_default\<lparr>th_syn := \<not> snd_is_syn_received s\<rparr>"
  have h: "\<not> th_fin ?h"
    by (simp add: TCPHeader_default_def)
  have "s' = s \<or> s' = s\<lparr>snd_stream := st'\<rparr> \<or> (\<exists>h. (th_fin h \<longrightarrow> ByteStream_eof st') \<and>
      TCPSender_fill_loop (th_fin h) d h 0 r (s\<lparr>snd_stream := st'\<rparr>) = Inr s')"
  proof (cases "ByteStream_eof st' \<and> \<not> snd_is_fin_received s \<and> add64 r 1 \<le> TCPSender_remaining_size s")
    case True
    then show ?thesis
      using run read by (simp add: TCPSender_fill_window_def r_def [symmetric] Let_def split: if_splits)
        (auto intro!: exI [of _ "?h\<lparr>th_fin := True\<rparr>"])
  next
    case False
    then show ?thesis
      using run read h by (auto simp: TCPSender_fill_window_def r_def [symmetric] Let_def split: if_splits intro!: exI [of _ ?h])
  qed
  then show thesis
    by (rule that [OF r read ended])
qed

lemma TCPSender_fill_tight:
  assumes run: "TCPSender_fill_window s = Inr s'" and inv: "ByteStream_inv (snd_stream s)" and "ByteStream_tight (snd_stream s)"
  shows "ByteStream_tight (snd_stream s')"
proof (rule TCPSender_fill_cases [OF run inv])
  fix r d st'
  assume read: "ByteStream_read (snd_stream s) r = Inr (d, st')" and cases: "s' = s \<or> s' = s\<lparr>snd_stream := st'\<rparr> \<or>
    (\<exists>h. (th_fin h \<longrightarrow> ByteStream_eof st') \<and> TCPSender_fill_loop (th_fin h) d h 0 r (s\<lparr>snd_stream := st'\<rparr>) = Inr s')"
  have "ByteStream_tight st'"
    by (rule ByteStream_tight_read [OF inv assms(3) read])
  then show ?thesis
    using cases assms(3) by (auto dest!: wheneverD [OF TCPSender_fill_loop_stream])
qed

lemma TCPSender_fill_advances:
  assumes inv: "TCPSender_inv S s" and op: "TCPSender_opening S s" and tight: "ByteStream_tight (snd_stream s)"
    and idle: "TCPSender_una s = snd_next_seqno s" "0 < snd_next_seqno s" "\<not> TCPSender_fin_sent s"
    and more: "ByteStream_content (snd_stream s) \<noteq> [] \<or> bs_input_end (snd_stream s)" and run: "TCPSender_fill_window s = Inr s'"
  shows "snd_next_seqno s < snd_next_seqno s'"
proof -
  note I = inv [unfolded TCPSender_inv_def]
  have st: "TCPSender_stream_inv S (snd_stream s)" "ByteStream_inv (snd_stream s)"
    using I by (simp_all add: TCPSender_stream_inv_def)
  have flight: "snd_bytes_in_flight s = 0"
    using idle I by (auto simp: TCPSender_una_def)
  obtain segs where inv': "TCPSender_inv S s'" and s': "snd_window_size s' = snd_window_size s"
      "bs_bytes_written (snd_stream s') = bs_bytes_written (snd_stream s)" "bs_input_end (snd_stream s') = bs_input_end (snd_stream s)"
    and filled: "TCPSender_remaining_size s = 0 \<or> \<not> snd_is_syn_received s \<and> snd_seg_queue s \<noteq> [] \<or>
      snd_window_size s \<le> snd_bytes_in_flight s' \<or>
      ByteStream_content (snd_stream s') = [] \<and> (ByteStream_eof (snd_stream s') \<longrightarrow> TCPSender_fin_sent s')"
    by (rule TCPSender_fill_window_spec [OF inv]) (use run in auto)
  note I' = inv' [unfolded TCPSender_inv_def]
  have on: "TCPSender_una s' = TCPSender_una s" "snd_next_seqno s \<le> snd_next_seqno s'"
    using TCPSender_fill_goes_on [OF inv op run] by (simp_all add: TCPSender_goes_on_def)
  consider "snd_window_size s \<le> snd_bytes_in_flight s'"
    | "ByteStream_content (snd_stream s') = []" "ByteStream_eof (snd_stream s') \<longrightarrow> TCPSender_fin_sent s'"
    using filled flight idle(2) I by (auto simp: TCPSender_remaining_size_def)
  then show ?thesis
  proof cases
    case 1
    then have "0 < snd_bytes_in_flight s'" "snd_bytes_in_flight s' \<le> snd_next_seqno s'"
      using I I' by auto
    then show ?thesis
      using on idle(1) by (simp add: TCPSender_una_def)
  next
    case 2
    have st': "TCPSender_stream_inv S (snd_stream s')" "ByteStream_inv (snd_stream s')"
      using I' by (simp_all add: TCPSender_stream_inv_def)
    have read: "bs_bytes_read (snd_stream s') = bs_bytes_read (snd_stream s) + length (ByteStream_content (snd_stream s))"
      using TCPSender_stream_written [OF st(1)] TCPSender_stream_written [OF st'(1)] s'(2) 2(1) by simp
    moreover have "TCPSender_fin_sent s'" if "bs_input_end (snd_stream s)"
      using 2 that s'(3) ByteStream_tight_eof [OF st'(2) TCPSender_fill_tight [OF run st(2) tight]] by simp
    moreover have "1 + bs_bytes_read (snd_stream s) = snd_next_seqno s"
      "1 + bs_bytes_read (snd_stream s') + of_bool (TCPSender_fin_sent s') = snd_next_seqno s'"
      using I I' idle(2,3) on(2) by auto
    ultimately show ?thesis
      using more by (cases "ByteStream_content (snd_stream s)") auto
  qed
qed

text \<open>Sending with something to send.\<close>

lemma Transfer_can_fill:
  assumes inv: "Transfer_inv m c S isn t" and tight: "ByteStream_tight (snd_stream (tr_snd t))"
    and idle: "TCPSender_una (tr_snd t) = snd_next_seqno (tr_snd t)" "\<not> TCPSender_fin_sent (tr_snd t)"
    and more: "0 < snd_next_seqno (tr_snd t) \<longrightarrow>
      ByteStream_content (snd_stream (tr_snd t)) \<noteq> [] \<or> bs_input_end (snd_stream (tr_snd t))"
  shows "Transfer_can m c S isn t (\<lambda>t'. snd_next_seqno (tr_snd t) < snd_next_seqno (tr_snd t') \<and>
    ByteStream_tight (snd_stream (tr_snd t')))"
proof (rule Transfer_can_step [OF inv, of "SenderCall FillWindow"])
  fix t'
  note D = Transfer_invD [OF inv]
  assume "Transfer_step t (SenderCall FillWindow) = Inr t'"
  then have run: "TCPSender_fill_window (tr_snd t) = Inr (tr_snd t')"
    by (auto simp: rbind_Inr_iff)
  have "0 < snd_next_seqno (tr_snd t')"
    by (rule TCPSender_fill_window_spec [OF D(5)]) (use run in simp)
  then have "snd_next_seqno (tr_snd t) < snd_next_seqno (tr_snd t')"
    using TCPSender_fill_advances [OF D(5,3) tight idle(1) _ idle(2) _ run] more
    by (cases "snd_next_seqno (tr_snd t) = 0") auto
  moreover have "ByteStream_inv (snd_stream (tr_snd t))"
    using D(5) by (simp add: TCPSender_inv_def TCPSender_stream_inv_def)
  ultimately show "snd_next_seqno (tr_snd t) < snd_next_seqno (tr_snd t') \<and> ByteStream_tight (snd_stream (tr_snd t'))"
    using TCPSender_fill_tight [OF run _ tight] by simp
qed simp

text \<open>An application that has not written everything, or not ended the stream, does so.\<close>

lemma Transfer_can_write:
  assumes inv: "Transfer_inv m c S isn t" and m: "0 < m" and tight: "ByteStream_tight (snd_stream (tr_snd t))"
    and next0: "0 < snd_next_seqno (tr_snd t)" and fin: "\<not> TCPSender_fin_sent (tr_snd t)"
  shows "Transfer_can m c S isn t (\<lambda>t'. snd_next_seqno (tr_snd t') = snd_next_seqno (tr_snd t) \<and>
    TCPSender_una (tr_snd t') = TCPSender_una (tr_snd t) \<and> ByteStream_tight (snd_stream (tr_snd t')) \<and>
    \<not> TCPSender_fin_sent (tr_snd t') \<and>
    (ByteStream_content (snd_stream (tr_snd t')) \<noteq> [] \<or> bs_input_end (snd_stream (tr_snd t'))))"
proof -
  note D = Transfer_invD [OF inv]
  let ?st = "snd_stream (tr_snd t)"
  have st: "TCPSender_stream_inv S ?st" "ByteStream_inv ?st"
    using D(5) by (simp_all add: TCPSender_inv_def TCPSender_stream_inv_def)
  have cap: "bs_capacity ?st = m"
    using inv by (simp add: Transfer_inv_def)
  note written = TCPSender_stream_written [OF st(1)]
  have "bs_bytes_written ?st \<le> length S"
    using st(1) written by (simp add: TCPSender_stream_inv_def is_substring_def)
  then consider "ByteStream_content ?st \<noteq> [] \<or> bs_input_end ?st"
    | "ByteStream_content ?st = []" "\<not> bs_input_end ?st" "bs_bytes_written ?st = length S"
    | "ByteStream_content ?st = []" "\<not> bs_input_end ?st" "bs_bytes_written ?st < length S"
    by linarith
  then show ?thesis
  proof cases
    case 1
    then show ?thesis
      using inv tight fin by (intro Transfer_can_stay) simp_all
  next
    case 2
    then show ?thesis
      using tight fin next0 by (intro Transfer_can_step [OF inv, of "SenderCall AppEnd"])
        (auto simp: TCPSender_end_input_def TCPSender_una_def TCPSender_fin_sent_def ByteStream_end_input_def
          ByteStream_tight_def)
  next
    case 3
    let ?data = "drop (bs_bytes_written ?st) S"
    obtain n st' where w: "ByteStream_write ?st ?data = (n, st')"
      by fastforce
    note W = ByteStream_write_spec [OF st(2) w]
    have room: "ByteStream_remaining_capacity ?st = m"
      using 3(1) cap st(2) by simp
    then have "ByteStream_tight st'"
      using ByteStream_tight_write [OF tight w] m by simp
    moreover have "ByteStream_content st' \<noteq> []"
      using W(1,2) 3 cap m by simp
    moreover have "TCPSender_write_ok S (tr_snd t) ?data"
      using 3 w W(1) by (auto simp: TCPSender_write_ok_def is_substring_def min_def)
    ultimately show ?thesis
      using fin next0 w by (intro Transfer_can_step [OF inv, of "SenderCall (AppWrite ?data)"])
        (auto simp: TCPSender_write_def TCPSender_una_def TCPSender_fin_sent_def)
  qed
qed

lemma Transfer_can_send_more:
  assumes inv: "Transfer_inv m c S isn t" and m: "0 < m" and tight: "ByteStream_tight (snd_stream (tr_snd t))"
    and idle: "TCPSender_una (tr_snd t) = snd_next_seqno (tr_snd t)" and open_stream: "snd_next_seqno (tr_snd t) < length S + 2"
  shows "Transfer_can m c S isn t (\<lambda>t'. snd_next_seqno (tr_snd t) < snd_next_seqno (tr_snd t') \<and>
    ByteStream_tight (snd_stream (tr_snd t')))"
proof -
  note I = Transfer_invD(5) [OF inv, unfolded TCPSender_inv_def TCPSender_stream_inv_def]
  have fin: "\<not> TCPSender_fin_sent (tr_snd t)"
  proof
    assume f: "TCPSender_fin_sent (tr_snd t)"
    then have "0 < snd_next_seqno (tr_snd t)"
      using I by auto
    then have "snd_next_seqno (tr_snd t) = length S + 2"
      using I f by auto
    then show False
      using open_stream by simp
  qed
  show ?thesis
  proof (cases "snd_next_seqno (tr_snd t) = 0")
    case True
    then show ?thesis
      using Transfer_can_fill [OF inv tight idle fin] by simp
  next
    case False
    then have "0 < snd_next_seqno (tr_snd t)"
      by simp
    then show ?thesis
      by (rule Transfer_can_trans [OF Transfer_can_write [OF inv m tight _ fin]])
        (use Transfer_can_fill idle in fastforce)
  qed
qed

lemma Transfer_can_send_all:
  assumes "Transfer_inv m c S isn t" and mc: "0 < m" "0 < c" and "ByteStream_tight (snd_stream (tr_snd t))"
  shows "Transfer_can m c S isn t (\<lambda>t'. TCPSender_una (tr_snd t') = length S + 2 \<and> snd_next_seqno (tr_snd t') = length S + 2)"
  using assms
proof (induction "length S + 2 - snd_next_seqno (tr_snd t)" arbitrary: t rule: less_induct)
  case less
  show ?case
  proof (rule Transfer_can_trans [OF Transfer_can_drain [OF less.prems(1,3)]])
    fix t1
    assume inv1: "Transfer_inv m c S isn t1" and t1: "snd_next_seqno (tr_snd t1) = snd_next_seqno (tr_snd t) \<and>
      snd_stream (tr_snd t1) = snd_stream (tr_snd t) \<and> TCPSender_una (tr_snd t1) = snd_next_seqno (tr_snd t1)"
    have bound: "snd_next_seqno (tr_snd t1) \<le> length S + 2"
      by (rule TCPSender_next_bound [OF Transfer_invD(5) [OF inv1]])
    show "Transfer_can m c S isn t1 (\<lambda>t'. TCPSender_una (tr_snd t') = length S + 2 \<and> snd_next_seqno (tr_snd t') = length S + 2)"
    proof (cases "snd_next_seqno (tr_snd t1) = length S + 2")
      case True
      then show ?thesis
        using inv1 t1 by (intro Transfer_can_stay) simp_all
    next
      case False
      have tight1: "ByteStream_tight (snd_stream (tr_snd t1))"
        using t1 less.prems(4) by simp
      show ?thesis
      proof (rule Transfer_can_trans [OF Transfer_can_send_more [OF inv1 mc(1) tight1]])
        fix t2
        assume inv2: "Transfer_inv m c S isn t2" and t2: "snd_next_seqno (tr_snd t1) < snd_next_seqno (tr_snd t2) \<and>
          ByteStream_tight (snd_stream (tr_snd t2))"
        have "length S + 2 - snd_next_seqno (tr_snd t2) < length S + 2 - snd_next_seqno (tr_snd t)"
          using t1 t2 bound False by linarith
        then show "Transfer_can m c S isn t2 (\<lambda>t'. TCPSender_una (tr_snd t') = length S + 2 \<and>
            snd_next_seqno (tr_snd t') = length S + 2)"
          using less.hyps [OF _ inv2 mc] t2 by blast
      qed (use t1 bound False in simp_all)
    qed
  qed
qed

text \<open>What a receiver with everything received has.\<close>

lemma TCPReceiver_received_all:
  assumes "TCPReceiver_inv c S isn delivered rcv" "TCPReceiver_received rcv = length S + 2"
  shows "bs_input_end (TCPReceiver_stream_out rcv)" "bs_bytes_written (TCPReceiver_stream_out rcv) = length S"
    "delivered @ ByteStream_content (TCPReceiver_stream_out rcv) = S"
proof -
  have "rcv_isn rcv \<noteq> None"
    using assms(2) by (auto simp: TCPReceiver_received_def split: if_splits)
  then have I: "StreamReassembler_inv 1 S delivered (rcv_reassembler rcv)"
    using assms(1) by (auto simp: TCPReceiver_inv_def)
  then show e: "bs_input_end (TCPReceiver_stream_out rcv)" "bs_bytes_written (TCPReceiver_stream_out rcv) = length S"
    using assms(2) \<open>rcv_isn rcv \<noteq> None\<close>
    by (auto simp: StreamReassembler_inv_def TCPReceiver_received_def TCPReceiver_stream_out_def of_bool_def split: if_splits)
  have "delivered @ ByteStream_content (TCPReceiver_stream_out rcv) = take (bs_bytes_written (TCPReceiver_stream_out rcv)) S"
    using I unfolding StreamReassembler_inv_def TCPReceiver_stream_out_def by argo
  then show "delivered @ ByteStream_content (TCPReceiver_stream_out rcv) = S"
    unfolding e(2) by simp
qed

lemma Transfer_received_all:
  assumes inv: "Transfer_inv m c S isn t" and "length S + 2 \<le> TCPSender_una (tr_snd t)"
  shows "TCPReceiver_received (tr_rcv t) = length S + 2"
  using Transfer_invD(8) [OF inv] TCPReceiver_received_bound [OF Transfer_invD(7) [OF inv]] assms(2) by simp

lemma Transfer_can_complete:
  assumes "Transfer_inv m c S isn t" "0 < m" "0 < c" "ByteStream_tight (snd_stream (tr_snd t))"
  shows "Transfer_can m c S isn t (\<lambda>t'. TCPSender_una (tr_snd t') = length S + 2 \<and> snd_next_seqno (tr_snd t') = length S + 2 \<and>
    tl_delivered (tr_receiver t') = S \<and> bs_input_end (TCPReceiver_stream_out (tr_rcv t')))"
proof (rule Transfer_can_trans [OF Transfer_can_send_all [OF assms]])
  fix t1
  assume inv1: "Transfer_inv m c S isn t1" and t1: "TCPSender_una (tr_snd t1) = length S + 2 \<and> snd_next_seqno (tr_snd t1) = length S + 2"
  show "Transfer_can m c S isn t1 (\<lambda>t'. TCPSender_una (tr_snd t') = length S + 2 \<and> snd_next_seqno (tr_snd t') = length S + 2 \<and>
      tl_delivered (tr_receiver t') = S \<and> bs_input_end (TCPReceiver_stream_out (tr_rcv t')))"
  proof (rule Transfer_can_mono [OF Transfer_can_read [OF inv1]])
    fix t2
    assume inv2: "Transfer_inv m c S isn t2" and t2: "tr_sender t2 = tr_sender t1 \<and>
      ByteStream_content (TCPReceiver_stream_out (tr_rcv t2)) = [] \<and>
      TCPReceiver_received (tr_rcv t2) = TCPReceiver_received (tr_rcv t1)"
    then show "TCPSender_una (tr_snd t2) = length S + 2 \<and> snd_next_seqno (tr_snd t2) = length S + 2 \<and>
        tl_delivered (tr_receiver t2) = S \<and> bs_input_end (TCPReceiver_stream_out (tr_rcv t2))"
      using t1 TCPReceiver_received_all [OF Transfer_invD(7) [OF inv2]] Transfer_received_all [OF inv2] by simp
  qed
qed

section \<open>A transfer that cannot end\<close>

text \<open>
  When the application has ended its stream with an empty buffer at the back of the deque, that
  buffer is never removed, \<open>eof\<close> stays false and no call ever sends the FIN.
\<close>

definition ByteStream_trailing :: "ByteStream \<Rightarrow> bool" where
  "ByteStream_trailing st \<longleftrightarrow> (\<exists>bl. bs_buffers st = bl @ [sponge_Buffer_of []])"

lemma remove_keeps_trailing:
  "list_all sponge_Buffer_wf bl \<Longrightarrow> n \<le> length (sponge_BufferList_content bl) \<Longrightarrow>
    sponge_BufferList_remove_prefix (bl @ [sponge_Buffer_of []]) n = Inr (bl', m) \<Longrightarrow>
    \<exists>rest. bl' = rest @ [sponge_Buffer_of []]"
proof (induction bl n rule: sponge_BufferList_remove_prefix.induct)
  case (2 b bl n)
  show ?case
  proof (cases "n = 0 \<or> sponge_Buffer_size b \<le> n")
    case True
    then show ?thesis
      using 2 by (auto simp: sponge_Buffer_size_eq split: if_splits)
  next
    case False
    with "2.prems" show ?thesis
      by (auto simp: rbind_Inr_iff)
  qed
qed auto

lemma ByteStream_trailing_read:
  assumes "ByteStream_inv st" "ByteStream_trailing st" "n \<le> length (ByteStream_content st)" "ByteStream_read st n = Inr (d, st')"
  shows "ByteStream_trailing st'"
proof -
  obtain bl where bl: "bs_buffers st = bl @ [sponge_Buffer_of []]"
    using assms(2) by (auto simp: ByteStream_trailing_def)
  then have "list_all sponge_Buffer_wf bl" "n \<le> length (sponge_BufferList_content bl)"
    using assms(1,3) by (simp_all add: ByteStream_inv_def sponge_BufferList_wf_def ByteStream_content_def)
  then show ?thesis
    using assms(4) bl remove_keeps_trailing [of bl n]
    by (auto simp: ByteStream_read_def Let_def rbind_Inr_iff ByteStream_trailing_def)
qed

definition TCPSender_stuck :: "TCPSender \<Rightarrow> bool" where
  "TCPSender_stuck s \<longleftrightarrow> bs_input_end (snd_stream s) \<and> ByteStream_trailing (snd_stream s) \<and> \<not> TCPSender_fin_sent s"

lemma TCPSender_fin_sent_cong:
  assumes "snd_is_fin_received s' = snd_is_fin_received s" "map ss_seg (snd_seg_queue s') = map ss_seg (snd_seg_queue s)"
  shows "TCPSender_fin_sent s' = TCPSender_fin_sent s"
proof -
  have "snd_seg_queue s' = [] \<longleftrightarrow> snd_seg_queue s = []"
    using assms(2) by (metis map_is_Nil_conv)
  moreover have "snd_seg_queue s' \<noteq> [] \<Longrightarrow> ss_seg (last (snd_seg_queue s')) = ss_seg (last (snd_seg_queue s))"
    using assms(2) calculation by (metis last_map)
  ultimately show ?thesis
    using assms(1) by (auto simp: TCPSender_fin_sent_def)
qed

lemma TCPSender_stuck_cong:
  assumes "snd_stream s' = snd_stream s" "TCPSender_fin_sent s' = TCPSender_fin_sent s"
  shows "TCPSender_stuck s' = TCPSender_stuck s"
  using assms by (simp add: TCPSender_stuck_def)

lemma TCPSender_fill_loop_fin:
  "TCPSender_fill_loop False buf h index readable s = Inr s' \<Longrightarrow> \<not> th_fin h \<Longrightarrow> \<not> TCPSender_fin_sent s \<Longrightarrow>
    \<not> TCPSender_fin_sent s'"
proof (induction False buf h index readable s rule: TCPSender_fill_loop.induct)
  case (1 buf h index readable s)
  obtain piece h1 s1 where run: "TCPSender_send_piece False piece h readable s = (h1, s1)"
      "if MAX_PAYLOAD_SIZE < readable
       then TCPSender_fill_loop False buf h1 (add64 index 1) (readable - MAX_PAYLOAD_SIZE) s1 = Inr s' else s' = s1"
    by (rule TCPSender_fill_loop_round [OF "1.prems"(1)])
  have "\<not> th_fin h1" "\<not> TCPSender_fin_sent s1"
    using run(1) "1.prems"(2,3) by (auto simp: TCPSender_send_piece_def TCPSender_fin_sent_def Let_def)
  then show ?case
    using run "1.hyps" [OF refl run(1) [symmetric]] by (auto split: if_splits)
qed

lemma TCPSender_stuck_fill:
  assumes inv: "TCPSender_inv S s" and stuck: "TCPSender_stuck s" and run: "TCPSender_fill_window s = Inr s'"
  shows "TCPSender_stuck s'"
proof -
  have st: "ByteStream_inv (snd_stream s)"
    using inv by (simp add: TCPSender_inv_def TCPSender_stream_inv_def)
  from run st show ?thesis
  proof (rule TCPSender_fill_cases)
    fix r d st'
    let ?s = "s\<lparr>snd_stream := st'\<rparr>"
    assume r: "r \<le> length (ByteStream_content (snd_stream s))" and read: "ByteStream_read (snd_stream s) r = Inr (d, st')"
      and ended: "bs_input_end st' = bs_input_end (snd_stream s)"
      and cases: "s' = s \<or> s' = ?s \<or>
        (\<exists>h. (th_fin h \<longrightarrow> ByteStream_eof st') \<and> TCPSender_fill_loop (th_fin h) d h 0 r ?s = Inr s')"
    have trailing: "ByteStream_trailing st'"
      using ByteStream_trailing_read [OF st _ r read] stuck by (simp add: TCPSender_stuck_def)
    then have eof: "\<not> ByteStream_eof st'"
      by (auto simp: ByteStream_trailing_def ByteStream_eof_def sponge_BufferList_empty_def)
    have stuck': "TCPSender_stuck ?s"
      using stuck trailing ended by (simp add: TCPSender_stuck_def TCPSender_fin_sent_def)
    have "TCPSender_stuck s'" if loop: "TCPSender_fill_loop False d h 0 r ?s = Inr s'" and h: "\<not> th_fin h" for h
      using stuck' wheneverD [OF TCPSender_fill_loop_stream loop] TCPSender_fill_loop_fin [OF loop h] by (simp add: TCPSender_stuck_def)
    then show ?thesis
      using cases eof stuck stuck' by auto
  qed
qed

lemma TCPSender_stuck_ack:
  assumes inv: "TCPSender_inv S s" and stuck: "TCPSender_stuck s"
  shows "TCPSender_stuck (TCPSender_ack_received s ackno w)"
proof -
  let ?s = "s\<lparr>snd_window_size := (if w = 0 then 1 else unat w), snd_is_window_zero := (w = 0)\<rparr>"
  have out: "outstanding (snd_isn s) S (snd_next_seqno s - snd_bytes_in_flight s) (map ss_seg (snd_seg_queue ?s)) (snd_next_seqno s)"
    using TCPSender_outstanding [OF inv] by simp
  have acked: "TCPSender_stuck (TCPSender_acked k ?s)" for k
    using stuck TCPSender_fin_sent_acked [OF out, of k]
    by (simp add: TCPSender_stuck_def TCPSender_fin_sent_def TCPSender_acked_def Let_def)
  have "TCPSender_stuck (TCPSender_restart_timer s') = TCPSender_stuck s'" for s'
    by (rule TCPSender_stuck_cong)
      (simp_all add: TCPSender_restart_timer_fields TCPSender_restart_timer_def TCPSender_fin_sent_def split: list.split)
  then show ?thesis
    using acked stuck by (simp add: TCPSender_ack_received_eq [OF inv] Let_def)
qed

lemma TCPSender_stuck_step:
  assumes linv: "TCPSender_log_inv S isn l" and stuck: "TCPSender_stuck (sl_sender l)"
    and ok: "TCPSender_op_ok S l c" and run: "TCPSender_log_step l c = Inr l'"
  shows "TCPSender_stuck (sl_sender l')"
proof -
  have inv: "TCPSender_inv S (sl_sender l)"
    using linv by (simp add: TCPSender_log_inv_def)
  show ?thesis
  proof (cases c)
    case (AppWrite data)
    then show ?thesis
      using ok stuck by (simp add: TCPSender_write_ok_def TCPSender_stuck_def)
  next
    case AppEnd
    then show ?thesis
      using run stuck by (auto simp: TCPSender_stuck_def TCPSender_end_input_def TCPSender_fin_sent_def
        ByteStream_end_input_def ByteStream_trailing_def)
  next
    case FillWindow
    then show ?thesis
      using run TCPSender_stuck_fill [OF inv stuck] by (auto simp: rbind_Inr_iff)
  next
    case (AckReceived ackno w)
    then show ?thesis
      using run stuck TCPSender_stuck_ack [OF inv stuck] by auto
  next
    case (Tick ms)
    have "TCPSender_stuck (TCPSender_tick (sl_sender l) ms) = TCPSender_stuck (sl_sender l)"
      by (rule TCPSender_stuck_cong [OF _ TCPSender_fin_sent_cong])
        (simp_all add: TCPSender_tick_def Let_def split: list.split)
    then show ?thesis
      using Tick run stuck by auto
  next
    case SendEmptySegment
    then show ?thesis
      using run stuck by (auto simp: TCPSender_stuck_def TCPSender_send_empty_segment_def TCPSender_fin_sent_def)
  next
    case TakeSegments
    then show ?thesis
      using run stuck by (auto simp: TCPSender_stuck_def TCPSender_fin_sent_def)
  qed
qed

lemma Transfer_stuck_step:
  assumes inv: "Transfer_inv m c S isn t" and ok: "Transfer_allowed S t e" and run: "Transfer_step t e = Inr t'"
    and stuck: "TCPSender_stuck (tr_snd t)"
  shows "TCPSender_stuck (tr_snd t')"
proof -
  note D = Transfer_invD [OF inv]
  have sender: "TCPSender_stuck (sl_sender l)" if "TCPSender_op_ok S (tr_sender t) c" "TCPSender_log_step (tr_sender t) c = Inr l" for c l
    using TCPSender_stuck_step [OF D(1) stuck that] .
  show ?thesis
  proof (cases e)
    case (SenderCall c)
    then have "TCPSender_op_ok S (tr_sender t) c"
      using ok by (cases c) simp_all
    then show ?thesis
      using sender run SenderCall by (auto simp: rbind_Inr_iff)
  next
    case (AckDelivered j)
    then show ?thesis
      using run TCPSender_stuck_ack [OF D(5) stuck] by auto
  qed (use run stuck in \<open>auto simp: rbind_Inr_iff\<close>)
qed

lemma Transfer_stuck_reaches:
  assumes "Transfer_reaches S t t'" "Transfer_inv m c S isn t" "TCPSender_stuck (tr_snd t)"
  shows "Transfer_inv m c S isn t' \<and> TCPSender_stuck (tr_snd t')"
  using assms
proof (induction rule: Transfer_reaches.induct)
  case (step t1 e t2)
  then have IH: "Transfer_inv m c S isn t1" "TCPSender_stuck (tr_snd t1)"
    by simp_all
  have "Transfer_inv m c S isn t2"
    using Transfer_step_safe [OF IH(1) step.hyps(2)] step.hyps(3) by auto
  then show ?case
    using Transfer_stuck_step [OF IH(1) step.hyps(2,3) IH(2)] by simp
qed simp

lemma Transfer_stuck_open:
  assumes inv: "Transfer_inv m c S isn t" and stuck: "TCPSender_stuck (tr_snd t)"
  shows "snd_next_seqno (tr_snd t) \<le> length S + 1" "\<not> bs_input_end (TCPReceiver_stream_out (tr_rcv t))"
proof -
  note D = Transfer_invD [OF inv]
  show nxt: "snd_next_seqno (tr_snd t) \<le> length S + 1"
    using D(5) stuck by (cases "snd_next_seqno (tr_snd t) = 0")
      (auto simp: TCPSender_inv_def TCPSender_stream_inv_def TCPSender_stuck_def)
  have "TCPReceiver_within S (snd_next_seqno (tr_snd t)) (tr_rcv t)"
    using inv by (simp add: Transfer_inv_def)
  then show "\<not> bs_input_end (TCPReceiver_stream_out (tr_rcv t))"
    using nxt D(7) by (auto simp: TCPReceiver_within_def StreamReassembler_marked_def TCPReceiver_stream_out_def TCPReceiver_inv_def
      TCPReceiver_make_def StreamReassembler_make_def ByteStream_make_fields)
qed

section \<open>Properties\<close>

text \<open>Finite runs, for the examples.\<close>

interpretation transfer: safe_component Transfer_step "Transfer_allowed S" "Transfer_inv m c S isn" for S m c isn
  by unfold_locales (rule Transfer_step_safe)

lemma Transfer_run_reaches:
  "Transfer_reaches S t0 t \<Longrightarrow> admissible Transfer_step (Transfer_allowed S) t es \<Longrightarrow> run_ops Transfer_step t es = Inr t' \<Longrightarrow>
    Transfer_reaches S t0 t'"
proof (induction es arbitrary: t)
  case (Cons e es)
  then show ?case
    using Transfer_reaches.step by (fastforce simp: rbind_Inr_iff)
qed simp

definition example_opening :: "Transfer_event list" where
  "example_opening = [SenderCall FillWindow, SenderCall TakeSegments, SegmentDelivered 0, ReceiverAcks, AckDelivered 0]"

lemmas [sponge_eval] = Transfer_make_def TCPReceiver_acknowledge_def example_opening_def





text \<open>C3: a write to a full stream can keep the connection open for ever. If the application, having
  written all of its stream while the outgoing buffer is full, calls \<open>write\<close> once more, which
  accepts nothing, and then ends the stream, the FIN is never sent: in no state reachable from there
  has the receiver seen the end.\<close>

theorem Transfer_full_write_never_ends:
  assumes "Transfer_reaches S (Transfer_make send_capacity retx_timeout isn recv_capacity) t"
    and "send_capacity < W64" "recv_capacity < W64" "length S + 3 < 2147483648"
    and "ByteStream_remaining_capacity (snd_stream (tr_snd t)) = 0" "data \<noteq> []" "\<not> bs_input_end (snd_stream (tr_snd t))"
    and "run_ops Transfer_step t [SenderCall (AppWrite data), SenderCall AppEnd] = Inr t1"
    and "admissible Transfer_step (Transfer_allowed S) t [SenderCall (AppWrite data), SenderCall AppEnd]"
    and "Transfer_reaches S t1 t'"
  shows "snd_next_seqno (tr_snd t') \<le> length S + 1 \<and> \<not> bs_input_end (TCPReceiver_stream_out (tr_rcv t'))"
proof -
  have inv: "Transfer_inv send_capacity recv_capacity S isn t"
    by (rule Transfer_reaches_inv [OF assms(1-4)])
  have inv1: "Transfer_inv send_capacity recv_capacity S isn t1"
    by (rule transfer.run_keeps [OF inv assms(9,8)])
  have "\<not> TCPSender_fin_sent (tr_snd t)"
    using Transfer_invD(5) [OF inv] assms(7) by (auto simp: TCPSender_inv_def)
  then have "TCPSender_stuck (tr_snd t1)"
    using assms(5,6,8) by (auto simp: TCPSender_stuck_def TCPSender_write_def TCPSender_end_input_def TCPSender_fin_sent_def
      ByteStream_write_def ByteStream_end_input_def ByteStream_trailing_def sponge_BufferList_push_back_def)
  then show ?thesis
    using Transfer_stuck_reaches [OF assms(10) inv1] Transfer_stuck_open by blast
qed

theorem Transfer_full_write_never_ends_witness:
  "\<exists>t. run_ops Transfer_step (Transfer_make 1 1000 (WrappingInt32 7) 4) [SenderCall FillWindow, SenderCall (AppWrite [1]),
      SenderCall (AppWrite [2]), SenderCall AppEnd] = Inr t \<and>
    bs_input_end (snd_stream (tr_snd t)) \<and> \<not> bs_input_end (TCPReceiver_stream_out (tr_rcv t))"
proof -
  let ?t0 = "Transfer_make 1 1000 (WrappingInt32 7) 4" and ?es = "[SenderCall FillWindow, SenderCall (AppWrite [1])]"
  let ?fs = "[SenderCall (AppWrite [2]), SenderCall AppEnd]"
  define t where "t = projr (run_ops Transfer_step ?t0 ?es)"
  define t1 where "t1 = projr (run_ops Transfer_step t ?fs)"
  have run: "run_ops Transfer_step ?t0 ?es = Inr t" and run1: "run_ops Transfer_step t ?fs = Inr t1"
    by (simp_all add: t1_def t_def sponge_eval Let_def cong: rbind_weak_cong)
  have "admissible Transfer_step (Transfer_allowed [1]) ?t0 ?es"
    by (simp add: sponge_eval Let_def cong: rbind_weak_cong)
  then have reach: "Transfer_reaches [1] ?t0 t"
    by (rule Transfer_run_reaches [OF Transfer_reaches.start _ run])
  have h: "(1 :: nat) < W64" "(4 :: nat) < W64" "length [1 :: byte] + 3 < 2147483648" "[2 :: byte] \<noteq> []"
    by (simp_all add: W64_def)
  have f: "ByteStream_remaining_capacity (snd_stream (tr_snd t)) = 0" "\<not> bs_input_end (snd_stream (tr_snd t))"
    "admissible Transfer_step (Transfer_allowed [1]) t ?fs" "bs_input_end (snd_stream (tr_snd t1))"
    by (simp_all add: t1_def t_def sponge_eval Let_def cong: rbind_weak_cong)
  have "run_ops Transfer_step ?t0 (?es @ ?fs) = Inr t1"
    using run run1 by (simp add: run_ops_append del: run_ops.simps append.simps)
  then show ?thesis
    using Transfer_full_write_never_ends [OF reach h(1-3) f(1) h(4) f(2) run1 f(3) Transfer_reaches.start] f(4)
    by (intro exI [of _ t1]) simp
qed

end
