(* ===== verification/TCP_Over_IP.thy ===== *)
theory TCP_Over_IP
  imports IPv4 Sponge_Address
begin

text \<open>
  Carrying TCP segments in IPv4 datagrams, \<open>libsponge/tcp_helpers/tcp_over_ip.hh\<close> and
  \<open>tcp_over_ip.cc\<close>, with what all adapters share: the adapter configuration of
  \<open>tcp_config.hh\<close> and the base class of \<open>fd_adapter.hh\<close>. What one endpoint wraps the other
  unwraps to the same segment, also when it was listening and learns its peer from it; and what is
  unwrapped belongs to the connection.
\<close>

section \<open>The adapter base\<close>

record FdAdapterConfig =
  fc_source :: Address
  fc_destination :: Address
  fc_loss_rate_dn :: "16 word"
  fc_loss_rate_up :: "16 word"

definition FdAdapterConfig_default :: "resolver \<Rightarrow> FdAdapterConfig res" where
  "FdAdapterConfig_default rs =
    rbind (Address_of_ip rs ''0'' 0) (\<lambda>source.
    rbind (Address_of_ip rs ''0'' 0) (\<lambda>destination.
      Inr \<lparr>fc_source = source, fc_destination = destination, fc_loss_rate_dn = 0, fc_loss_rate_up = 0\<rparr>))"

record FdAdapterBase =
  fa_cfg :: FdAdapterConfig
  fa_listen :: bool

definition FdAdapterBase_make :: "resolver \<Rightarrow> FdAdapterBase res" where
  "FdAdapterBase_make rs = rbind (FdAdapterConfig_default rs) (\<lambda>cfg. Inr \<lparr>fa_cfg = cfg, fa_listen = False\<rparr>)"

definition FdAdapterBase_set_listening :: "'a FdAdapterBase_scheme \<Rightarrow> bool \<Rightarrow> 'a FdAdapterBase_scheme" where
  "FdAdapterBase_set_listening a l = a\<lparr>fa_listen := l\<rparr>"

text \<open>Assigning through the reference that \<open>config_mut\<close> returns.\<close>

definition FdAdapterBase_set_config :: "'a FdAdapterBase_scheme \<Rightarrow> FdAdapterConfig \<Rightarrow> 'a FdAdapterBase_scheme" where
  "FdAdapterBase_set_config a cfg = a\<lparr>fa_cfg := cfg\<rparr>"

definition FdAdapterBase_tick :: "'a FdAdapterBase_scheme \<Rightarrow> size_t \<Rightarrow> 'a FdAdapterBase_scheme" where
  "FdAdapterBase_tick a ms = a"

section \<open>TCPOverIPv4Adapter\<close>

definition IPv4Header_PROTO_TCP :: "8 word" where
  "IPv4Header_PROTO_TCP = 6"

text \<open>The two comparisons of addresses at the start, which a listening adapter skips.\<close>

definition TCPOverIPv4Adapter_related :: "'a FdAdapterBase_scheme \<Rightarrow> IPv4Header \<Rightarrow> bool res" where
  "TCPOverIPv4Adapter_related a h =
    (if fa_listen a then Inr True
     else rbind (Address_ipv4_numeric (fc_source (fa_cfg a))) (\<lambda>source.
       if ip_dst h \<noteq> source then Inr False
       else rbind (Address_ipv4_numeric (fc_destination (fa_cfg a))) (\<lambda>destination.
         Inr (ip_src h = destination))))"

text \<open>A listening adapter takes the sender of a SYN as its peer.\<close>

definition TCPOverIPv4Adapter_learn ::
  "resolver \<Rightarrow> 'a FdAdapterBase_scheme \<Rightarrow> IPv4Header \<Rightarrow> TCPHeader \<Rightarrow> 'a FdAdapterBase_scheme res" where
  "TCPOverIPv4Adapter_learn rs a h tcp =
    rbind (Address_port rs (fc_source (fa_cfg a))) (\<lambda>port.
    rbind (Address_of_ip rs (inet_ntoa (ip_dst h)) port) (\<lambda>source.
    rbind (Address_of_ip rs (inet_ntoa (ip_src h)) (th_sport tcp)) (\<lambda>destination.
      Inr (FdAdapterBase_set_listening
        (a\<lparr>fa_cfg := (fa_cfg a)\<lparr>fc_source := source, fc_destination := destination\<rparr>\<rparr>) False))))"

definition unwrap_tcp_in_ip ::
  "resolver \<Rightarrow> 'a FdAdapterBase_scheme \<Rightarrow> IPv4Datagram \<Rightarrow> (TCPSegment option \<times> 'a FdAdapterBase_scheme) res" where
  "unwrap_tcp_in_ip rs a ip_dgram =
    (let h = dg_header ip_dgram in
      rbind (TCPOverIPv4Adapter_related a h) (\<lambda>related.
      if \<not> related then Inr (None, a)
      else if ip_proto h \<noteq> IPv4Header_PROTO_TCP then Inr (None, a)
      else
        rbind (BufferList_to_Buffer (dg_payload ip_dgram)) (\<lambda>payload.
        rbind (TCPSegment_parse TCPSegment_default payload (IPv4Header_pseudo_cksum h)) (\<lambda>(result, tcp_seg).
          if result \<noteq> NoError then Inr (None, a)
          else
            rbind (Address_port rs (fc_source (fa_cfg a))) (\<lambda>port.
              if th_dport (ts_header tcp_seg) \<noteq> port then Inr (None, a)
              else if fa_listen a \<and> \<not> (th_syn (ts_header tcp_seg) \<and> \<not> th_rst (ts_header tcp_seg)) then Inr (None, a)
              else
                rbind (if fa_listen a then TCPOverIPv4Adapter_learn rs a h (ts_header tcp_seg) else Inr a) (\<lambda>a.
                rbind (Address_port rs (fc_destination (fa_cfg a))) (\<lambda>peer_port.
                  if th_sport (ts_header tcp_seg) \<noteq> peer_port then Inr (None, a)
                  else Inr (Some tcp_seg, a))))))))"

text \<open>The segment is passed by reference: its ports stay changed.\<close>

definition wrap_tcp_in_ip ::
  "resolver \<Rightarrow> 'a FdAdapterBase_scheme \<Rightarrow> TCPSegment \<Rightarrow> (IPv4Datagram \<times> TCPSegment) res" where
  "wrap_tcp_in_ip rs a seg =
    rbind (Address_port rs (fc_source (fa_cfg a))) (\<lambda>sport.
    rbind (Address_port rs (fc_destination (fa_cfg a))) (\<lambda>dport.
      let seg = seg\<lparr>ts_header := (ts_header seg)\<lparr>th_sport := sport, th_dport := dport\<rparr>\<rparr>;
          ip_dgram = IPv4Datagram_default
      in
        rbind (Address_ipv4_numeric (fc_source (fa_cfg a))) (\<lambda>src.
        rbind (Address_ipv4_numeric (fc_destination (fa_cfg a))) (\<lambda>dst.
          let h = (dg_header ip_dgram)\<lparr>ip_src := src, ip_dst := dst\<rparr>;
              h = h\<lparr>ip_len := of_nat (unat (ip_hlen h) * 4 + unat (th_doff (ts_header seg)) * 4 + Buffer_size (ts_payload seg))\<rparr>
          in rbind (TCPSegment_serialize seg (IPv4Header_pseudo_cksum h)) (\<lambda>payload.
            Inr (ip_dgram\<lparr>dg_header := h, dg_payload := payload\<rparr>, seg))))))"

lemmas [sponge_eval] = FdAdapterConfig_default_def FdAdapterBase_make_def FdAdapterBase_set_listening_def
  FdAdapterBase_set_config_def FdAdapterBase_tick_def IPv4Header_PROTO_TCP_def TCPOverIPv4Adapter_related_def
  TCPOverIPv4Adapter_learn_def unwrap_tcp_in_ip_def wrap_tcp_in_ip_def

section \<open>Wrapping\<close>

text \<open>An adapter between two IPv4 endpoints, and the header of what it sends.\<close>

definition FdAdapter_between :: "'a FdAdapterBase_scheme \<Rightarrow> 32 word \<times> 16 word \<Rightarrow> 32 word \<times> 16 word \<Rightarrow> bool" where
  "FdAdapter_between a local peer \<longleftrightarrow> fc_source (fa_cfg a) = IPv4_address (fst local) (snd local) \<and>
    fc_destination (fa_cfg a) = IPv4_address (fst peer) (snd peer)"

definition TCPSegment_fits :: "TCPSegment \<Rightarrow> bool" where
  "TCPSegment_fits seg \<longleftrightarrow> TCPHeader_valid (ts_header seg) \<and> Buffer_wf (ts_payload seg) \<and>
    20 + 4 * unat (th_doff (ts_header seg)) + length (Buffer_str (ts_payload seg)) \<le> 65535"

definition TCP_datagram_header :: "32 word \<Rightarrow> 32 word \<Rightarrow> TCPSegment \<Rightarrow> IPv4Header" where
  "TCP_datagram_header src dst seg = IPv4Header_default\<lparr>ip_src := src, ip_dst := dst,
     ip_len := of_nat (20 + 4 * unat (th_doff (ts_header seg)) + length (Buffer_str (ts_payload seg)))\<rparr>"

lemma TCP_datagram_header_simps [simp]:
  "IPv4Header_valid (TCP_datagram_header src dst seg)" "ip_src (TCP_datagram_header src dst seg) = src"
  "ip_dst (TCP_datagram_header src dst seg) = dst" "ip_hlen (TCP_datagram_header src dst seg) = 5"
  "ip_proto (TCP_datagram_header src dst seg) = IPv4Header_PROTO_TCP"
  by (simp_all add: TCP_datagram_header_def IPv4Header_default_def IPv4Header_valid_def IPv4Header_LENGTH_def
    IPv4Header_PROTO_TCP_def)

lemma TCP_datagram_header_len:
  assumes "TCPSegment_fits seg"
  shows "unat (ip_len (TCP_datagram_header src dst seg)) =
    20 + 4 * unat (th_doff (ts_header seg)) + length (Buffer_str (ts_payload seg))"
proof -
  have "20 + 4 * unat (th_doff (ts_header seg)) + length (Buffer_str (ts_payload seg)) < 65536"
    using assms by (simp add: TCPSegment_fits_def)
  then show ?thesis
    by (simp add: TCP_datagram_header_def unat_of_nat take_bit_eq_mod del: of_nat_add of_nat_mult of_nat_numeral)
qed

lemma IPv4Header_pseudo_cksum_cksum [simp]: "IPv4Header_pseudo_cksum (h\<lparr>ip_cksum := c\<rparr>) = IPv4Header_pseudo_cksum h"
  by (simp add: IPv4Header_pseudo_cksum_def)

lemma wrap_tcp_in_ip_eq:
  assumes "resolver_numeric rs" "FdAdapter_between a local peer" "TCPSegment_fits seg"
    and seg: "seg' = seg\<lparr>ts_header := (ts_header seg)\<lparr>th_sport := snd local, th_dport := snd peer\<rparr>\<rparr>"
  shows "wrap_tcp_in_ip rs a seg =
    rbind (TCPSegment_serialize seg' (IPv4Header_pseudo_cksum (TCP_datagram_header (fst local) (fst peer) seg)))
      (\<lambda>bl. Inr (\<lparr>dg_header = TCP_datagram_header (fst local) (fst peer) seg, dg_payload = bl\<rparr>, seg'))"
proof -
  have "IPv4Header_default\<lparr>ip_src := fst local, ip_dst := fst peer,
      ip_len := of_nat (unat (ip_hlen IPv4Header_default) * 4 + unat (th_doff (ts_header seg)) * 4 + Buffer_size (ts_payload seg))\<rparr> =
    TCP_datagram_header (fst local) (fst peer) seg"
    by (simp add: TCP_datagram_header_def IPv4Header_default_def IPv4Header_LENGTH_def Buffer_size_def mult.commute)
  then show ?thesis
    using assms(1,2) unfolding seg
    by (simp add: wrap_tcp_in_ip_def FdAdapter_between_def Address_port_eq IPv4Datagram_default_def Let_def
      del: of_nat_add of_nat_mult)
qed

text \<open>What goes over the wire: the receiving end parses the datagram and the segment in it.\<close>

lemma wrap_tcp_in_ip_wire:
  assumes "resolver_numeric rs" "FdAdapter_between a local peer" "TCPSegment_fits seg"
  shows "\<exists>dg seg' bl c payload ck data. wrap_tcp_in_ip rs a seg = Inr (dg, seg') \<and> IPv4Datagram_wf dg \<and>
    IPv4Datagram_serialize dg = Inr bl \<and>
    IPv4Datagram_parse IPv4Datagram_default (Buffer_of (BufferList_concatenate bl)) =
      Inr (NoError, \<lparr>dg_header = (TCP_datagram_header (fst local) (fst peer) seg)\<lparr>ip_cksum := c\<rparr>, dg_payload = [payload]\<rparr>) \<and>
    TCPSegment_parse TCPSegment_default payload (IPv4Header_pseudo_cksum (TCP_datagram_header (fst local) (fst peer) seg)) =
      Inr (NoError, \<lparr>ts_header = (ts_header seg)\<lparr>th_sport := snd local, th_dport := snd peer, th_cksum := ck\<rparr>, ts_payload = data\<rparr>) \<and>
    Buffer_str data = Buffer_str (ts_payload seg)"
proof -
  let ?h = "TCP_datagram_header (fst local) (fst peer) seg"
  define seg' where "seg' = seg\<lparr>ts_header := (ts_header seg)\<lparr>th_sport := snd local, th_dport := snd peer\<rparr>\<rparr>"
  have fits: "TCPHeader_valid (ts_header seg')"
    "4 * unat (th_doff (ts_header seg')) + length (Buffer_str (ts_payload seg')) \<le> 65535" "Buffer_wf (ts_payload seg')"
    using assms(3) by (simp_all add: TCPSegment_fits_def TCPHeader_valid_def seg'_def)
  obtain bl ck where bl: "TCPSegment_serialize seg' (IPv4Header_pseudo_cksum ?h) = Inr bl"
    "length (BufferList_concatenate bl) = 4 * unat (th_doff (ts_header seg')) + length (Buffer_str (ts_payload seg'))"
    "list_all Buffer_wf bl"
    "\<And>b. Buffer_wf b \<and> Buffer_str b = BufferList_concatenate bl \<longrightarrow>
      (\<exists>data. TCPSegment_parse TCPSegment_default b (IPv4Header_pseudo_cksum ?h) =
        Inr (NoError, \<lparr>ts_header = (ts_header seg')\<lparr>th_cksum := ck\<rparr>, ts_payload = data\<rparr>) \<and>
        Buffer_wf data \<and> Buffer_str data = Buffer_str (ts_payload seg'))"
    using TCPSegment_wire [OF fits(1,2) IPv4Header_pseudo_cksum_bound] fits(3) by blast
  let ?dg = "\<lparr>dg_header = ?h, dg_payload = bl\<rparr>"
  have wf: "IPv4Datagram_wf ?dg"
    using bl(2,3) TCP_datagram_header_len [OF assms(3), of "fst local" "fst peer"] by (simp add: IPv4Datagram_wf_def seg'_def)
  obtain ibl c payload where "IPv4Datagram_serialize ?dg = Inr ibl"
    "IPv4Datagram_parse IPv4Datagram_default (Buffer_of (BufferList_concatenate ibl)) =
      Inr (NoError, \<lparr>dg_header = ?h\<lparr>ip_cksum := c\<rparr>, dg_payload = [payload]\<rparr>)"
    "Buffer_wf payload" "Buffer_str payload = BufferList_concatenate bl"
    using IPv4Datagram_wire [OF wf, of IPv4Header_default IPv4Datagram_default] by auto
  moreover from this(3,4) obtain data where "TCPSegment_parse TCPSegment_default payload (IPv4Header_pseudo_cksum ?h) =
        Inr (NoError, \<lparr>ts_header = (ts_header seg')\<lparr>th_cksum := ck\<rparr>, ts_payload = data\<rparr>)"
      "Buffer_str data = Buffer_str (ts_payload seg')"
    using bl(4) by blast
  moreover have "wrap_tcp_in_ip rs a seg = Inr (?dg, seg')"
    using wrap_tcp_in_ip_eq [OF assms seg'_def] bl(1) by simp
  ultimately show ?thesis
    using wf by (auto simp: seg'_def)
qed

text \<open>An adapter that is connected to the sender, or that listens on the right port.\<close>

definition FdAdapter_accepts :: "'a FdAdapterBase_scheme \<Rightarrow> 32 word \<times> 16 word \<Rightarrow> 32 word \<times> 16 word \<Rightarrow> TCPSegment \<Rightarrow> bool" where
  "FdAdapter_accepts b local peer seg \<longleftrightarrow>
    (if fa_listen b then (\<exists>any. fc_source (fa_cfg b) = IPv4_address any (snd local)) \<and>
       th_syn (ts_header seg) \<and> \<not> th_rst (ts_header seg)
     else FdAdapter_between b local peer)"

definition FdAdapter_connected :: "'a FdAdapterBase_scheme \<Rightarrow> 32 word \<times> 16 word \<Rightarrow> 32 word \<times> 16 word \<Rightarrow> 'a FdAdapterBase_scheme" where
  "FdAdapter_connected b local peer = b\<lparr>fa_cfg := (fa_cfg b)\<lparr>fc_source := IPv4_address (fst local) (snd local),
     fc_destination := IPv4_address (fst peer) (snd peer)\<rparr>, fa_listen := False\<rparr>"

lemma unwrap_tcp_in_ip_accepts:
  assumes "resolver_numeric rs" "FdAdapter_accepts b local peer seg"
    and "ip_src h = fst peer" "ip_dst h = fst local" "ip_proto h = IPv4Header_PROTO_TCP"
    and "TCPSegment_parse TCPSegment_default payload (IPv4Header_pseudo_cksum h) = Inr (NoError, seg)"
    and "th_sport (ts_header seg) = snd peer" "th_dport (ts_header seg) = snd local"
  shows "unwrap_tcp_in_ip rs b \<lparr>dg_header = h, dg_payload = [payload]\<rparr> = Inr (Some seg, FdAdapter_connected b local peer)"
proof (cases "fa_listen b")
  case True
  then show ?thesis
    using assms by (auto simp: unwrap_tcp_in_ip_def TCPOverIPv4Adapter_related_def TCPOverIPv4Adapter_learn_def
      FdAdapter_accepts_def FdAdapter_connected_def FdAdapterBase_set_listening_def BufferList_to_Buffer_def
      Address_port_eq Address_of_ip_eq)
next
  case False
  moreover from False have "FdAdapter_connected b local peer = b"
    using assms(2) by (simp add: FdAdapter_accepts_def FdAdapter_connected_def FdAdapter_between_def)
  ultimately show ?thesis
    using assms by (simp add: unwrap_tcp_in_ip_def TCPOverIPv4Adapter_related_def FdAdapter_accepts_def
      FdAdapter_between_def BufferList_to_Buffer_def Address_port_eq)
qed

section \<open>Unwrapping\<close>

text \<open>The endpoints a datagram comes from and goes to, as far as unwrapping compares them.\<close>

lemma TCPOverIPv4Adapter_learn_eq:
  assumes "resolver_numeric rs" "FdAdapter_between a local peer"
  shows "TCPOverIPv4Adapter_learn rs a h tcp =
    Inr (FdAdapter_connected a (ip_dst h, snd local) (ip_src h, th_sport tcp))"
  using assms by (simp add: TCPOverIPv4Adapter_learn_def FdAdapter_between_def FdAdapter_connected_def
    FdAdapterBase_set_listening_def Address_port_eq Address_of_ip_eq)

lemma unwrap_tcp_in_ip_cases:
  assumes rs: "resolver_numeric rs" and a: "FdAdapter_between a local peer"
    and payload: "dg_payload dg = [payload]" "Buffer_wf payload"
  shows "\<exists>seg. unwrap_tcp_in_ip rs a dg = Inr (seg, case seg of None \<Rightarrow> a
      | Some s \<Rightarrow> FdAdapter_connected a (ip_dst (dg_header dg), snd local) (ip_src (dg_header dg), th_sport (ts_header s))) \<and>
    (\<forall>s. seg = Some s \<longrightarrow> ip_proto (dg_header dg) = IPv4Header_PROTO_TCP \<and> th_dport (ts_header s) = snd local \<and>
      TCPSegment_parse TCPSegment_default payload (IPv4Header_pseudo_cksum (dg_header dg)) = Inr (NoError, s) \<and>
      (if fa_listen a then th_syn (ts_header s) \<and> \<not> th_rst (ts_header s)
       else ip_dst (dg_header dg) = fst local \<and> ip_src (dg_header dg) = fst peer \<and> th_sport (ts_header s) = snd peer))"
proof -
  obtain res seg where parse: "TCPSegment_parse TCPSegment_default payload (IPv4Header_pseudo_cksum (dg_header dg)) = Inr (res, seg)"
    using TCPSegment_parse_accepts [OF payload(2), of TCPSegment_default "IPv4Header_pseudo_cksum (dg_header dg)"] by blast
  have same: "FdAdapter_connected a local peer = a" if "\<not> fa_listen a"
    using a that by (simp add: FdAdapter_connected_def FdAdapter_between_def)
  have addresses: "fc_source (fa_cfg a) = IPv4_address (fst local) (snd local)"
    "fc_destination (fa_cfg a) = IPv4_address (fst peer) (snd peer)"
    using a by (simp_all add: FdAdapter_between_def)
  show ?thesis
  proof (cases "fa_listen a")
    case True
    then have "unwrap_tcp_in_ip rs a dg =
      (if ip_proto (dg_header dg) = IPv4Header_PROTO_TCP \<and> res = NoError \<and> th_dport (ts_header seg) = snd local \<and>
         th_syn (ts_header seg) \<and> \<not> th_rst (ts_header seg)
       then Inr (Some seg, FdAdapter_connected a (ip_dst (dg_header dg), snd local) (ip_src (dg_header dg), th_sport (ts_header seg)))
       else Inr (None, a))"
      using parse payload(1) by (simp add: unwrap_tcp_in_ip_def TCPOverIPv4Adapter_related_def BufferList_to_Buffer_def
        TCPOverIPv4Adapter_learn_eq [OF rs a] Address_port_eq [OF rs] addresses Let_def)
        (simp add: FdAdapter_connected_def Address_port_eq [OF rs])
    then show ?thesis
      using parse True by (intro exI [of _ "if ip_proto (dg_header dg) = IPv4Header_PROTO_TCP \<and> res = NoError \<and>
        th_dport (ts_header seg) = snd local \<and> th_syn (ts_header seg) \<and> \<not> th_rst (ts_header seg) then Some seg else None"]) simp
  next
    case False
    then have "unwrap_tcp_in_ip rs a dg =
      (if ip_dst (dg_header dg) = fst local \<and> ip_src (dg_header dg) = fst peer \<and>
         ip_proto (dg_header dg) = IPv4Header_PROTO_TCP \<and> res = NoError \<and> th_dport (ts_header seg) = snd local \<and>
         th_sport (ts_header seg) = snd peer
       then Inr (Some seg, FdAdapter_connected a (ip_dst (dg_header dg), snd local) (ip_src (dg_header dg), th_sport (ts_header seg)))
       else Inr (None, a))"
      using parse payload(1) same by (simp add: unwrap_tcp_in_ip_def TCPOverIPv4Adapter_related_def BufferList_to_Buffer_def
        Address_port_eq [OF rs] addresses Let_def)
    then show ?thesis
      using parse False by (intro exI [of _ "if ip_dst (dg_header dg) = fst local \<and> ip_src (dg_header dg) = fst peer \<and>
         ip_proto (dg_header dg) = IPv4Header_PROTO_TCP \<and> res = NoError \<and> th_dport (ts_header seg) = snd local \<and>
         th_sport (ts_header seg) = snd peer then Some seg else None"]) simp
  qed
qed

section \<open>Properties\<close>

text \<open>C35: what one end wraps the other unwraps. With IPv4 addresses on both sides and a resolver that
  reads and prints numeric addresses, a segment that fits in a datagram is wrapped and serialized without an
  exception. An adapter connected to the sender, or one that listens on the destination port when the segment
  is a SYN, gets the segment back from the bytes, with the ports set and the checksum filled in; afterwards it
  is connected to the sender.\<close>

theorem wrap_unwrap_tcp_in_ip:
  assumes "resolver_numeric rs" "FdAdapter_between a client server" "TCPSegment_fits seg"
    and "FdAdapter_accepts b server client seg"
  shows "\<exists>dg seg' bl dg' ck data. wrap_tcp_in_ip rs a seg = Inr (dg, seg') \<and> IPv4Datagram_serialize dg = Inr bl \<and>
    IPv4Datagram_parse IPv4Datagram_default (Buffer_of (BufferList_concatenate bl)) = Inr (NoError, dg') \<and>
    unwrap_tcp_in_ip rs b dg' = Inr (Some \<lparr>ts_header = (ts_header seg)\<lparr>th_sport := snd client, th_dport := snd server,
      th_cksum := ck\<rparr>, ts_payload = data\<rparr>, FdAdapter_connected b server client) \<and>
    Buffer_str data = Buffer_str (ts_payload seg)"
proof -
  let ?h = "TCP_datagram_header (fst client) (fst server) seg"
  obtain dg seg' bl c payload ck data where "wrap_tcp_in_ip rs a seg = Inr (dg, seg')" "IPv4Datagram_serialize dg = Inr bl"
    "IPv4Datagram_parse IPv4Datagram_default (Buffer_of (BufferList_concatenate bl)) =
      Inr (NoError, \<lparr>dg_header = ?h\<lparr>ip_cksum := c\<rparr>, dg_payload = [payload]\<rparr>)"
    and parse: "TCPSegment_parse TCPSegment_default payload (IPv4Header_pseudo_cksum ?h) =
      Inr (NoError, \<lparr>ts_header = (ts_header seg)\<lparr>th_sport := snd client, th_dport := snd server, th_cksum := ck\<rparr>, ts_payload = data\<rparr>)"
    and "Buffer_str data = Buffer_str (ts_payload seg)"
    using wrap_tcp_in_ip_wire [OF assms(1-3)] by blast
  moreover have "unwrap_tcp_in_ip rs b \<lparr>dg_header = ?h\<lparr>ip_cksum := c\<rparr>, dg_payload = [payload]\<rparr> =
      Inr (Some \<lparr>ts_header = (ts_header seg)\<lparr>th_sport := snd client, th_dport := snd server, th_cksum := ck\<rparr>, ts_payload = data\<rparr>,
        FdAdapter_connected b server client)"
    using assms(4) parse by (intro unwrap_tcp_in_ip_accepts [OF assms(1)]) (simp_all add: FdAdapter_accepts_def)
  ultimately show ?thesis
    by blast
qed

theorem wrap_unwrap_tcp_in_ip_witness:
  "\<exists>dg seg' bl dg' ck data. wrap_tcp_in_ip numeric_resolver
      \<lparr>fa_cfg = \<lparr>fc_source = IPv4_address 0x0a000001 4000, fc_destination = IPv4_address 0x0a000002 80,
        fc_loss_rate_dn = 0, fc_loss_rate_up = 0\<rparr>, fa_listen = False\<rparr>
      (TCPSegment_default\<lparr>ts_header := TCPHeader_default\<lparr>th_syn := True\<rparr>\<rparr>) = Inr (dg, seg') \<and>
    IPv4Datagram_serialize dg = Inr bl \<and>
    IPv4Datagram_parse IPv4Datagram_default (Buffer_of (BufferList_concatenate bl)) = Inr (NoError, dg') \<and>
    unwrap_tcp_in_ip numeric_resolver
      \<lparr>fa_cfg = \<lparr>fc_source = IPv4_address 0 80, fc_destination = IPv4_address 0 0,
        fc_loss_rate_dn = 0, fc_loss_rate_up = 0\<rparr>, fa_listen = True\<rparr> dg' =
      Inr (Some \<lparr>ts_header = TCPHeader_default\<lparr>th_syn := True, th_sport := 4000, th_dport := 80, th_cksum := ck\<rparr>, ts_payload = data\<rparr>,
        \<lparr>fa_cfg = \<lparr>fc_source = IPv4_address 0x0a000002 80, fc_destination = IPv4_address 0x0a000001 4000,
          fc_loss_rate_dn = 0, fc_loss_rate_up = 0\<rparr>, fa_listen = False\<rparr>) \<and>
    Buffer_str data = []"
proof -
  let ?a = "\<lparr>fa_cfg = \<lparr>fc_source = IPv4_address 0x0a000001 4000, fc_destination = IPv4_address 0x0a000002 80,
    fc_loss_rate_dn = 0, fc_loss_rate_up = 0\<rparr>, fa_listen = False\<rparr>"
  let ?b = "\<lparr>fa_cfg = \<lparr>fc_source = IPv4_address 0 80, fc_destination = IPv4_address 0 0,
    fc_loss_rate_dn = 0, fc_loss_rate_up = 0\<rparr>, fa_listen = True\<rparr>"
  let ?seg = "TCPSegment_default\<lparr>ts_header := TCPHeader_default\<lparr>th_syn := True\<rparr>\<rparr>"
  have "FdAdapter_between ?a (0x0a000001, 4000) (0x0a000002, 80)" "TCPSegment_fits ?seg"
    "FdAdapter_accepts ?b (0x0a000002, 80) (0x0a000001, 4000) ?seg"
    by (simp_all add: FdAdapter_between_def TCPSegment_fits_def FdAdapter_accepts_def TCPHeader_valid_def
      TCPSegment_default_def TCPHeader_default_def TCPHeader_LENGTH_def)
  from wrap_unwrap_tcp_in_ip [OF resolver_numeric_numeric_resolver this] show ?thesis
    by (simp add: FdAdapter_connected_def TCPSegment_default_def)
qed

text \<open>C36: what is unwrapped belongs to the connection. For every datagram with a well-formed payload, unwrapping
  does not throw. It gives a segment only when the datagram's protocol is TCP, the segment's checksum is right
  and its destination port is the local one; an adapter that is not listening moreover gives it only when both addresses and
  the source port are those of the connection, and one that is listening only when it is a SYN without RST.
  A rejected datagram changes nothing; an accepted one leaves the adapter connected to its sender.\<close>

theorem unwrap_tcp_in_ip_filters:
  assumes "resolver_numeric rs" "FdAdapter_between a local peer"
    and "dg_payload dg = [payload]" "Buffer_wf payload"
  shows "\<exists>seg. unwrap_tcp_in_ip rs a dg = Inr (seg, case seg of None \<Rightarrow> a
      | Some s \<Rightarrow> FdAdapter_connected a (ip_dst (dg_header dg), snd local) (ip_src (dg_header dg), th_sport (ts_header s))) \<and>
    (\<forall>s. seg = Some s \<longrightarrow> ip_proto (dg_header dg) = IPv4Header_PROTO_TCP \<and> th_dport (ts_header s) = snd local \<and>
      TCPSegment_parse TCPSegment_default payload (IPv4Header_pseudo_cksum (dg_header dg)) = Inr (NoError, s) \<and>
      (if fa_listen a then th_syn (ts_header s) \<and> \<not> th_rst (ts_header s)
       else ip_dst (dg_header dg) = fst local \<and> ip_src (dg_header dg) = fst peer \<and> th_sport (ts_header s) = snd peer))"
  by (rule unwrap_tcp_in_ip_cases [OF assms])

theorem unwrap_tcp_in_ip_filters_witness:
  "\<exists>seg. unwrap_tcp_in_ip numeric_resolver
      \<lparr>fa_cfg = \<lparr>fc_source = IPv4_address 1 80, fc_destination = IPv4_address 2 90,
        fc_loss_rate_dn = 0, fc_loss_rate_up = 0\<rparr>, fa_listen = False\<rparr>
      \<lparr>dg_header = IPv4Header_default\<lparr>ip_dst := 3\<rparr>, dg_payload = [Buffer_of [1, 2, 3]]\<rparr> =
    Inr (seg, \<lparr>fa_cfg = \<lparr>fc_source = IPv4_address 1 80, fc_destination = IPv4_address 2 90,
        fc_loss_rate_dn = 0, fc_loss_rate_up = 0\<rparr>, fa_listen = False\<rparr>) \<and> seg = None"
proof -
  let ?a = "\<lparr>fa_cfg = \<lparr>fc_source = IPv4_address 1 80, fc_destination = IPv4_address 2 90,
    fc_loss_rate_dn = 0, fc_loss_rate_up = 0\<rparr>, fa_listen = False\<rparr>"
  have "FdAdapter_between ?a (1, 80) (2, 90)" "Buffer_wf (Buffer_of [1, 2, 3])"
    by (simp_all add: FdAdapter_between_def W64_def)
  from unwrap_tcp_in_ip_filters [OF resolver_numeric_numeric_resolver this(1) _ this(2),
    of "\<lparr>dg_header = IPv4Header_default\<lparr>ip_dst := 3\<rparr>, dg_payload = [Buffer_of [1, 2, 3]]\<rparr>"]
  show ?thesis
    by (auto split: option.splits)
qed

end
