(* ===== verification/File_Descriptor.thy ===== *)
theory File_Descriptor
  imports Net_Buffer Sponge_Text
begin

text \<open>
  File descriptors, \<open>libsponge/util/file_descriptor.hh\<close> and \<open>file_descriptor.cc\<close>, and the wrapper
  of system calls in \<open>util/util.cc\<close>. The operating system is not part of the program: it is an
  argument, a record of functions on a state of its own. A \<open>FileDescriptor\<close> is a shared pointer to a
  wrapper; several handles can share one, so the wrappers live in a store and a handle is an address
  in it.
\<close>

section \<open>The operating system\<close>

text \<open>
  Every call takes the state of the system and returns its return value, the error number it leaves and
  what it stores through the pointers it is given, with the new state. \<open>poll\<close> gives the returned
  events of each entry of the vector by its position; \<open>recvfrom\<close> the payload and the address of the
  sender; \<open>getsockopt\<close> the value and its length; \<open>socketpair\<close> the two numbers.
\<close>

record pollfd =
  pf_fd :: int
  pf_events :: "16 word"
  pf_revents :: "16 word"

type_synonym ('w, 'd) call = "'w \<Rightarrow> (int \<times> int \<times> 'd) \<times> 'w"

record 'w kernel =
  sys_read :: "int \<Rightarrow> size_t \<Rightarrow> ('w, bytes) call"
  sys_writev :: "int \<Rightarrow> (bytes \<times> size_t) list \<Rightarrow> ('w, unit) call"
  sys_close :: "int \<Rightarrow> ('w, unit) call"
  sys_fcntl_getfl :: "int \<Rightarrow> ('w, unit) call"
  sys_fcntl_setfl :: "int \<Rightarrow> int \<Rightarrow> ('w, unit) call"
  sys_poll :: "pollfd list \<Rightarrow> int \<Rightarrow> ('w, nat \<Rightarrow> 16 word) call"
  sys_socket :: "int \<Rightarrow> int \<Rightarrow> ('w, unit) call"
  sys_getsockopt :: "int \<Rightarrow> int \<Rightarrow> int \<Rightarrow> ('w, int \<times> nat) call"
  sys_setsockopt :: "int \<Rightarrow> int \<Rightarrow> int \<Rightarrow> int \<Rightarrow> ('w, unit) call"
  sys_getsockname :: "int \<Rightarrow> ('w, bytes \<times> nat) call"
  sys_getpeername :: "int \<Rightarrow> ('w, bytes \<times> nat) call"
  sys_bind :: "int \<Rightarrow> bytes \<Rightarrow> ('w, unit) call"
  sys_connect :: "int \<Rightarrow> bytes \<Rightarrow> ('w, unit) call"
  sys_shutdown :: "int \<Rightarrow> int \<Rightarrow> ('w, unit) call"
  sys_listen :: "int \<Rightarrow> int \<Rightarrow> ('w, unit) call"
  sys_accept :: "int \<Rightarrow> ('w, unit) call"
  sys_recvfrom :: "int \<Rightarrow> size_t \<Rightarrow> ('w, bytes \<times> bytes) call"
  sys_sendmsg :: "int \<Rightarrow> bytes option \<Rightarrow> (bytes \<times> size_t) list \<Rightarrow> ('w, unit) call"
  sys_socketpair :: "int \<Rightarrow> int \<Rightarrow> ('w, int \<times> int) call"
  sys_open :: "string \<Rightarrow> ('w, unit) call"
  sys_tunsetiff :: "int \<Rightarrow> int \<Rightarrow> bytes \<Rightarrow> ('w, unit) call"
  sys_clock_ms :: "'w \<Rightarrow> nat \<times> 'w"

definition POLLIN :: "16 word" where
  "POLLIN = 0x1"

definition POLLOUT :: "16 word" where
  "POLLOUT = 0x4"

definition POLLERR :: "16 word" where
  "POLLERR = 0x8"

definition POLLHUP :: "16 word" where
  "POLLHUP = 0x10"

definition POLLNVAL :: "16 word" where
  "POLLNVAL = 0x20"

section \<open>SystemCall\<close>

text \<open>The return value is an \<open>int\<close>: a longer result is narrowed to 32 bits on the way in.\<close>

definition narrow_int :: "int \<Rightarrow> int" where
  "narrow_int n = (n + 2 ^ 31) mod 2 ^ 32 - 2 ^ 31"

definition unix_error :: "string \<Rightarrow> int \<Rightarrow> cpp_error" where
  "unix_error attempt error = TaggedError ''system'' attempt error"

definition SystemCall :: "string \<Rightarrow> int \<Rightarrow> int \<Rightarrow> int \<Rightarrow> int res" where
  "SystemCall attempt return_value errno errno_mask =
    (if 0 \<le> return_value \<or> errno = errno_mask then Inr return_value else Inl (unix_error attempt errno))"

section \<open>The wrappers\<close>

record FDWrapper =
  fw_fd :: int
  fw_eof :: bool
  fw_closed :: bool
  fw_read_count :: "32 word"
  fw_write_count :: "32 word"
  fw_use_count :: nat

text \<open>
  What the program and the system share; a program's own state extends this record. A handle that was
  moved from, or never set, is an address outside of the store.
\<close>

record 'w system =
  sy_world :: 'w
  sy_fds :: "FDWrapper list"

type_synonym FileDescriptor = nat

text \<open>One call: its checked result with what it stored, and the state it leaves in either case.\<close>

definition invoke :: "string \<Rightarrow> ('w, 'd) call \<Rightarrow> ('w, 'c) system_scheme \<Rightarrow> (int \<times> 'd) res \<times> ('w, 'c) system_scheme" where
  "invoke attempt call s =
    (let ((return_value, errno, d), w) = call (sy_world s) in
      (rbind (SystemCall attempt (narrow_int return_value) errno 0) (\<lambda>rv. Inr (rv, d)), s\<lparr>sy_world := w\<rparr>))"

definition attempt :: "string \<Rightarrow> ('w, 'd) call \<Rightarrow> ('w, 'c) system_scheme \<Rightarrow>
    (int \<Rightarrow> 'd \<Rightarrow> ('w, 'c) system_scheme \<Rightarrow> 'a res) \<Rightarrow> 'a res" where
  "attempt name call s f = (let (r, s) = invoke name call s in rbind r (\<lambda>(rv, d). f rv d s))"

definition fd_wrapper :: "('w, 'c) system_scheme \<Rightarrow> FileDescriptor \<Rightarrow> FDWrapper res" where
  "fd_wrapper s fd = (if fd < length (sy_fds s) then Inr (sy_fds s ! fd) else Inl NullDeref)"

definition fd_update :: "('w, 'c) system_scheme \<Rightarrow> FileDescriptor \<Rightarrow> (FDWrapper \<Rightarrow> FDWrapper) \<Rightarrow> ('w, 'c) system_scheme" where
  "fd_update s fd f = s\<lparr>sy_fds := (sy_fds s)[fd := f (sy_fds s ! fd)]\<rparr>"

definition FDWrapper_make :: "int \<Rightarrow> FDWrapper res" where
  "FDWrapper_make fd =
    (if fd < 0 then Inl (RuntimeError (''invalid fd number:-'' @ dec_string (nat (- fd))))
     else Inr \<lparr>fw_fd = fd, fw_eof = False, fw_closed = False, fw_read_count = 0, fw_write_count = 0, fw_use_count = 1\<rparr>)"

definition FDWrapper_close :: "'w kernel \<Rightarrow> ('w, 'c) system_scheme \<Rightarrow> FileDescriptor \<Rightarrow> unit res \<times> ('w, 'c) system_scheme" where
  "FDWrapper_close k s fd =
    (let (r, s) = invoke ''close'' (sys_close k (fw_fd (sy_fds s ! fd))) s in
      case r of
        Inl e \<Rightarrow> (Inl e, s)
      | Inr _ \<Rightarrow> (Inr (), fd_update s fd (\<lambda>w. w\<lparr>fw_eof := True, fw_closed := True\<rparr>)))"

text \<open>The destructor only prints the exception.\<close>

definition FDWrapper_destroy :: "'w kernel \<Rightarrow> ('w, 'c) system_scheme \<Rightarrow> FileDescriptor \<Rightarrow> ('w, 'c) system_scheme" where
  "FDWrapper_destroy k s fd = (if fw_closed (sy_fds s ! fd) then s else snd (FDWrapper_close k s fd))"

section \<open>FileDescriptor\<close>

definition FileDescriptor_make :: "('w, 'c) system_scheme \<Rightarrow> int \<Rightarrow> (FileDescriptor \<times> ('w, 'c) system_scheme) res" where
  "FileDescriptor_make s fd = rbind (FDWrapper_make fd) (\<lambda>w. Inr (length (sy_fds s), s\<lparr>sy_fds := sy_fds s @ [w]\<rparr>))"

definition FileDescriptor_duplicate :: "('w, 'c) system_scheme \<Rightarrow> FileDescriptor \<Rightarrow> FileDescriptor \<times> ('w, 'c) system_scheme" where
  "FileDescriptor_duplicate s fd = (fd, fd_update s fd (\<lambda>w. w\<lparr>fw_use_count := Suc (fw_use_count w)\<rparr>))"

text \<open>The destructor of a handle, with that of the wrapper when it was the last one.\<close>

definition FileDescriptor_release :: "'w kernel \<Rightarrow> ('w, 'c) system_scheme \<Rightarrow> FileDescriptor \<Rightarrow> ('w, 'c) system_scheme" where
  "FileDescriptor_release k s fd =
    (let s = fd_update s fd (\<lambda>w. w\<lparr>fw_use_count := fw_use_count w - 1\<rparr>) in
      if fd < length (sy_fds s) \<and> fw_use_count (sy_fds s ! fd) = 0 then FDWrapper_destroy k s fd else s)"

definition FileDescriptor_register_read :: "('w, 'c) system_scheme \<Rightarrow> FileDescriptor \<Rightarrow> ('w, 'c) system_scheme" where
  "FileDescriptor_register_read s fd = fd_update s fd (\<lambda>w. w\<lparr>fw_read_count := fw_read_count w + 1\<rparr>)"

definition FileDescriptor_register_write :: "('w, 'c) system_scheme \<Rightarrow> FileDescriptor \<Rightarrow> ('w, 'c) system_scheme" where
  "FileDescriptor_register_write s fd = fd_update s fd (\<lambda>w. w\<lparr>fw_write_count := fw_write_count w + 1\<rparr>)"

definition FileDescriptor_BUFFER_SIZE :: size_t where
  "FileDescriptor_BUFFER_SIZE = 1024 * 1024"

text \<open>The default argument of \<open>read\<close>.\<close>

definition SIZE_T_MAX :: size_t where
  "SIZE_T_MAX = W64 - 1"

definition FileDescriptor_read ::
  "'w kernel \<Rightarrow> ('w, 'c) system_scheme \<Rightarrow> FileDescriptor \<Rightarrow> size_t \<Rightarrow> (bytes \<times> ('w, 'c) system_scheme) res" where
  "FileDescriptor_read k s fd limit =
    rbind (fd_wrapper s fd) (\<lambda>w.
      let size_to_read = min FileDescriptor_BUFFER_SIZE limit in
      attempt ''read'' (sys_read k (fw_fd w) size_to_read) s (\<lambda>bytes_read d s.
        let s = (if 0 < limit \<and> bytes_read = 0 then fd_update s fd (\<lambda>w. w\<lparr>fw_eof := True\<rparr>) else s) in
        if int size_to_read < bytes_read then Inl (RuntimeError ''read() read more than requested'')
        else if bytes_read < 0 then Inl LengthError
        else Inr (string_resize (take size_to_read d) (nat bytes_read), FileDescriptor_register_read s fd)))"

text \<open>
  One round of the loop of \<open>write\<close>: the number of bytes written, and what is left of the views. A
  negative number that passes \<open>SystemCall\<close> is far beyond the end as an unsigned argument.
\<close>

definition FileDescriptor_write_once ::
  "'w kernel \<Rightarrow> ('w, 'c) system_scheme \<Rightarrow> FileDescriptor \<Rightarrow> BufferViewList \<Rightarrow> (size_t \<times> BufferViewList \<times> ('w, 'c) system_scheme) res" where
  "FileDescriptor_write_once k s fd buffer =
    rbind (fd_wrapper s fd) (\<lambda>w.
      attempt ''writev'' (sys_writev k (fw_fd w) (BufferViewList_as_iovecs buffer)) s (\<lambda>bytes_written _ s.
        if bytes_written = 0 \<and> BufferViewList_size buffer \<noteq> 0
        then Inl (RuntimeError ''write returned 0 given non-empty input buffer'')
        else if int (BufferViewList_size buffer) < bytes_written
        then Inl (RuntimeError ''write wrote more than length of input buffer'')
        else if bytes_written < 0 then Inl OutOfRange
        else rbind (BufferViewList_remove_prefix buffer (nat bytes_written)) (\<lambda>buffer.
          Inr (nat bytes_written, buffer, FileDescriptor_register_write s fd))))"

lemma BufferViewList_remove_prefix_length:
  "BufferViewList_remove_prefix vl n = Inr vl' \<Longrightarrow> length (concat vl') + n = length (concat vl)"
  using BufferViewList_remove_prefix_ok [of n vl] BufferViewList_remove_prefix_throws [of vl n]
  by (cases "n \<le> length (concat vl)") auto

lemma BufferViewList_remove_prefix_0 [simp]: "BufferViewList_remove_prefix vl 0 = Inr vl"
  by (cases vl) simp_all

lemma attempt_Inr_iff:
  "attempt name call s f = Inr y \<longleftrightarrow> (\<exists>rv d s'. invoke name call s = (Inr (rv, d), s') \<and> f rv d s' = Inr y)"
  by (auto simp: attempt_def rbind_Inr_iff split: prod.splits)

lemma FileDescriptor_write_once_Inr:
  assumes "FileDescriptor_write_once k s fd buffer = Inr (n, buffer', s')"
  shows "\<exists>w s1. fd_wrapper s fd = Inr w \<and>
    invoke ''writev'' (sys_writev k (fw_fd w) (BufferViewList_as_iovecs buffer)) s = (Inr (int n, ()), s1) \<and>
    (n = 0 \<longrightarrow> BufferViewList_size buffer = 0) \<and> BufferViewList_remove_prefix buffer n = Inr buffer' \<and>
    s' = FileDescriptor_register_write s1 fd"
proof -
  obtain w where w: "fd_wrapper s fd = Inr w"
    using assms by (auto simp: FileDescriptor_write_once_def rbind_Inr_iff)
  then obtain rv d s1 where call: "invoke ''writev'' (sys_writev k (fw_fd w) (BufferViewList_as_iovecs buffer)) s = (Inr (rv, d), s1)"
    and rv: "\<not> (rv = 0 \<and> BufferViewList_size buffer \<noteq> 0)" "\<not> rv < 0"
      "rbind (BufferViewList_remove_prefix buffer (nat rv)) (\<lambda>buffer. Inr (nat rv, buffer, FileDescriptor_register_write s1 fd)) =
        Inr (n, buffer', s')"
    using assms by (fastforce simp: FileDescriptor_write_once_def attempt_Inr_iff split: if_splits)
  then show ?thesis
    using w by (auto simp: rbind_Inr_iff)
qed

lemma FileDescriptor_write_once_progress:
  assumes "FileDescriptor_write_once k s fd buffer = Inr (n, buffer', s')"
  shows "length (concat buffer') + n = length (concat buffer)" "n = 0 \<Longrightarrow> BufferViewList_size buffer' = 0"
  using FileDescriptor_write_once_Inr [OF assms] by (auto dest: BufferViewList_remove_prefix_length)

function FileDescriptor_write_loop ::
  "'w kernel \<Rightarrow> ('w, 'c) system_scheme \<Rightarrow> FileDescriptor \<Rightarrow> BufferViewList \<Rightarrow> bool \<Rightarrow> size_t \<Rightarrow> (size_t \<times> ('w, 'c) system_scheme) res" where
  "FileDescriptor_write_loop k s fd buffer write_all total_bytes_written =
    (case FileDescriptor_write_once k s fd buffer of
      Inl e \<Rightarrow> Inl e
    | Inr (bytes_written, buffer', s') \<Rightarrow>
        let total_bytes_written' = add64 total_bytes_written bytes_written in
        if write_all \<and> BufferViewList_size buffer' \<noteq> 0
        then FileDescriptor_write_loop k s' fd buffer' write_all total_bytes_written'
        else Inr (total_bytes_written', s'))"
  by pat_completeness auto
termination
proof (relation "measure (\<lambda>(k, s, fd, buffer, write_all, total). length (concat buffer))", simp, clarsimp)
  fix k :: "'w kernel" and s s' :: "('w, 'c) system_scheme" and fd buffer buffer' n
  assume "FileDescriptor_write_once k s fd buffer = Inr (n, buffer', s')" "0 < BufferViewList_size buffer'"
  with FileDescriptor_write_once_progress [OF this(1)] show "length (concat buffer') < length (concat buffer)"
    by (cases n) auto
qed

declare FileDescriptor_write_loop.simps [simp del]

definition FileDescriptor_write ::
  "'w kernel \<Rightarrow> ('w, 'c) system_scheme \<Rightarrow> FileDescriptor \<Rightarrow> BufferViewList \<Rightarrow> bool \<Rightarrow> (size_t \<times> ('w, 'c) system_scheme) res" where
  "FileDescriptor_write k s fd buffer write_all = FileDescriptor_write_loop k s fd buffer write_all 0"

definition FileDescriptor_close :: "'w kernel \<Rightarrow> ('w, 'c) system_scheme \<Rightarrow> FileDescriptor \<Rightarrow> ('w, 'c) system_scheme res" where
  "FileDescriptor_close k s fd =
    rbind (fd_wrapper s fd) (\<lambda>_. let (r, s) = FDWrapper_close k s fd in rbind r (\<lambda>_. Inr s))"

definition O_NONBLOCK :: "32 word" where
  "O_NONBLOCK = 0x800"

definition FileDescriptor_blocking_flags :: "bool \<Rightarrow> 32 word \<Rightarrow> 32 word" where
  "FileDescriptor_blocking_flags blocking_state flags =
    (if blocking_state then flags XOR (flags AND O_NONBLOCK) else flags OR O_NONBLOCK)"

definition FileDescriptor_set_blocking :: "'w kernel \<Rightarrow> ('w, 'c) system_scheme \<Rightarrow> FileDescriptor \<Rightarrow> bool \<Rightarrow> ('w, 'c) system_scheme res" where
  "FileDescriptor_set_blocking k s fd blocking_state =
    rbind (fd_wrapper s fd) (\<lambda>w.
      attempt ''fcntl'' (sys_fcntl_getfl k (fw_fd w)) s (\<lambda>flags _ s.
      attempt ''fcntl'' (sys_fcntl_setfl k (fw_fd w)
          (sint (FileDescriptor_blocking_flags blocking_state (word_of_int flags)))) s (\<lambda>_ _ s.
        Inr s)))"

lemmas [sponge_eval] = narrow_int_def unix_error_def SystemCall_def invoke_def attempt_def fd_wrapper_def fd_update_def
  FDWrapper_make_def FDWrapper_close_def FDWrapper_destroy_def FileDescriptor_make_def FileDescriptor_duplicate_def
  FileDescriptor_release_def FileDescriptor_register_read_def FileDescriptor_register_write_def
  FileDescriptor_BUFFER_SIZE_def SIZE_T_MAX_def FileDescriptor_read_def FileDescriptor_write_once_def
  FileDescriptor_write_loop.simps FileDescriptor_write_def FileDescriptor_close_def O_NONBLOCK_def
  FileDescriptor_blocking_flags_def FileDescriptor_set_blocking_def

section \<open>What the program relies on\<close>

text \<open>
  The documented behaviour of \<open>read\<close> and \<open>writev\<close> on a stream. With what is waiting at each
  descriptor: a successful read returns a prefix of it, at most as long as asked for, and removes it; it returns
  nothing only when nothing was asked for or nothing is available, at the end of the data. With
  what was accepted at each descriptor: a successful write appends a prefix of the data; one call
  transfers less than 2 GiB. A failed call returns \<open>-1\<close> and sets the error number.
\<close>

definition kernel_reads :: "'w kernel \<Rightarrow> ('w \<Rightarrow> int \<Rightarrow> bytes) \<Rightarrow> bool" where
  "kernel_reads k pending \<longleftrightarrow>
    (\<forall>n count w. case sys_read k n count w of ((rv, errno, d), w') \<Rightarrow>
      if 0 \<le> rv then rv \<le> int count \<and> rv < 2 ^ 31 \<and> d = take (nat rv) (pending w n) \<and> length d = nat rv \<and>
        (rv = 0 \<longrightarrow> 0 < count \<longrightarrow> pending w n = []) \<and> pending w' = (pending w)(n := drop (nat rv) (pending w n))
      else rv = - 1 \<and> errno \<noteq> 0 \<and> pending w' = pending w)"

definition kernel_writes :: "'w kernel \<Rightarrow> ('w \<Rightarrow> int \<Rightarrow> bytes) \<Rightarrow> bool" where
  "kernel_writes k accepted \<longleftrightarrow>
    (\<forall>n iovs w. case sys_writev k n iovs w of ((rv, errno, _), w') \<Rightarrow>
      if 0 \<le> rv then rv \<le> int (length (concat (map fst iovs))) \<and> rv < 2 ^ 31 \<and>
        accepted w' = (accepted w)(n := accepted w n @ take (nat rv) (concat (map fst iovs)))
      else rv = - 1 \<and> errno \<noteq> 0 \<and> accepted w' = accepted w)"

text \<open>A blocking descriptor in working order accepts at least one byte at a time.\<close>

definition kernel_accepts :: "'w kernel \<Rightarrow> int \<Rightarrow> bool" where
  "kernel_accepts k n \<longleftrightarrow> (\<forall>iovs w. case sys_writev k n iovs w of ((rv, _, _), _) \<Rightarrow>
     if concat (map fst iovs) = [] then rv = 0 else 0 < rv)"

lemma narrow_int_small [simp]: "- (2 ^ 31) \<le> n \<Longrightarrow> n < 2 ^ 31 \<Longrightarrow> narrow_int n = n"
  by (simp add: narrow_int_def)

lemma fd_wrapper_Inr [simp]: "fd_wrapper s fd = Inr w \<longleftrightarrow> fd < length (sy_fds s) \<and> w = sy_fds s ! fd"
  by (auto simp: fd_wrapper_def)

lemma fd_update_simps [simp]:
  "sy_world (fd_update s fd f) = sy_world s" "length (sy_fds (fd_update s fd f)) = length (sy_fds s)"
  "fd < length (sy_fds s) \<Longrightarrow> sy_fds (fd_update s fd f) ! fd = f (sy_fds s ! fd)"
  "fd' \<noteq> fd \<Longrightarrow> sy_fds (fd_update s fd f) ! fd' = sy_fds s ! fd'"
  by (simp_all add: fd_update_def)

lemma register_simps [simp]:
  "sy_world (FileDescriptor_register_read s fd) = sy_world s" "sy_world (FileDescriptor_register_write s fd) = sy_world s"
  "length (sy_fds (FileDescriptor_register_read s fd)) = length (sy_fds s)"
  "length (sy_fds (FileDescriptor_register_write s fd)) = length (sy_fds s)"
  by (simp_all add: FileDescriptor_register_read_def FileDescriptor_register_write_def)

lemma concat_iovecs [simp]: "concat (map fst (BufferViewList_as_iovecs vl)) = concat vl"
  by (simp add: BufferViewList_as_iovecs_eq comp_def)

lemma invoke_eq:
  "call (sy_world s) = ((rv, errno, d), w) \<Longrightarrow> invoke name call s =
    (if 0 \<le> narrow_int rv \<or> errno = 0 then Inr (narrow_int rv, d) else Inl (unix_error name errno), s\<lparr>sy_world := w\<rparr>)"
  by (simp add: invoke_def SystemCall_def)

lemma kernel_writesD:
  assumes "kernel_writes k accepted" "sys_writev k n iovs w = ((rv, errno, u), w')"
  shows "if 0 \<le> rv then rv \<le> int (length (concat (map fst iovs))) \<and> rv < 2 ^ 31 \<and>
      accepted w' = (accepted w)(n := accepted w n @ take (nat rv) (concat (map fst iovs)))
    else rv = - 1 \<and> errno \<noteq> 0 \<and> accepted w' = accepted w"
  using assms(1) [unfolded kernel_writes_def, THEN spec [where x = n], THEN spec [where x = iovs], THEN spec [where x = w]]
  unfolding assms(2) prod.case .

lemma kernel_readsD:
  assumes "kernel_reads k pending" "sys_read k n count w = ((rv, errno, d), w')"
  shows "if 0 \<le> rv then rv \<le> int count \<and> rv < 2 ^ 31 \<and> d = take (nat rv) (pending w n) \<and> length d = nat rv \<and>
      (rv = 0 \<longrightarrow> 0 < count \<longrightarrow> pending w n = []) \<and> pending w' = (pending w)(n := drop (nat rv) (pending w n))
    else rv = - 1 \<and> errno \<noteq> 0 \<and> pending w' = pending w"
  using assms(1) [unfolded kernel_reads_def, THEN spec [where x = n], THEN spec [where x = count], THEN spec [where x = w]]
  unfolding assms(2) prod.case .

text \<open>One \<open>writev\<close>: either an error, or a prefix is accepted.\<close>

lemma invoke_writev:
  assumes "kernel_writes k accepted"
  shows "(\<exists>e s'. invoke ''writev'' (sys_writev k n (BufferViewList_as_iovecs vl)) s = (Inl (unix_error ''writev'' e), s') \<and>
      \<not> kernel_accepts k n) \<or>
    (\<exists>m w. invoke ''writev'' (sys_writev k n (BufferViewList_as_iovecs vl)) s = (Inr (int m, ()), s\<lparr>sy_world := w\<rparr>) \<and>
      m \<le> length (concat vl) \<and> (kernel_accepts k n \<longrightarrow> concat vl \<noteq> [] \<longrightarrow> m \<noteq> 0) \<and>
      accepted w = (accepted (sy_world s))(n := accepted (sy_world s) n @ take m (concat vl)))"
proof -
  obtain rv errno w' where call: "sys_writev k n (BufferViewList_as_iovecs vl) (sy_world s) = ((rv, errno, ()), w')"
    by (metis prod.exhaust_sel unit.exhaust)
  have accepts: "if concat vl = [] then rv = 0 else 0 < rv" if "kernel_accepts k n"
    using that [unfolded kernel_accepts_def, THEN spec [where x = "BufferViewList_as_iovecs vl"], THEN spec [where x = "sy_world s"]]
    unfolding call prod.case concat_iovecs .
  note law = kernel_writesD [OF assms call, unfolded concat_iovecs]
  show ?thesis
  proof (cases "0 \<le> rv")
    case True
    moreover have "kernel_accepts k n \<Longrightarrow> concat vl \<noteq> [] \<Longrightarrow> nat rv \<noteq> 0"
      using accepts by (simp split: if_splits)
    ultimately show ?thesis
      using law unfolding invoke_eq [of "sys_writev k n (BufferViewList_as_iovecs vl)", OF call]
      by (intro disjI2 exI [of _ "nat rv"] exI [of _ w']) (simp add: nat_le_iff)
  next
    case False
    then show ?thesis
      using law accepts unfolding invoke_eq [of "sys_writev k n (BufferViewList_as_iovecs vl)", OF call]
      by (auto split: if_splits)
  qed
qed

text \<open>One round of the loop.\<close>

lemma FileDescriptor_write_once_spec:
  assumes "kernel_writes k accepted" "fd < length (sy_fds s)" "length (concat buffer) < 2 ^ 63"
  defines "n \<equiv> fw_fd (sy_fds s ! fd)"
  shows "(\<exists>e. FileDescriptor_write_once k s fd buffer = Inl e \<and> \<not> kernel_accepts k n) \<or>
    (\<exists>m buffer' w. FileDescriptor_write_once k s fd buffer =
        Inr (m, buffer', FileDescriptor_register_write (s\<lparr>sy_world := w\<rparr>) fd) \<and>
      m \<le> length (concat buffer) \<and> concat buffer' = drop m (concat buffer) \<and> (concat buffer \<noteq> [] \<longrightarrow> m \<noteq> 0) \<and>
      accepted w = (accepted (sy_world s))(n := accepted (sy_world s) n @ take m (concat buffer)))"
proof -
  have size: "BufferViewList_size buffer = length (concat buffer)"
    using assms(3) by (intro BufferViewList_size_eq) (simp add: W64_def)
  consider e s' where "invoke ''writev'' (sys_writev k n (BufferViewList_as_iovecs buffer)) s = (Inl (unix_error ''writev'' e), s')"
      "\<not> kernel_accepts k n"
    | m w where "invoke ''writev'' (sys_writev k n (BufferViewList_as_iovecs buffer)) s = (Inr (int m, ()), s\<lparr>sy_world := w\<rparr>)"
      "m \<le> length (concat buffer)" "kernel_accepts k n \<longrightarrow> concat buffer \<noteq> [] \<longrightarrow> m \<noteq> 0"
      "accepted w = (accepted (sy_world s))(n := accepted (sy_world s) n @ take m (concat buffer))"
    using invoke_writev [OF assms(1), of n buffer s] by blast
  then show ?thesis
  proof cases
    case 1
    then show ?thesis
      using assms(2) by (simp add: FileDescriptor_write_once_def fd_wrapper_def attempt_def n_def)
  next
    case 2
    obtain buffer' where "BufferViewList_remove_prefix buffer m = Inr buffer'" "concat buffer' = drop m (concat buffer)"
      using BufferViewList_remove_prefix_ok [OF 2(2)] by blast
    then have "FileDescriptor_write_once k s fd buffer =
      (if m = 0 \<and> length (concat buffer) \<noteq> 0 then Inl (RuntimeError ''write returned 0 given non-empty input buffer'')
       else Inr (m, buffer', FileDescriptor_register_write (s\<lparr>sy_world := w\<rparr>) fd))"
      using 2(1,2) assms(2) unfolding FileDescriptor_write_once_def size by (simp add: fd_wrapper_def attempt_def n_def)
    then show ?thesis
      using 2(2-4) \<open>concat buffer' = drop m (concat buffer)\<close> by (cases "m = 0 \<and> concat buffer \<noteq> []") auto
  qed
qed

text \<open>A single round is all there is when not everything has to be written.\<close>

lemma FileDescriptor_write_some:
  assumes "kernel_writes k accepted" "fd < length (sy_fds s)" "length (concat buffer) < 2 ^ 63"
  defines "n \<equiv> fw_fd (sy_fds s ! fd)"
  shows "whenever (FileDescriptor_write k s fd buffer False) (\<lambda>(m, s').
    (\<exists>w. s' = FileDescriptor_register_write (s\<lparr>sy_world := w\<rparr>) fd \<and> m \<le> length (concat buffer) \<and>
      (concat buffer \<noteq> [] \<longrightarrow> m \<noteq> 0) \<and>
      accepted w = (accepted (sy_world s))(n := accepted (sy_world s) n @ take m (concat buffer))))"
proof -
  have "m < W64" if "m \<le> length (concat buffer)" for m
    using that assms(3) by (simp add: W64_def)
  then show ?thesis
    using FileDescriptor_write_once_spec [OF assms(1-3)]
    by (auto simp: FileDescriptor_write_def FileDescriptor_write_loop.simps [where write_all = False] n_def add64_def
      simp del: concat_eq_Nil_conv)
qed

text \<open>Where the descriptor accepts data, the loop goes on until everything is written.\<close>

lemma FileDescriptor_write_loop_all:
  assumes "kernel_writes k accepted" "kernel_accepts k n" "fd < length (sy_fds s)" "fw_fd (sy_fds s ! fd) = n"
    "sofar + length (concat buffer) < 2 ^ 63"
  shows "\<exists>s'. FileDescriptor_write_loop k s fd buffer True sofar = Inr (sofar + length (concat buffer), s') \<and>
    accepted (sy_world s') = (accepted (sy_world s))(n := accepted (sy_world s) n @ concat buffer) \<and>
    system.more s' = system.more s \<and> (\<exists>c. sy_fds s' = (sy_fds s)[fd := (sy_fds s ! fd)\<lparr>fw_write_count := c\<rparr>])"
  using assms(3-5)
proof (induction "length (concat buffer)" arbitrary: s buffer sofar rule: less_induct)
  case less
  have "length (concat buffer) < 2 ^ 63"
    using less.prems(3) by simp
  then obtain m buffer' w where once: "FileDescriptor_write_once k s fd buffer =
      Inr (m, buffer', FileDescriptor_register_write (s\<lparr>sy_world := w\<rparr>) fd)"
    and m: "m \<le> length (concat buffer)" "concat buffer' = drop m (concat buffer)" "concat buffer \<noteq> [] \<Longrightarrow> m \<noteq> 0"
    and w: "accepted w = (accepted (sy_world s))(n := accepted (sy_world s) n @ take m (concat buffer))"
    using FileDescriptor_write_once_spec [OF assms(1) less.prems(1), of buffer] assms(2) less.prems(2) by auto
  let ?s = "FileDescriptor_register_write (s\<lparr>sy_world := w\<rparr>) fd"
  have size: "BufferViewList_size buffer' = length (concat buffer) - m"
    using less.prems(3) m(2) by (subst BufferViewList_size_eq) (simp_all add: W64_def)
  have add: "add64 sofar m = sofar + m"
    using less.prems(3) m(1) by (intro add64_small) (simp add: W64_def)
  have fds: "fd < length (sy_fds ?s)" "fw_fd (sy_fds ?s ! fd) = n" "system.more ?s = system.more s"
    "sy_fds ?s = (sy_fds s)[fd := (sy_fds s ! fd)\<lparr>fw_write_count := fw_write_count (sy_fds s ! fd) + 1\<rparr>]"
    using less.prems(1,2) by (simp_all add: FileDescriptor_register_write_def fd_update_def)
  show ?case
  proof (cases "m = length (concat buffer)")
    case True
    then show ?thesis
      using once w fds(3,4) add by (subst FileDescriptor_write_loop.simps) (auto simp: size)
  next
    case False
    have "length (concat buffer') < length (concat buffer)" "sofar + m + length (concat buffer') = sofar + length (concat buffer)"
      using m False by (cases "concat buffer = []"; simp)+
    moreover from this have "sofar + m + length (concat buffer') < 2 ^ 63"
      using less.prems(3) by simp
    ultimately obtain s' c where "FileDescriptor_write_loop k ?s fd buffer' True (sofar + m) = Inr (sofar + length (concat buffer), s')"
      "accepted (sy_world s') = (accepted w)(n := accepted w n @ concat buffer')" "system.more s' = system.more s"
      "sy_fds s' = (sy_fds ?s)[fd := (sy_fds ?s ! fd)\<lparr>fw_write_count := c\<rparr>]"
      using less.hyps [OF _ fds(1,2), of buffer' "sofar + m"] fds(3) by auto
    moreover have "take m (concat buffer) @ concat buffer' = concat buffer"
      using m(2) by simp
    ultimately show ?thesis
      using once w False m(1) fds(4) less.prems(1) by (subst FileDescriptor_write_loop.simps) (auto simp: size add)
  qed
qed

text \<open>A successful read returns a prefix of what is waiting.\<close>

lemma FileDescriptor_read_spec:
  assumes "kernel_reads k pending" "fd < length (sy_fds s)"
  defines "n \<equiv> fw_fd (sy_fds s ! fd)"
  shows "(\<exists>e. FileDescriptor_read k s fd limit = Inl (unix_error ''read'' e)) \<or>
    (\<exists>m w. FileDescriptor_read k s fd limit = Inr (take m (pending (sy_world s) n),
        FileDescriptor_register_read (if 0 < limit \<and> m = 0 then fd_update (s\<lparr>sy_world := w\<rparr>) fd (\<lambda>w. w\<lparr>fw_eof := True\<rparr>)
          else s\<lparr>sy_world := w\<rparr>) fd) \<and>
      m \<le> limit \<and> m \<le> length (pending (sy_world s) n) \<and> (m = 0 \<longrightarrow> 0 < limit \<longrightarrow> pending (sy_world s) n = []) \<and>
      pending w = (pending (sy_world s))(n := drop m (pending (sy_world s) n)))"
proof -
  let ?size = "min FileDescriptor_BUFFER_SIZE limit"
  obtain rv errno d w' where call: "sys_read k n ?size (sy_world s) = ((rv, errno, d), w')"
    by (metis prod.exhaust_sel)
  note law = kernel_readsD [OF assms(1) call] and inv = invoke_eq [of "sys_read k n ?size", OF call]
  show ?thesis
  proof (cases "0 \<le> rv")
    case True
    then have rv: "rv \<le> int ?size" "narrow_int rv = rv" "d = take (nat rv) (pending (sy_world s) n)" "length d = nat rv"
      "pending w' = (pending (sy_world s))(n := drop (nat rv) (pending (sy_world s) n))"
      "rv = 0 \<longrightarrow> 0 < ?size \<longrightarrow> pending (sy_world s) n = []"
      using law by auto
    moreover have "0 < FileDescriptor_BUFFER_SIZE"
      by (simp add: FileDescriptor_BUFFER_SIZE_def)
    ultimately have "rv = 0 \<longrightarrow> 0 < limit \<longrightarrow> pending (sy_world s) n = []"
      by simp
    moreover from rv have "nat rv \<le> limit" "nat rv \<le> length (pending (sy_world s) n)" "length d \<le> ?size"
      "string_resize d (nat rv) = take (nat rv) (pending (sy_world s) n)"
      by (auto simp: string_resize_def)
    ultimately show ?thesis
      using True rv assms(2) inv
      by (intro disjI2 exI [of _ "nat rv"] exI [of _ w'])
        (auto simp: FileDescriptor_read_def fd_wrapper_def attempt_def n_def Let_def)
  next
    case False
    then show ?thesis
      using law assms(2) inv by (intro disjI1 exI [of _ errno])
        (simp add: FileDescriptor_read_def fd_wrapper_def attempt_def n_def)
  qed
qed

section \<open>What a call leaves alone\<close>

text \<open>
  Whatever the operating system answers: a call through one handle changes the wrapper of that
  descriptor only, keeps its number, and does not touch the program's own state.
\<close>

definition fd_frame :: "FileDescriptor \<Rightarrow> ('w, 'c) system_scheme \<Rightarrow> ('w, 'c) system_scheme \<Rightarrow> bool" where
  "fd_frame fd s s' \<longleftrightarrow> system.more s' = system.more s \<and> length (sy_fds s') = length (sy_fds s) \<and>
    (\<forall>i. i \<noteq> fd \<longrightarrow> sy_fds s' ! i = sy_fds s ! i) \<and> fw_fd (sy_fds s' ! fd) = fw_fd (sy_fds s ! fd)"

lemma fd_frame_refl [simp]: "fd_frame fd s s"
  by (simp add: fd_frame_def)

lemma fd_frame_trans: "fd_frame fd s s' \<Longrightarrow> fd_frame fd s' s'' \<Longrightarrow> fd_frame fd s s''"
  by (simp add: fd_frame_def)

lemma fd_frame_world [simp]: "fd_frame fd (s\<lparr>sy_world := w\<rparr>) s' = fd_frame fd s s'"
  by (simp add: fd_frame_def)

lemma fd_frame_update: "(\<And>w. fw_fd (f w) = fw_fd w) \<Longrightarrow> fd_frame fd s s' \<Longrightarrow> fd_frame fd s (fd_update s' fd f)"
  by (cases "fd < length (sy_fds s)") (simp_all add: fd_frame_def fd_update_def nth_list_update list_update_beyond)

lemma fd_frame_register [intro]:
  "fd_frame fd s s' \<Longrightarrow> fd_frame fd s (FileDescriptor_register_read s' fd)"
  "fd_frame fd s s' \<Longrightarrow> fd_frame fd s (FileDescriptor_register_write s' fd)"
  by (simp_all add: FileDescriptor_register_read_def FileDescriptor_register_write_def fd_frame_update)

lemma whenever_bindI: "(\<And>x. whenever (f x) Q) \<Longrightarrow> whenever (rbind m f) Q"
  by (cases m) simp_all

lemma whenever_prodI: "(\<And>a b. x = (a, b) \<Longrightarrow> whenever (f a b) Q) \<Longrightarrow> whenever (case x of (a, b) \<Rightarrow> f a b) Q"
  by (cases x) simp

lemma whenever_attempt:
  "(\<And>rv d w. whenever (f rv d (s\<lparr>sy_world := w\<rparr>)) Q) \<Longrightarrow> whenever (attempt name call s f) Q"
  by (auto simp: whenever_def attempt_Inr_iff invoke_def split: prod.splits)

lemma FileDescriptor_read_frame:
  "whenever (FileDescriptor_read k s fd limit) (\<lambda>(d, s'). fd < length (sy_fds s) \<and> fd_frame fd s s' \<and>
    fw_read_count (sy_fds s' ! fd) = fw_read_count (sy_fds s ! fd) + 1)"
proof (cases "fd < length (sy_fds s)")
  case True
  have "fd_frame fd s (fd_update (s\<lparr>sy_world := w\<rparr>) fd (\<lambda>w. w\<lparr>fw_eof := True\<rparr>))"
    "fd_frame fd s (s\<lparr>sy_world := w\<rparr>)" for w
    by (rule fd_frame_update) (simp_all add: fd_frame_def)
  then show ?thesis
    using True unfolding FileDescriptor_read_def
    by (auto simp: fd_wrapper_def FileDescriptor_register_read_def Let_def intro!: whenever_attempt fd_frame_update)
qed (simp add: FileDescriptor_read_def fd_wrapper_def)

lemma FileDescriptor_write_once_frame:
  "whenever (FileDescriptor_write_once k s fd buffer) (\<lambda>(n, buffer', s'). fd < length (sy_fds s) \<and> fd_frame fd s s' \<and>
    fw_write_count (sy_fds s' ! fd) = fw_write_count (sy_fds s ! fd) + 1 \<and>
    fw_read_count (sy_fds s' ! fd) = fw_read_count (sy_fds s ! fd))"
proof (cases "fd < length (sy_fds s)")
  case True
  have "fd_frame fd s (FileDescriptor_register_write (s\<lparr>sy_world := w\<rparr>) fd)" for w
    by (rule fd_frame_register) (simp add: fd_frame_def)
  then show ?thesis
    using True unfolding FileDescriptor_write_once_def
    by (auto simp: fd_wrapper_def whenever_def [of "BufferViewList_remove_prefix _ _"] intro!: whenever_attempt)
      (simp_all add: FileDescriptor_register_write_def)
qed (simp add: FileDescriptor_write_once_def fd_wrapper_def)

lemma FileDescriptor_write_loop_frame:
  "whenever (FileDescriptor_write_loop k s fd buffer write_all sofar) (\<lambda>(n, s'). fd < length (sy_fds s) \<and> fd_frame fd s s' \<and>
    fw_read_count (sy_fds s' ! fd) = fw_read_count (sy_fds s ! fd))"
proof (induction k s fd buffer write_all sofar rule: FileDescriptor_write_loop.induct)
  case (1 k s fd buffer write_all sofar)
  show ?case
  proof (cases "FileDescriptor_write_once k s fd buffer")
    case (Inr x)
    obtain m buffer' s1 where x: "x = (m, buffer', s1)"
      by (cases x) auto
    have s1: "fd < length (sy_fds s)" "fd_frame fd s s1" "fw_read_count (sy_fds s1 ! fd) = fw_read_count (sy_fds s ! fd)"
      using wheneverD [OF FileDescriptor_write_once_frame Inr] by (auto simp: x)
    then show ?thesis
      using "1.IH" [OF Inr x [symmetric] refl refl]
      by (subst FileDescriptor_write_loop.simps) (auto simp: Inr x Let_def intro: fd_frame_trans whenever_mono)
  qed (simp add: FileDescriptor_write_loop.simps)
qed

lemma FileDescriptor_write_frame:
  "whenever (FileDescriptor_write k s fd buffer write_all) (\<lambda>(n, s'). fd < length (sy_fds s) \<and> fd_frame fd s s' \<and>
    fw_read_count (sy_fds s' ! fd) = fw_read_count (sy_fds s ! fd))"
  unfolding FileDescriptor_write_def by (rule FileDescriptor_write_loop_frame)

lemma FileDescriptor_write_counts:
  "whenever (FileDescriptor_write k s fd buffer False) (\<lambda>(n, s'). fd < length (sy_fds s) \<and> fd_frame fd s s' \<and>
    fw_write_count (sy_fds s' ! fd) = fw_write_count (sy_fds s ! fd) + 1)"
proof (cases "FileDescriptor_write_once k s fd buffer")
  case (Inr x)
  then show ?thesis
    using wheneverD [OF FileDescriptor_write_once_frame Inr] unfolding FileDescriptor_write_def
    by (subst FileDescriptor_write_loop.simps) (auto simp: Inr Let_def split: prod.splits)
qed (simp add: FileDescriptor_write_def FileDescriptor_write_loop.simps)

section \<open>A system in memory\<close>

text \<open>
  An operating system that shows the contracts can be met: streams and datagrams in memory. A write
  takes at most one byte more than \<open>mw_chunk\<close>, a read from an empty stream finds its end, every descriptor is ready
  for writing and one with something waiting is ready for reading, and each look at the clock takes ten
  milliseconds.
\<close>

record memory_world =
  mw_in :: "int \<Rightarrow> bytes"
  mw_out :: "int \<Rightarrow> bytes"
  mw_chunk :: nat
  mw_datagrams :: "int \<Rightarrow> (bytes \<times> bytes) list"
  mw_sent :: "(int \<times> bytes option \<times> bytes) list"
  mw_next :: int
  mw_time :: nat

definition memory_ready :: "memory_world \<Rightarrow> pollfd \<Rightarrow> 16 word" where
  "memory_ready w p = (pf_events p AND ((if mw_in w (pf_fd p) \<noteq> [] \<or> mw_datagrams w (pf_fd p) \<noteq> [] then POLLIN else 0) OR POLLOUT))"

definition memory_done :: "memory_world \<Rightarrow> (int \<times> int \<times> unit) \<times> memory_world" where
  "memory_done w = ((0, 0, ()), w)"

definition memory_fresh :: "memory_world \<Rightarrow> (int \<times> int \<times> unit) \<times> memory_world" where
  "memory_fresh w = ((mw_next w, 0, ()), w\<lparr>mw_next := mw_next w + 1\<rparr>)"

definition memory_kernel :: "memory_world kernel" where
  "memory_kernel = \<lparr>
    sys_read = (\<lambda>n count w. let d = take (min count 65536) (mw_in w n) in
      ((int (length d), 0, d), w\<lparr>mw_in := (mw_in w)(n := drop (length d) (mw_in w n))\<rparr>)),
    sys_writev = (\<lambda>n iovs w. let d = take (Suc (mw_chunk w mod 65536)) (concat (map fst iovs)) in
      ((int (length d), 0, ()), w\<lparr>mw_out := (mw_out w)(n := mw_out w n @ d)\<rparr>)),
    sys_close = (\<lambda>n. memory_done),
    sys_fcntl_getfl = (\<lambda>n. memory_done),
    sys_fcntl_setfl = (\<lambda>n flags. memory_done),
    sys_poll = (\<lambda>pollfds timeout w.
      ((int (length (filter (\<lambda>p. memory_ready w p \<noteq> 0) pollfds)), 0,
        \<lambda>i. if i < length pollfds then memory_ready w (pollfds ! i) else 0), w)),
    sys_socket = (\<lambda>domain type. memory_fresh),
    sys_getsockopt = (\<lambda>n level option w. ((0, 0, (1, 4)), w)),
    sys_setsockopt = (\<lambda>n level option value. memory_done),
    sys_getsockname = (\<lambda>n w. ((0, 0, ([], 0)), w)),
    sys_getpeername = (\<lambda>n w. ((0, 0, ([], 0)), w)),
    sys_bind = (\<lambda>n address. memory_done),
    sys_connect = (\<lambda>n address. memory_done),
    sys_shutdown = (\<lambda>n how. memory_done),
    sys_listen = (\<lambda>n backlog. memory_done),
    sys_accept = (\<lambda>n. memory_fresh),
    sys_recvfrom = (\<lambda>n size w. case mw_datagrams w n of
        [] \<Rightarrow> ((- 1, 11, ([], [])), w)
      | (payload, address) # rest \<Rightarrow>
          ((int (length payload), 0, (take size payload, address)), w\<lparr>mw_datagrams := (mw_datagrams w)(n := rest)\<rparr>)),
    sys_sendmsg = (\<lambda>n address iovs w. let d = concat (map fst iovs) in
      ((int (length d), 0, ()), w\<lparr>mw_sent := mw_sent w @ [(n, address, d)]\<rparr>)),
    sys_socketpair = (\<lambda>domain type w. ((0, 0, (mw_next w, mw_next w + 1)), w\<lparr>mw_next := mw_next w + 2\<rparr>)),
    sys_open = (\<lambda>path. memory_fresh),
    sys_tunsetiff = (\<lambda>n flags name. memory_done),
    sys_clock_ms = (\<lambda>w. (mw_time w, w\<lparr>mw_time := mw_time w + 10\<rparr>))\<rparr>"

lemma take_min_length: "take (min (length xs) n) xs = take n xs"
  by (simp add: min_def)

lemma memory_kernel_reads: "kernel_reads memory_kernel mw_in"
  by (auto simp: kernel_reads_def memory_kernel_def take_min_length Let_def min_def split: if_splits)

lemma memory_kernel_writes: "kernel_writes memory_kernel mw_out"
  by (auto simp: kernel_writes_def memory_kernel_def take_min_length Let_def)

lemma memory_kernel_accepts: "kernel_accepts memory_kernel n"
  by (auto simp: kernel_accepts_def memory_kernel_def Let_def simp del: concat_eq_Nil_conv)

definition memory_start :: memory_world where
  "memory_start = \<lparr>mw_in = \<lambda>_. [], mw_out = \<lambda>_. [], mw_chunk = 1, mw_datagrams = \<lambda>_. [], mw_sent = [],
     mw_next = 3, mw_time = 0\<rparr>"

lemmas [sponge_eval] = POLLIN_def POLLOUT_def POLLERR_def POLLHUP_def POLLNVAL_def memory_ready_def memory_done_def
  memory_fresh_def memory_kernel_def memory_start_def

section \<open>Properties\<close>



end
