(* ===== verification/Sponge_Sockets.thy ===== *)
theory Sponge_Sockets
  imports File_Descriptor Sponge_Address
begin

text \<open>
  Sockets and network devices, \<open>libsponge/util/socket.hh\<close>, \<open>socket.cc\<close>, \<open>util/tun.hh\<close> and
  \<open>tun.cc\<close>: checked wrappers of the calls of the operating system, which is an argument.
\<close>

section \<open>Constants of the system\<close>

definition AF_UNIX :: int where
  "AF_UNIX = 1"

definition SOCK_STREAM :: int where
  "SOCK_STREAM = 1"

definition SOCK_DGRAM :: int where
  "SOCK_DGRAM = 2"

definition SOL_SOCKET :: int where
  "SOL_SOCKET = 1"

definition SO_REUSEADDR :: int where
  "SO_REUSEADDR = 2"

definition SO_TYPE :: int where
  "SO_TYPE = 3"

definition SO_DOMAIN :: int where
  "SO_DOMAIN = 39"

definition SHUT_RD :: int where
  "SHUT_RD = 0"

definition SHUT_WR :: int where
  "SHUT_WR = 1"

definition SHUT_RDWR :: int where
  "SHUT_RDWR = 2"

section \<open>Socket\<close>

definition Socket_make :: "'w kernel \<Rightarrow> ('w, 'c) system_scheme \<Rightarrow> int \<Rightarrow> int \<Rightarrow> (FileDescriptor \<times> ('w, 'c) system_scheme) res" where
  "Socket_make k s domain type =
    attempt ''socket'' (sys_socket k domain type) s (\<lambda>fd _ s. FileDescriptor_make s fd)"

definition Socket_of_fd :: "'w kernel \<Rightarrow> ('w, 'c) system_scheme \<Rightarrow> FileDescriptor \<Rightarrow> int \<Rightarrow> int \<Rightarrow> ('w, 'c) system_scheme res" where
  "Socket_of_fd k s fd domain type =
    rbind (fd_wrapper s fd) (\<lambda>w.
      attempt ''getsockopt'' (sys_getsockopt k (fw_fd w) SOL_SOCKET SO_DOMAIN) s (\<lambda>_ (actual_value, len) s.
        if len \<noteq> 4 \<or> actual_value \<noteq> domain then Inl (RuntimeError ''socket domain mismatch'')
        else attempt ''getsockopt'' (sys_getsockopt k (fw_fd w) SOL_SOCKET SO_TYPE) s (\<lambda>_ (actual_value, len) s.
          if len \<noteq> 4 \<or> actual_value \<noteq> type then Inl (RuntimeError ''socket type mismatch'')
          else Inr s)))"

text \<open>The address is written into the 128 bytes of an \<open>Address::Raw\<close>.\<close>

definition Socket_get_address ::
  "string \<Rightarrow> (int \<Rightarrow> ('w, bytes \<times> nat) call) \<Rightarrow> ('w, 'c) system_scheme \<Rightarrow> FileDescriptor \<Rightarrow> (Address \<times> ('w, 'c) system_scheme) res" where
  "Socket_get_address name_of_function function s fd =
    rbind (fd_wrapper s fd) (\<lambda>w.
      attempt name_of_function (function (fw_fd w)) s (\<lambda>_ (address, size) s.
        rbind (Address_of_sockaddr (string_resize address sizeof_sockaddr_storage) size) (\<lambda>a. Inr (a, s))))"

definition Socket_local_address :: "'w kernel \<Rightarrow> ('w, 'c) system_scheme \<Rightarrow> FileDescriptor \<Rightarrow> (Address \<times> ('w, 'c) system_scheme) res" where
  "Socket_local_address k s fd = Socket_get_address ''getsockname'' (sys_getsockname k) s fd"

definition Socket_peer_address :: "'w kernel \<Rightarrow> ('w, 'c) system_scheme \<Rightarrow> FileDescriptor \<Rightarrow> (Address \<times> ('w, 'c) system_scheme) res" where
  "Socket_peer_address k s fd = Socket_get_address ''getpeername'' (sys_getpeername k) s fd"

text \<open>The bytes of an address that are handed to the system.\<close>

definition Address_sockaddr :: "Address \<Rightarrow> bytes" where
  "Address_sockaddr a = take (adr_size a) (adr_storage a)"

definition Socket_bind :: "'w kernel \<Rightarrow> ('w, 'c) system_scheme \<Rightarrow> FileDescriptor \<Rightarrow> Address \<Rightarrow> ('w, 'c) system_scheme res" where
  "Socket_bind k s fd address =
    rbind (fd_wrapper s fd) (\<lambda>w. attempt ''bind'' (sys_bind k (fw_fd w) (Address_sockaddr address)) s (\<lambda>_ _ s. Inr s))"

definition Socket_connect :: "'w kernel \<Rightarrow> ('w, 'c) system_scheme \<Rightarrow> FileDescriptor \<Rightarrow> Address \<Rightarrow> ('w, 'c) system_scheme res" where
  "Socket_connect k s fd address =
    rbind (fd_wrapper s fd) (\<lambda>w. attempt ''connect'' (sys_connect k (fw_fd w) (Address_sockaddr address)) s (\<lambda>_ _ s. Inr s))"

definition Socket_shutdown :: "'w kernel \<Rightarrow> ('w, 'c) system_scheme \<Rightarrow> FileDescriptor \<Rightarrow> int \<Rightarrow> ('w, 'c) system_scheme res" where
  "Socket_shutdown k s fd how =
    rbind (fd_wrapper s fd) (\<lambda>w.
      attempt ''shutdown'' (sys_shutdown k (fw_fd w) how) s (\<lambda>_ _ s.
        if how = SHUT_RD then Inr (FileDescriptor_register_read s fd)
        else if how = SHUT_WR then Inr (FileDescriptor_register_write s fd)
        else if how = SHUT_RDWR then Inr (FileDescriptor_register_write (FileDescriptor_register_read s fd) fd)
        else Inl (RuntimeError ''Socket::shutdown() called with invalid `how`'')))"

definition Socket_setsockopt :: "'w kernel \<Rightarrow> ('w, 'c) system_scheme \<Rightarrow> FileDescriptor \<Rightarrow> int \<Rightarrow> int \<Rightarrow> int \<Rightarrow> ('w, 'c) system_scheme res" where
  "Socket_setsockopt k s fd level option option_value =
    rbind (fd_wrapper s fd) (\<lambda>w.
      attempt ''setsockopt'' (sys_setsockopt k (fw_fd w) level option option_value) s (\<lambda>_ _ s. Inr s))"

definition Socket_set_reuseaddr :: "'w kernel \<Rightarrow> ('w, 'c) system_scheme \<Rightarrow> FileDescriptor \<Rightarrow> ('w, 'c) system_scheme res" where
  "Socket_set_reuseaddr k s fd = Socket_setsockopt k s fd SOL_SOCKET SO_REUSEADDR 1"

section \<open>UDPSocket\<close>

definition UDPSocket_make :: "'w kernel \<Rightarrow> ('w, 'c) system_scheme \<Rightarrow> (FileDescriptor \<times> ('w, 'c) system_scheme) res" where
  "UDPSocket_make k s = Socket_make k s AF_INET SOCK_DGRAM"

definition UDPSocket_of_fd :: "'w kernel \<Rightarrow> ('w, 'c) system_scheme \<Rightarrow> FileDescriptor \<Rightarrow> ('w, 'c) system_scheme res" where
  "UDPSocket_of_fd k s fd = Socket_of_fd k s fd AF_INET SOCK_DGRAM"

record received_datagram =
  rd_source_address :: Address
  rd_payload :: bytes

definition UDPSocket_default_mtu :: size_t where
  "UDPSocket_default_mtu = 65536"

definition UDPSocket_recv ::
  "'w kernel \<Rightarrow> ('w, 'c) system_scheme \<Rightarrow> FileDescriptor \<Rightarrow> size_t \<Rightarrow> (received_datagram \<times> ('w, 'c) system_scheme) res" where
  "UDPSocket_recv k s fd mtu =
    rbind (fd_wrapper s fd) (\<lambda>w.
      attempt ''recvfrom'' (sys_recvfrom k (fw_fd w) mtu) s (\<lambda>recv_len (payload, address) s.
        if int mtu < recv_len then Inl (RuntimeError ''recvfrom (oversized datagram)'')
        else
          let s = FileDescriptor_register_read s fd in
          rbind (Address_of_sockaddr (string_resize address sizeof_sockaddr_storage) (length address)) (\<lambda>source_address.
            if recv_len < 0 then Inl LengthError
            else Inr (\<lparr>rd_source_address = source_address, rd_payload = string_resize (take mtu payload) (nat recv_len)\<rparr>, s))))"

definition sendmsg_helper ::
  "'w kernel \<Rightarrow> ('w, 'c) system_scheme \<Rightarrow> int \<Rightarrow> bytes option \<Rightarrow> BufferViewList \<Rightarrow> ('w, 'c) system_scheme res" where
  "sendmsg_helper k s fd_num destination_address payload =
    attempt ''sendmsg'' (sys_sendmsg k fd_num destination_address (BufferViewList_as_iovecs payload)) s (\<lambda>bytes_sent _ s.
      if nat (bytes_sent mod int W64) \<noteq> BufferViewList_size payload
      then Inl (RuntimeError ''datagram payload too big for sendmsg()'') else Inr s)"

definition UDPSocket_sendto ::
  "'w kernel \<Rightarrow> ('w, 'c) system_scheme \<Rightarrow> FileDescriptor \<Rightarrow> Address \<Rightarrow> BufferViewList \<Rightarrow> ('w, 'c) system_scheme res" where
  "UDPSocket_sendto k s fd destination payload =
    rbind (fd_wrapper s fd) (\<lambda>w.
    rbind (sendmsg_helper k s (fw_fd w) (Some (Address_sockaddr destination)) payload) (\<lambda>s.
      Inr (FileDescriptor_register_write s fd)))"

definition UDPSocket_send :: "'w kernel \<Rightarrow> ('w, 'c) system_scheme \<Rightarrow> FileDescriptor \<Rightarrow> BufferViewList \<Rightarrow> ('w, 'c) system_scheme res" where
  "UDPSocket_send k s fd payload =
    rbind (fd_wrapper s fd) (\<lambda>w.
    rbind (sendmsg_helper k s (fw_fd w) None payload) (\<lambda>s.
      Inr (FileDescriptor_register_write s fd)))"

section \<open>TCPSocket and LocalStreamSocket\<close>

definition TCPSocket_make :: "'w kernel \<Rightarrow> ('w, 'c) system_scheme \<Rightarrow> (FileDescriptor \<times> ('w, 'c) system_scheme) res" where
  "TCPSocket_make k s = Socket_make k s AF_INET SOCK_STREAM"

definition TCPSocket_of_fd :: "'w kernel \<Rightarrow> ('w, 'c) system_scheme \<Rightarrow> FileDescriptor \<Rightarrow> ('w, 'c) system_scheme res" where
  "TCPSocket_of_fd k s fd = Socket_of_fd k s fd AF_INET SOCK_STREAM"

definition TCPSocket_listen :: "'w kernel \<Rightarrow> ('w, 'c) system_scheme \<Rightarrow> FileDescriptor \<Rightarrow> int \<Rightarrow> ('w, 'c) system_scheme res" where
  "TCPSocket_listen k s fd backlog =
    rbind (fd_wrapper s fd) (\<lambda>w. attempt ''listen'' (sys_listen k (fw_fd w) backlog) s (\<lambda>_ _ s. Inr s))"

definition TCPSocket_accept :: "'w kernel \<Rightarrow> ('w, 'c) system_scheme \<Rightarrow> FileDescriptor \<Rightarrow> (FileDescriptor \<times> ('w, 'c) system_scheme) res" where
  "TCPSocket_accept k s fd =
    rbind (fd_wrapper s fd) (\<lambda>w.
      attempt ''accept'' (sys_accept k (fw_fd w)) (FileDescriptor_register_read s fd) (\<lambda>new_fd _ s.
        rbind (FileDescriptor_make s new_fd) (\<lambda>(new, s).
        rbind (TCPSocket_of_fd k s new) (\<lambda>s. Inr (new, s)))))"

definition LocalStreamSocket_of_fd :: "'w kernel \<Rightarrow> ('w, 'c) system_scheme \<Rightarrow> FileDescriptor \<Rightarrow> ('w, 'c) system_scheme res" where
  "LocalStreamSocket_of_fd k s fd = Socket_of_fd k s fd AF_UNIX SOCK_STREAM"

section \<open>TUN and TAP devices\<close>

definition CLONEDEV :: string where
  "CLONEDEV = ''/dev/net/tun''"

definition IFF_TUN :: int where
  "IFF_TUN = 0x0001"

definition IFF_TAP :: int where
  "IFF_TAP = 0x0002"

definition IFF_NO_PI :: int where
  "IFF_NO_PI = 0x1000"

text \<open>The 16 bytes of \<open>ifr_name\<close>: at most 15 characters of the name, then zeros.\<close>

definition TunTapFD_ifr_name :: "string \<Rightarrow> bytes" where
  "TunTapFD_ifr_name devname = string_resize (map (\<lambda>c. of_nat (of_char c)) (take 15 devname)) 16"

definition TunTapFD_make :: "'w kernel \<Rightarrow> ('w, 'c) system_scheme \<Rightarrow> string \<Rightarrow> bool \<Rightarrow> (FileDescriptor \<times> ('w, 'c) system_scheme) res" where
  "TunTapFD_make k s devname is_tun =
    attempt ''open'' (sys_open k CLONEDEV) s (\<lambda>n _ s.
      rbind (FileDescriptor_make s n) (\<lambda>(fd, s).
        attempt ''ioctl'' (sys_tunsetiff k n ((if is_tun then IFF_TUN else IFF_TAP) + IFF_NO_PI) (TunTapFD_ifr_name devname)) s
          (\<lambda>_ _ s. Inr (fd, s))))"

definition TunFD_make :: "'w kernel \<Rightarrow> ('w, 'c) system_scheme \<Rightarrow> string \<Rightarrow> (FileDescriptor \<times> ('w, 'c) system_scheme) res" where
  "TunFD_make k s devname = TunTapFD_make k s devname True"

definition TapFD_make :: "'w kernel \<Rightarrow> ('w, 'c) system_scheme \<Rightarrow> string \<Rightarrow> (FileDescriptor \<times> ('w, 'c) system_scheme) res" where
  "TapFD_make k s devname = TunTapFD_make k s devname False"

lemmas [sponge_eval] = AF_UNIX_def SOCK_STREAM_def SOCK_DGRAM_def SOL_SOCKET_def SO_REUSEADDR_def SO_TYPE_def SO_DOMAIN_def
  SHUT_RD_def SHUT_WR_def SHUT_RDWR_def Socket_make_def Socket_of_fd_def Socket_get_address_def Socket_local_address_def
  Socket_peer_address_def Address_sockaddr_def Socket_bind_def Socket_connect_def Socket_shutdown_def Socket_setsockopt_def
  Socket_set_reuseaddr_def UDPSocket_make_def UDPSocket_of_fd_def UDPSocket_default_mtu_def UDPSocket_recv_def
  sendmsg_helper_def UDPSocket_sendto_def UDPSocket_send_def TCPSocket_make_def TCPSocket_of_fd_def TCPSocket_listen_def
  TCPSocket_accept_def LocalStreamSocket_of_fd_def CLONEDEV_def IFF_TUN_def IFF_TAP_def IFF_NO_PI_def
  TunTapFD_ifr_name_def TunTapFD_make_def TunFD_make_def TapFD_make_def

section \<open>Datagrams\<close>

text \<open>
  The documented behaviour of \<open>recvfrom\<close> with \<open>MSG_TRUNC\<close> and of \<open>sendmsg\<close>. With the datagrams
  waiting at each descriptor: a successful receive takes the oldest and returns its full length, its first bytes
  and the address of its sender. With the log of all datagrams sent: a successful send is atomic.
\<close>

definition kernel_receives :: "'w kernel \<Rightarrow> ('w \<Rightarrow> int \<Rightarrow> (bytes \<times> bytes) list) \<Rightarrow> bool" where
  "kernel_receives k waiting \<longleftrightarrow>
    (\<forall>n sz w. case sys_recvfrom k n sz w of ((rv, errno, d), w') \<Rightarrow>
      if waiting w n = [] then rv = - 1 \<and> errno \<noteq> 0 \<and> waiting w' = waiting w
      else length (fst (hd (waiting w n))) < 65536 \<longrightarrow> rv = int (length (fst (hd (waiting w n)))) \<and>
        d = (take sz (fst (hd (waiting w n))), snd (hd (waiting w n))) \<and>
        waiting w' = (waiting w)(n := tl (waiting w n)))"

definition kernel_sends :: "'w kernel \<Rightarrow> ('w \<Rightarrow> (int \<times> bytes option \<times> bytes) list) \<Rightarrow> bool" where
  "kernel_sends k sent \<longleftrightarrow>
    (\<forall>n address iovs w. case sys_sendmsg k n address iovs w of ((rv, errno, _), w') \<Rightarrow>
      length (concat (map fst iovs)) < 65536 \<longrightarrow> rv = int (length (concat (map fst iovs))) \<and>
        sent w' = sent w @ [(n, address, concat (map fst iovs))])"

lemma kernel_receivesD:
  assumes "kernel_receives k waiting" "sys_recvfrom k n sz w = ((rv, errno, d), w')"
  shows "if waiting w n = [] then rv = - 1 \<and> errno \<noteq> 0 \<and> waiting w' = waiting w
    else length (fst (hd (waiting w n))) < 65536 \<longrightarrow> rv = int (length (fst (hd (waiting w n)))) \<and>
      d = (take sz (fst (hd (waiting w n))), snd (hd (waiting w n))) \<and>
      waiting w' = (waiting w)(n := tl (waiting w n))"
  using assms(1) [unfolded kernel_receives_def, THEN spec [where x = n], THEN spec [where x = sz], THEN spec [where x = w]]
  unfolding assms(2) prod.case .

lemma kernel_sendsD:
  assumes "kernel_sends k sent" "sys_sendmsg k n address iovs w = ((rv, errno, u), w')"
  shows "length (concat (map fst iovs)) < 65536 \<longrightarrow> rv = int (length (concat (map fst iovs))) \<and>
      sent w' = sent w @ [(n, address, concat (map fst iovs))]"
  using assms(1) [unfolded kernel_sends_def, THEN spec [where x = n], THEN spec [where x = address],
    THEN spec [where x = iovs], THEN spec [where x = w]]
  unfolding assms(2) prod.case .

lemma Address_of_IPv4_sockaddr:
  "Address_of_sockaddr (string_resize (sockaddr_in port ip) sizeof_sockaddr_storage) 16 = Inr (IPv4_address ip port)"
  by (simp add: Address_of_sockaddr_def string_resize_def sizeof_sockaddr_storage_def IPv4_address_def)

lemma Address_sockaddr_IPv4 [simp]: "Address_sockaddr (IPv4_address ip port) = sockaddr_in port ip"
  by (simp add: Address_sockaddr_def IPv4_address_def)

text \<open>Receiving a datagram from an IPv4 address.\<close>

lemma UDPSocket_recv_eq:
  assumes "kernel_receives k waiting" "fd < length (sy_fds s)"
    and "waiting (sy_world s) (fw_fd (sy_fds s ! fd)) = (payload, sockaddr_in port ip) # rest" "length payload \<le> mtu" "length payload < 65536"
  shows "\<exists>w. UDPSocket_recv k s fd mtu =
      Inr (\<lparr>rd_source_address = IPv4_address ip port, rd_payload = payload\<rparr>, FileDescriptor_register_read (s\<lparr>sy_world := w\<rparr>) fd) \<and>
    waiting w = (waiting (sy_world s))(fw_fd (sy_fds s ! fd) := rest)"
proof -
  let ?n = "fw_fd (sy_fds s ! fd)"
  obtain rv errno d w where call: "sys_recvfrom k ?n mtu (sy_world s) = ((rv, errno, d), w)"
    by (metis prod.exhaust_sel)
  have law: "rv = int (length payload)" "d = (take mtu payload, sockaddr_in port ip)"
    "waiting w = (waiting (sy_world s))(?n := rest)"
    using kernel_receivesD [OF assms(1) call] assms(3,5) by simp_all
  have inv: "invoke ''recvfrom'' (sys_recvfrom k ?n mtu) s = (Inr (rv, d), s\<lparr>sy_world := w\<rparr>)"
    using invoke_eq [of "sys_recvfrom k ?n mtu", OF call] law(1) assms(5) by simp
  have "string_resize payload (length payload) = payload"
    by (simp add: string_resize_def)
  then show ?thesis
    using assms(2,4) law
    by (intro exI [of _ w]) (simp add: UDPSocket_recv_def fd_wrapper_def attempt_def inv Address_of_IPv4_sockaddr Let_def)
qed

lemma UDPSocket_sendto_eq:
  assumes "kernel_sends k sent" "fd < length (sy_fds s)" "length (concat payload) < 65536"
  shows "\<exists>w. UDPSocket_sendto k s fd destination payload = Inr (FileDescriptor_register_write (s\<lparr>sy_world := w\<rparr>) fd) \<and>
    sent w = sent (sy_world s) @ [(fw_fd (sy_fds s ! fd), Some (Address_sockaddr destination), concat payload)]"
proof -
  let ?n = "fw_fd (sy_fds s ! fd)" and ?io = "BufferViewList_as_iovecs payload"
  obtain rv errno w where call: "sys_sendmsg k ?n (Some (Address_sockaddr destination)) ?io (sy_world s) = ((rv, errno, ()), w)"
    by (metis prod.exhaust_sel unit.exhaust)
  have law: "rv = int (length (concat payload))" "sent w = sent (sy_world s) @ [(?n, Some (Address_sockaddr destination), concat payload)]"
    using kernel_sendsD [OF assms(1) call] assms(3) by simp_all
  have size: "BufferViewList_size payload = length (concat payload)"
    using assms(3) by (intro BufferViewList_size_eq) (simp add: W64_def)
  have "int (length (concat payload)) < int W64"
    using assms(3) by (simp add: W64_def)
  then have rv: "nat (rv mod int W64) = length (concat payload)" "narrow_int rv = rv"
    using law(1) assms(3) by simp_all
  have inv: "invoke ''sendmsg'' (sys_sendmsg k ?n (Some (Address_sockaddr destination)) ?io) s = (Inr (rv, ()), s\<lparr>sy_world := w\<rparr>)"
    using invoke_eq [of "sys_sendmsg k ?n (Some (Address_sockaddr destination)) ?io", OF call] rv(2) law(1) by simp
  show ?thesis
    using assms(2) law(2) by (intro exI [of _ w])
      (simp add: UDPSocket_sendto_def sendmsg_helper_def fd_wrapper_def attempt_def inv rv(1) size)
qed

text \<open>What the calls leave alone.\<close>

lemma UDPSocket_recv_frame:
  "whenever (UDPSocket_recv k s fd mtu) (\<lambda>(d, s'). fd < length (sy_fds s) \<and> fd_frame fd s s' \<and>
    fw_read_count (sy_fds s' ! fd) = fw_read_count (sy_fds s ! fd) + 1)"
proof (cases "fd < length (sy_fds s)")
  case True
  have "fd_frame fd s (FileDescriptor_register_read (s\<lparr>sy_world := w\<rparr>) fd)" for w
    by (rule fd_frame_register) (simp add: fd_frame_def)
  then show ?thesis
    using True unfolding UDPSocket_recv_def
    by (auto simp: fd_wrapper_def whenever_def [of "Address_of_sockaddr _ _"] Let_def intro!: whenever_attempt)
      (simp_all add: FileDescriptor_register_read_def)
qed (simp add: UDPSocket_recv_def fd_wrapper_def)

lemma UDPSocket_sendto_frame:
  "whenever (UDPSocket_sendto k s fd destination payload) (\<lambda>s'. fd < length (sy_fds s) \<and> fd_frame fd s s' \<and>
    fw_read_count (sy_fds s' ! fd) = fw_read_count (sy_fds s ! fd))"
proof (cases "fd < length (sy_fds s)")
  case True
  have "fd_frame fd s (FileDescriptor_register_write (s\<lparr>sy_world := w\<rparr>) fd)" for w
    by (rule fd_frame_register) (simp add: fd_frame_def)
  then show ?thesis
    using True unfolding UDPSocket_sendto_def sendmsg_helper_def
    by (auto simp: fd_wrapper_def intro!: whenever_attempt) (simp_all add: FileDescriptor_register_write_def)
qed (simp add: UDPSocket_sendto_def fd_wrapper_def)

lemma Socket_shutdown_frame:
  "whenever (Socket_shutdown k s fd how) (\<lambda>s'. fd < length (sy_fds s) \<and> fd_frame fd s s' \<and>
    (how = SHUT_WR \<longrightarrow> fw_write_count (sy_fds s' ! fd) = fw_write_count (sy_fds s ! fd) + 1))"
proof (cases "fd < length (sy_fds s)")
  case True
  have w: "fd_frame fd s (s\<lparr>sy_world := w\<rparr>)" for w
    by (simp add: fd_frame_def)
  show ?thesis
    using True w unfolding Socket_shutdown_def
    by (auto simp: fd_wrapper_def SHUT_RD_def SHUT_WR_def SHUT_RDWR_def intro!: whenever_attempt fd_frame_register)
      (simp_all add: FileDescriptor_register_write_def)
qed (simp add: Socket_shutdown_def fd_wrapper_def)

lemma memory_kernel_receives: "kernel_receives memory_kernel mw_datagrams"
  by (auto simp: kernel_receives_def memory_kernel_def split: list.split)

lemma memory_kernel_sends: "kernel_sends memory_kernel mw_sent"
  by (auto simp: kernel_sends_def memory_kernel_def Let_def)

end
