(* ===== verification/FD_Adapters.thy ===== *)
theory FD_Adapters
  imports TCP_Over_IP Sponge_Sockets Network_Interface
begin

text \<open>
  The adapters that carry TCP segments over a descriptor: in UDP payloads
  (\<open>libsponge/tcp_helpers/fd_adapter.hh\<close> and \<open>fd_adapter.cc\<close>), in IPv4 datagrams of a TUN device and in
  Ethernet frames of a TAP device (\<open>tuntap_adapter.hh\<close> and \<open>tuntap_adapter.cc\<close>), and with random loss
  (\<open>lossy_fd_adapter.hh\<close>). They share one interface, a record of operations, which is what the class
  template of the sponge socket is instantiated with.
\<close>

section \<open>The interface\<close>

record ('a, 's) AdaptT =
  ad_read :: "'a \<Rightarrow> 's \<Rightarrow> (TCPSegment option \<times> 'a \<times> 's) res"
  ad_write :: "'a \<Rightarrow> TCPSegment \<Rightarrow> 's \<Rightarrow> ('a \<times> 's) res"
  ad_tick :: "'a \<Rightarrow> size_t \<Rightarrow> 's \<Rightarrow> ('a \<times> 's) res"
  ad_config :: "'a \<Rightarrow> FdAdapterConfig"
  ad_set_config :: "'a \<Rightarrow> FdAdapterConfig \<Rightarrow> 'a"
  ad_set_listening :: "'a \<Rightarrow> bool \<Rightarrow> 'a"
  ad_fd :: "'a \<Rightarrow> FileDescriptor"

section \<open>TCPOverUDPSocketAdapter\<close>

record TCPOverUDPSocketAdapter = FdAdapterBase +
  ua_sock :: FileDescriptor

definition TCPOverUDPSocketAdapter_make :: "resolver \<Rightarrow> FileDescriptor \<Rightarrow> TCPOverUDPSocketAdapter res" where
  "TCPOverUDPSocketAdapter_make rs sock =
    rbind (FdAdapterBase_make rs) (\<lambda>base. Inr \<lparr>fa_cfg = fa_cfg base, fa_listen = fa_listen base, ua_sock = sock\<rparr>)"

definition TCPOverUDPSocketAdapter_read ::
  "'w kernel \<Rightarrow> TCPOverUDPSocketAdapter \<Rightarrow> ('w, 'c) system_scheme \<Rightarrow>
    (TCPSegment option \<times> TCPOverUDPSocketAdapter \<times> ('w, 'c) system_scheme) res" where
  "TCPOverUDPSocketAdapter_read k a s =
    rbind (UDPSocket_recv k s (ua_sock a) UDPSocket_default_mtu) (\<lambda>(datagram, s).
      if \<not> fa_listen a \<and> \<not> Address_eq (rd_source_address datagram) (fc_destination (fa_cfg a)) then Inr (None, a, s)
      else
        rbind (TCPSegment_parse TCPSegment_default (Buffer_of (rd_payload datagram)) 0) (\<lambda>(result, seg).
          if result \<noteq> NoError then Inr (None, a, s)
          else if fa_listen a then
            if th_syn (ts_header seg) \<and> \<not> th_rst (ts_header seg)
            then Inr (Some seg, FdAdapterBase_set_listening
              (a\<lparr>fa_cfg := (fa_cfg a)\<lparr>fc_destination := rd_source_address datagram\<rparr>\<rparr>) False, s)
            else Inr (None, a, s)
          else Inr (Some seg, a, s)))"

definition TCPOverUDPSocketAdapter_write ::
  "resolver \<Rightarrow> 'w kernel \<Rightarrow> TCPOverUDPSocketAdapter \<Rightarrow> TCPSegment \<Rightarrow> ('w, 'c) system_scheme \<Rightarrow>
    (TCPSegment \<times> ('w, 'c) system_scheme) res" where
  "TCPOverUDPSocketAdapter_write rs k a seg s =
    rbind (Address_port rs (fc_source (fa_cfg a))) (\<lambda>sport.
    rbind (Address_port rs (fc_destination (fa_cfg a))) (\<lambda>dport.
      let seg = seg\<lparr>ts_header := (ts_header seg)\<lparr>th_sport := sport, th_dport := dport\<rparr>\<rparr> in
      rbind (TCPSegment_serialize seg 0) (\<lambda>bl.
      rbind (UDPSocket_sendto k s (ua_sock a) (fc_destination (fa_cfg a)) (BufferViewList_of_BufferList bl)) (\<lambda>s.
        Inr (seg, s)))))"

definition TCPOverUDPSocketAdapter_ops :: "resolver \<Rightarrow> 'w kernel \<Rightarrow> (TCPOverUDPSocketAdapter, ('w, 'c) system_scheme) AdaptT" where
  "TCPOverUDPSocketAdapter_ops rs k = \<lparr>
    ad_read = TCPOverUDPSocketAdapter_read k,
    ad_write = (\<lambda>a seg s. rbind (TCPOverUDPSocketAdapter_write rs k a seg s) (\<lambda>(seg, s). Inr (a, s))),
    ad_tick = (\<lambda>a ms s. Inr (FdAdapterBase_tick a ms, s)),
    ad_config = fa_cfg, ad_set_config = FdAdapterBase_set_config, ad_set_listening = FdAdapterBase_set_listening,
    ad_fd = ua_sock\<rparr>"

section \<open>TCPOverIPv4OverTunFdAdapter\<close>

record TCPOverIPv4OverTunFdAdapter = FdAdapterBase +
  ta_tun :: FileDescriptor

definition TCPOverIPv4OverTunFdAdapter_make :: "resolver \<Rightarrow> FileDescriptor \<Rightarrow> TCPOverIPv4OverTunFdAdapter res" where
  "TCPOverIPv4OverTunFdAdapter_make rs tun =
    rbind (FdAdapterBase_make rs) (\<lambda>base. Inr \<lparr>fa_cfg = fa_cfg base, fa_listen = fa_listen base, ta_tun = tun\<rparr>)"

definition TCPOverIPv4OverTunFdAdapter_read ::
  "resolver \<Rightarrow> 'w kernel \<Rightarrow> TCPOverIPv4OverTunFdAdapter \<Rightarrow> ('w, 'c) system_scheme \<Rightarrow>
    (TCPSegment option \<times> TCPOverIPv4OverTunFdAdapter \<times> ('w, 'c) system_scheme) res" where
  "TCPOverIPv4OverTunFdAdapter_read rs k a s =
    rbind (FileDescriptor_read k s (ta_tun a) SIZE_T_MAX) (\<lambda>(d, s).
    rbind (IPv4Datagram_parse IPv4Datagram_default (Buffer_of d)) (\<lambda>(result, ip_dgram).
      if result \<noteq> NoError then Inr (None, a, s)
      else rbind (unwrap_tcp_in_ip rs a ip_dgram) (\<lambda>(seg, a). Inr (seg, a, s))))"

definition TCPOverIPv4OverTunFdAdapter_write ::
  "resolver \<Rightarrow> 'w kernel \<Rightarrow> TCPOverIPv4OverTunFdAdapter \<Rightarrow> TCPSegment \<Rightarrow> ('w, 'c) system_scheme \<Rightarrow>
    (TCPSegment \<times> ('w, 'c) system_scheme) res" where
  "TCPOverIPv4OverTunFdAdapter_write rs k a seg s =
    rbind (wrap_tcp_in_ip rs a seg) (\<lambda>(ip_dgram, seg).
    rbind (IPv4Datagram_serialize ip_dgram) (\<lambda>bl.
    rbind (FileDescriptor_write k s (ta_tun a) (BufferViewList_of_BufferList bl) True) (\<lambda>(n, s).
      Inr (seg, s))))"

definition TCPOverIPv4OverTunFdAdapter_ops :: "resolver \<Rightarrow> 'w kernel \<Rightarrow> (TCPOverIPv4OverTunFdAdapter, ('w, 'c) system_scheme) AdaptT" where
  "TCPOverIPv4OverTunFdAdapter_ops rs k = \<lparr>
    ad_read = TCPOverIPv4OverTunFdAdapter_read rs k,
    ad_write = (\<lambda>a seg s. rbind (TCPOverIPv4OverTunFdAdapter_write rs k a seg s) (\<lambda>(seg, s). Inr (a, s))),
    ad_tick = (\<lambda>a ms s. Inr (FdAdapterBase_tick a ms, s)),
    ad_config = fa_cfg, ad_set_config = FdAdapterBase_set_config, ad_set_listening = FdAdapterBase_set_listening,
    ad_fd = ta_tun\<rparr>"

section \<open>TCPOverIPv4OverEthernetAdapter\<close>

record TCPOverIPv4OverEthernetAdapter = FdAdapterBase +
  ea_tap :: FileDescriptor
  ea_interface :: NetworkInterface
  ea_next_hop :: Address

text \<open>The loop of \<open>send_pending\<close>.\<close>

fun TCPOverIPv4OverEthernetAdapter_send_frames ::
  "'w kernel \<Rightarrow> FileDescriptor \<Rightarrow> EthernetFrame list \<Rightarrow> ('w, 'c) system_scheme \<Rightarrow> ('w, 'c) system_scheme res" where
  "TCPOverIPv4OverEthernetAdapter_send_frames k tap [] s = Inr s"
| "TCPOverIPv4OverEthernetAdapter_send_frames k tap (front # frames_out) s =
    rbind (FileDescriptor_write k s tap (BufferViewList_of_BufferList (EthernetFrame_serialize front)) True) (\<lambda>(n, s).
      TCPOverIPv4OverEthernetAdapter_send_frames k tap frames_out s)"

definition TCPOverIPv4OverEthernetAdapter_send_pending ::
  "'w kernel \<Rightarrow> TCPOverIPv4OverEthernetAdapter \<Rightarrow> ('w, 'c) system_scheme \<Rightarrow>
    (TCPOverIPv4OverEthernetAdapter \<times> ('w, 'c) system_scheme) res" where
  "TCPOverIPv4OverEthernetAdapter_send_pending k a s =
    rbind (TCPOverIPv4OverEthernetAdapter_send_frames k (ea_tap a) (ni_frames_out (ea_interface a)) s) (\<lambda>s.
      Inr (a\<lparr>ea_interface := (ea_interface a)\<lparr>ni_frames_out := []\<rparr>\<rparr>, s))"

definition TCPOverIPv4OverEthernetAdapter_make ::
  "resolver \<Rightarrow> 'w kernel \<Rightarrow> FileDescriptor \<Rightarrow> EthernetAddress \<Rightarrow> Address \<Rightarrow> Address \<Rightarrow> ('w, 'c) system_scheme \<Rightarrow>
    (TCPOverIPv4OverEthernetAdapter \<times> ('w, 'c) system_scheme) res" where
  "TCPOverIPv4OverEthernetAdapter_make rs k tap eth_address ip_address next_hop s =
    rbind (FdAdapterBase_make rs) (\<lambda>base.
    rbind (NetworkInterface_make rs eth_address ip_address) (\<lambda>interface.
    rbind (FileDescriptor_write k s tap (BufferViewList_of_BufferList (EthernetFrame_serialize EthernetFrame_default)) True) (\<lambda>(n, s).
      Inr (\<lparr>fa_cfg = fa_cfg base, fa_listen = fa_listen base, ea_tap = tap, ea_interface = interface, ea_next_hop = next_hop\<rparr>, s))))"

definition TCPOverIPv4OverEthernetAdapter_read ::
  "resolver \<Rightarrow> 'w kernel \<Rightarrow> TCPOverIPv4OverEthernetAdapter \<Rightarrow> ('w, 'c) system_scheme \<Rightarrow>
    (TCPSegment option \<times> TCPOverIPv4OverEthernetAdapter \<times> ('w, 'c) system_scheme) res" where
  "TCPOverIPv4OverEthernetAdapter_read rs k a s =
    rbind (FileDescriptor_read k s (ea_tap a) SIZE_T_MAX) (\<lambda>(d, s).
    rbind (EthernetFrame_parse EthernetFrame_default (Buffer_of d)) (\<lambda>(result, frame).
      if result \<noteq> NoError then Inr (None, a, s)
      else
        rbind (NetworkInterface_recv_frame (ea_interface a) frame) (\<lambda>(ip_dgram, interface).
        rbind (TCPOverIPv4OverEthernetAdapter_send_pending k (a\<lparr>ea_interface := interface\<rparr>) s) (\<lambda>(a, s).
          case ip_dgram of
            Some ip_dgram \<Rightarrow> rbind (unwrap_tcp_in_ip rs a ip_dgram) (\<lambda>(seg, a). Inr (seg, a, s))
          | None \<Rightarrow> Inr (None, a, s)))))"

definition TCPOverIPv4OverEthernetAdapter_tick ::
  "'w kernel \<Rightarrow> TCPOverIPv4OverEthernetAdapter \<Rightarrow> size_t \<Rightarrow> ('w, 'c) system_scheme \<Rightarrow>
    (TCPOverIPv4OverEthernetAdapter \<times> ('w, 'c) system_scheme) res" where
  "TCPOverIPv4OverEthernetAdapter_tick k a ms_since_last_tick s =
    TCPOverIPv4OverEthernetAdapter_send_pending k
      (a\<lparr>ea_interface := NetworkInterface_tick (ea_interface a) ms_since_last_tick\<rparr>) s"

definition TCPOverIPv4OverEthernetAdapter_write ::
  "resolver \<Rightarrow> 'w kernel \<Rightarrow> TCPOverIPv4OverEthernetAdapter \<Rightarrow> TCPSegment \<Rightarrow> ('w, 'c) system_scheme \<Rightarrow>
    (TCPOverIPv4OverEthernetAdapter \<times> TCPSegment \<times> ('w, 'c) system_scheme) res" where
  "TCPOverIPv4OverEthernetAdapter_write rs k a seg s =
    rbind (wrap_tcp_in_ip rs a seg) (\<lambda>(ip_dgram, seg).
    rbind (NetworkInterface_send_datagram (ea_interface a) ip_dgram (ea_next_hop a)) (\<lambda>interface.
    rbind (TCPOverIPv4OverEthernetAdapter_send_pending k (a\<lparr>ea_interface := interface\<rparr>) s) (\<lambda>(a, s).
      Inr (a, seg, s))))"

definition TCPOverIPv4OverEthernetAdapter_ops ::
  "resolver \<Rightarrow> 'w kernel \<Rightarrow> (TCPOverIPv4OverEthernetAdapter, ('w, 'c) system_scheme) AdaptT" where
  "TCPOverIPv4OverEthernetAdapter_ops rs k = \<lparr>
    ad_read = TCPOverIPv4OverEthernetAdapter_read rs k,
    ad_write = (\<lambda>a seg s. rbind (TCPOverIPv4OverEthernetAdapter_write rs k a seg s) (\<lambda>(a, seg, s). Inr (a, s))),
    ad_tick = TCPOverIPv4OverEthernetAdapter_tick k,
    ad_config = fa_cfg, ad_set_config = FdAdapterBase_set_config, ad_set_listening = FdAdapterBase_set_listening,
    ad_fd = ea_tap\<rparr>"

section \<open>LossyFdAdapter\<close>

text \<open>The random generator of the standard library is an argument.\<close>

record ('g, 'a) LossyFdAdapter =
  la_rand :: 'g
  la_adapter :: 'a

definition LossyFdAdapter_should_drop ::
  "('g \<Rightarrow> 32 word \<times> 'g) \<Rightarrow> ('a \<Rightarrow> FdAdapterConfig) \<Rightarrow> ('g, 'a) LossyFdAdapter \<Rightarrow> bool \<Rightarrow> bool \<times> ('g, 'a) LossyFdAdapter" where
  "LossyFdAdapter_should_drop rand config l uplink =
    (let cfg = config (la_adapter l);
         loss = (if uplink then fc_loss_rate_up cfg else fc_loss_rate_dn cfg)
     in if loss = 0 then (False, l)
        else let (r, g) = rand (la_rand l) in ((ucast r :: 16 word) < loss, l\<lparr>la_rand := g\<rparr>))"

definition LossyFdAdapter_read ::
  "('g \<Rightarrow> 32 word \<times> 'g) \<Rightarrow> ('a, 's) AdaptT \<Rightarrow> ('g, 'a) LossyFdAdapter \<Rightarrow> 's \<Rightarrow>
    (TCPSegment option \<times> ('g, 'a) LossyFdAdapter \<times> 's) res" where
  "LossyFdAdapter_read rand A l s =
    rbind (ad_read A (la_adapter l) s) (\<lambda>(ret, a, s).
      let (drop, l) = LossyFdAdapter_should_drop rand (ad_config A) (l\<lparr>la_adapter := a\<rparr>) False in
      if drop then Inr (None, l, s) else Inr (ret, l, s))"

definition LossyFdAdapter_write ::
  "('g \<Rightarrow> 32 word \<times> 'g) \<Rightarrow> ('a, 's) AdaptT \<Rightarrow> ('g, 'a) LossyFdAdapter \<Rightarrow> TCPSegment \<Rightarrow> 's \<Rightarrow> (('g, 'a) LossyFdAdapter \<times> 's) res" where
  "LossyFdAdapter_write rand A l seg s =
    (let (drop, l) = LossyFdAdapter_should_drop rand (ad_config A) l True in
      if drop then Inr (l, s)
      else rbind (ad_write A (la_adapter l) seg s) (\<lambda>(a, s). Inr (l\<lparr>la_adapter := a\<rparr>, s)))"

definition LossyFdAdapter_ops ::
  "('g \<Rightarrow> 32 word \<times> 'g) \<Rightarrow> ('a, 's) AdaptT \<Rightarrow> (('g, 'a) LossyFdAdapter, 's) AdaptT" where
  "LossyFdAdapter_ops rand A = \<lparr>
    ad_read = LossyFdAdapter_read rand A,
    ad_write = LossyFdAdapter_write rand A,
    ad_tick = (\<lambda>l ms s. rbind (ad_tick A (la_adapter l) ms s) (\<lambda>(a, s). Inr (l\<lparr>la_adapter := a\<rparr>, s))),
    ad_config = (\<lambda>l. ad_config A (la_adapter l)),
    ad_set_config = (\<lambda>l cfg. l\<lparr>la_adapter := ad_set_config A (la_adapter l) cfg\<rparr>),
    ad_set_listening = (\<lambda>l b. l\<lparr>la_adapter := ad_set_listening A (la_adapter l) b\<rparr>),
    ad_fd = (\<lambda>l. ad_fd A (la_adapter l))\<rparr>"

lemmas [sponge_eval] = TCPOverUDPSocketAdapter_make_def TCPOverUDPSocketAdapter_read_def TCPOverUDPSocketAdapter_write_def
  TCPOverUDPSocketAdapter_ops_def TCPOverIPv4OverTunFdAdapter_make_def TCPOverIPv4OverTunFdAdapter_read_def
  TCPOverIPv4OverTunFdAdapter_write_def TCPOverIPv4OverTunFdAdapter_ops_def TCPOverIPv4OverEthernetAdapter_send_pending_def
  TCPOverIPv4OverEthernetAdapter_make_def TCPOverIPv4OverEthernetAdapter_read_def TCPOverIPv4OverEthernetAdapter_tick_def
  TCPOverIPv4OverEthernetAdapter_write_def TCPOverIPv4OverEthernetAdapter_ops_def LossyFdAdapter_should_drop_def
  LossyFdAdapter_read_def LossyFdAdapter_write_def LossyFdAdapter_ops_def

section \<open>The contract of an adapter\<close>

text \<open>
  What a client of an adapter relies on: every read reads the adapter's descriptor exactly once, and no
  operation touches another descriptor, the client's own state or the handle.
\<close>

locale datagram_adapter =
  fixes A :: "('a, ('w, 'c) system_scheme) AdaptT"
  assumes read_services: "whenever (ad_read A a s) (\<lambda>(seg, a', s'). ad_fd A a' = ad_fd A a \<and>
      ad_fd A a < length (sy_fds s) \<and> fd_frame (ad_fd A a) s s' \<and>
      fw_read_count (sy_fds s' ! ad_fd A a) = fw_read_count (sy_fds s ! ad_fd A a) + 1)"
    and write_frame: "whenever (ad_write A a seg s) (\<lambda>(a', s'). ad_fd A a' = ad_fd A a \<and> fd_frame (ad_fd A a) s s')"
    and tick_frame: "whenever (ad_tick A a ms s) (\<lambda>(a', s'). ad_fd A a' = ad_fd A a \<and> fd_frame (ad_fd A a) s s')"
    and config_fd: "ad_fd A (ad_set_config A a cfg) = ad_fd A a" "ad_fd A (ad_set_listening A a b) = ad_fd A a"

interpretation udp_adapter: datagram_adapter "TCPOverUDPSocketAdapter_ops rs k" for rs k
proof
  note simps = TCPOverUDPSocketAdapter_ops_def
  show "whenever (ad_read (TCPOverUDPSocketAdapter_ops rs k) a s) (\<lambda>(seg, a', s').
      ad_fd (TCPOverUDPSocketAdapter_ops rs k) a' = ad_fd (TCPOverUDPSocketAdapter_ops rs k) a \<and>
      ad_fd (TCPOverUDPSocketAdapter_ops rs k) a < length (sy_fds s) \<and>
      fd_frame (ad_fd (TCPOverUDPSocketAdapter_ops rs k) a) s s' \<and>
      fw_read_count (sy_fds s' ! ad_fd (TCPOverUDPSocketAdapter_ops rs k) a) =
        fw_read_count (sy_fds s ! ad_fd (TCPOverUDPSocketAdapter_ops rs k) a) + 1)" for a and s :: "('a, 'b) system_scheme"
    by (simp add: simps TCPOverUDPSocketAdapter_read_def)
      (rule whenever_mono [OF UDPSocket_recv_frame],
        auto simp: FdAdapterBase_set_listening_def whenever_def [of "TCPSegment_parse _ _ _"])
  show "whenever (ad_write (TCPOverUDPSocketAdapter_ops rs k) a seg s) (\<lambda>(a', s').
      ad_fd (TCPOverUDPSocketAdapter_ops rs k) a' = ad_fd (TCPOverUDPSocketAdapter_ops rs k) a \<and>
      fd_frame (ad_fd (TCPOverUDPSocketAdapter_ops rs k) a) s s')" for a seg and s :: "('a, 'b) system_scheme"
    by (auto simp: simps TCPOverUDPSocketAdapter_write_def whenever_def [of "TCPSegment_serialize _ _"]
      whenever_def [of "Address_port _ _"] Let_def intro!: whenever_mono [OF UDPSocket_sendto_frame])
qed (simp_all add: TCPOverUDPSocketAdapter_ops_def FdAdapterBase_tick_def FdAdapterBase_set_config_def
  FdAdapterBase_set_listening_def)

lemma unwrap_tcp_in_ip_keeps:
  "whenever (unwrap_tcp_in_ip rs a dg) (\<lambda>(seg, a'). \<exists>cfg l. a' = a\<lparr>fa_cfg := cfg, fa_listen := l\<rparr>)"
proof -
  have refl: "\<exists>cfg l. a = a\<lparr>fa_cfg := cfg, fa_listen := l\<rparr>"
    by (intro exI [of _ "fa_cfg a"] exI [of _ "fa_listen a"]) simp
  then have none: "whenever (Inr (None, a) :: (TCPSegment option \<times> _) res) (\<lambda>(seg, a'). \<exists>cfg l. a' = a\<lparr>fa_cfg := cfg, fa_listen := l\<rparr>)"
    by simp
  have learn: "whenever (if fa_listen a then TCPOverIPv4Adapter_learn rs a h tcp else Inr a)
      (\<lambda>a'. \<exists>cfg l. a' = a\<lparr>fa_cfg := cfg, fa_listen := l\<rparr>)" for h tcp
    using refl by (auto simp: TCPOverIPv4Adapter_learn_def FdAdapterBase_set_listening_def whenever_def rbind_Inr_iff)
  have tail: "whenever (rbind (if fa_listen a then TCPOverIPv4Adapter_learn rs a h tcp else Inr a) (\<lambda>a.
      rbind (Address_port rs (fc_destination (fa_cfg a))) (\<lambda>port. if p port then Inr (None, a) else Inr (Some seg, a))))
    (\<lambda>(seg, a'). \<exists>cfg l. a' = a\<lparr>fa_cfg := cfg, fa_listen := l\<rparr>)" for h tcp p seg
    unfolding whenever_simps by (rule whenever_mono [OF learn]) (auto simp: whenever_def [of "Address_port _ _"])
  show ?thesis
    unfolding unwrap_tcp_in_ip_def Let_def
    by (rule whenever_bindI, intro whenever_if, rule none, rule none, rule whenever_bindI, rule whenever_bindI, rule whenever_prodI,
      intro whenever_if, rule none, rule whenever_bindI, intro whenever_if, rule none, rule none, rule tail)
qed

interpretation tun_adapter: datagram_adapter "TCPOverIPv4OverTunFdAdapter_ops rs k" for rs k
proof
  note simps = TCPOverIPv4OverTunFdAdapter_ops_def
  show "whenever (ad_read (TCPOverIPv4OverTunFdAdapter_ops rs k) a s) (\<lambda>(seg, a', s').
      ad_fd (TCPOverIPv4OverTunFdAdapter_ops rs k) a' = ad_fd (TCPOverIPv4OverTunFdAdapter_ops rs k) a \<and>
      ad_fd (TCPOverIPv4OverTunFdAdapter_ops rs k) a < length (sy_fds s) \<and>
      fd_frame (ad_fd (TCPOverIPv4OverTunFdAdapter_ops rs k) a) s s' \<and>
      fw_read_count (sy_fds s' ! ad_fd (TCPOverIPv4OverTunFdAdapter_ops rs k) a) =
        fw_read_count (sy_fds s ! ad_fd (TCPOverIPv4OverTunFdAdapter_ops rs k) a) + 1)" for a and s :: "('a, 'b) system_scheme"
    by (simp add: simps TCPOverIPv4OverTunFdAdapter_read_def)
      (rule whenever_mono [OF FileDescriptor_read_frame],
        auto simp: whenever_def [of "IPv4Datagram_parse _ _"] intro!: whenever_mono [OF unwrap_tcp_in_ip_keeps])
  show "whenever (ad_write (TCPOverIPv4OverTunFdAdapter_ops rs k) a seg s) (\<lambda>(a', s').
      ad_fd (TCPOverIPv4OverTunFdAdapter_ops rs k) a' = ad_fd (TCPOverIPv4OverTunFdAdapter_ops rs k) a \<and>
      fd_frame (ad_fd (TCPOverIPv4OverTunFdAdapter_ops rs k) a) s s')" for a seg and s :: "('a, 'b) system_scheme"
    by (auto simp: simps TCPOverIPv4OverTunFdAdapter_write_def whenever_def [of "wrap_tcp_in_ip _ _ _"]
      whenever_def [of "IPv4Datagram_serialize _"] intro!: whenever_mono [OF FileDescriptor_write_frame])
qed (simp_all add: TCPOverIPv4OverTunFdAdapter_ops_def FdAdapterBase_tick_def FdAdapterBase_set_config_def
  FdAdapterBase_set_listening_def)

lemma TCPOverIPv4OverEthernetAdapter_send_frames_frame:
  "whenever (TCPOverIPv4OverEthernetAdapter_send_frames k tap frames s) (\<lambda>s'. fd_frame tap s s' \<and>
    fw_read_count (sy_fds s' ! tap) = fw_read_count (sy_fds s ! tap))"
proof (induction frames arbitrary: s)
  case (Cons f frames)
  show ?case
    unfolding TCPOverIPv4OverEthernetAdapter_send_frames.simps whenever_simps
    by (rule whenever_mono [OF FileDescriptor_write_frame])
      (auto intro!: whenever_mono [OF Cons.IH] intro: fd_frame_trans)
qed simp

lemma TCPOverIPv4OverEthernetAdapter_send_pending_frame:
  "whenever (TCPOverIPv4OverEthernetAdapter_send_pending k a s) (\<lambda>(a', s'). ea_tap a' = ea_tap a \<and> fd_frame (ea_tap a) s s' \<and>
    fw_read_count (sy_fds s' ! ea_tap a) = fw_read_count (sy_fds s ! ea_tap a))"
  unfolding TCPOverIPv4OverEthernetAdapter_send_pending_def whenever_simps
  by (rule whenever_mono [OF TCPOverIPv4OverEthernetAdapter_send_frames_frame]) auto

lemma TCPOverIPv4OverEthernetAdapter_read_frame:
  "whenever (TCPOverIPv4OverEthernetAdapter_read rs k a s) (\<lambda>(seg, a', s'). ea_tap a' = ea_tap a \<and>
    ea_tap a < length (sy_fds s) \<and> fd_frame (ea_tap a) s s' \<and>
    fw_read_count (sy_fds s' ! ea_tap a) = fw_read_count (sy_fds s ! ea_tap a) + 1)" (is "whenever _ ?Q")
  unfolding TCPOverIPv4OverEthernetAdapter_read_def whenever_simps(3) [where m = "FileDescriptor_read _ _ _ _"]
proof (rule whenever_mono [OF FileDescriptor_read_frame], clarify, rule whenever_bindI, clarify, intro whenever_if, goal_cases)
  case (1 d s' result frame)
  then show ?case
    by simp
next
  case (2 d s' result frame)
  show ?case
  proof (rule whenever_bindI, clarify)
    fix dg i
    show "whenever (rbind (TCPOverIPv4OverEthernetAdapter_send_pending k (a\<lparr>ea_interface := i\<rparr>) s') (\<lambda>(a, s).
        case dg of Some dg \<Rightarrow> rbind (unwrap_tcp_in_ip rs a dg) (\<lambda>(seg, a). Inr (seg, a, s)) | None \<Rightarrow> Inr (None, a, s))) ?Q"
      unfolding whenever_simps
    proof (rule whenever_mono [OF TCPOverIPv4OverEthernetAdapter_send_pending_frame], clarify)
      fix a' :: TCPOverIPv4OverEthernetAdapter and s''
      assume a': "ea_tap a' = ea_tap (a\<lparr>ea_interface := i\<rparr>)" "fd_frame (ea_tap (a\<lparr>ea_interface := i\<rparr>)) s' s''"
        "fw_read_count (sy_fds s'' ! ea_tap (a\<lparr>ea_interface := i\<rparr>)) = fw_read_count (sy_fds s' ! ea_tap (a\<lparr>ea_interface := i\<rparr>))"
      then have "fd_frame (ea_tap a) s s''"
        using fd_frame_trans [OF 2(2)] by simp
      then show "whenever (case dg of Some dg \<Rightarrow> rbind (unwrap_tcp_in_ip rs a' dg) (\<lambda>(seg, a). Inr (seg, a, s''))
          | None \<Rightarrow> Inr (None, a', s'')) ?Q"
        using a'(1,3) 2(1,3) by (auto split: option.split intro!: whenever_mono [OF unwrap_tcp_in_ip_keeps])
    qed
  qed
qed

interpretation ethernet_adapter: datagram_adapter "TCPOverIPv4OverEthernetAdapter_ops rs k" for rs k
proof
  note simps = TCPOverIPv4OverEthernetAdapter_ops_def
  note pending = TCPOverIPv4OverEthernetAdapter_send_pending_frame
  show "whenever (ad_read (TCPOverIPv4OverEthernetAdapter_ops rs k) a s) (\<lambda>(seg, a', s').
      ad_fd (TCPOverIPv4OverEthernetAdapter_ops rs k) a' = ad_fd (TCPOverIPv4OverEthernetAdapter_ops rs k) a \<and>
      ad_fd (TCPOverIPv4OverEthernetAdapter_ops rs k) a < length (sy_fds s) \<and>
      fd_frame (ad_fd (TCPOverIPv4OverEthernetAdapter_ops rs k) a) s s' \<and>
      fw_read_count (sy_fds s' ! ad_fd (TCPOverIPv4OverEthernetAdapter_ops rs k) a) =
        fw_read_count (sy_fds s ! ad_fd (TCPOverIPv4OverEthernetAdapter_ops rs k) a) + 1)" for a and s :: "('a, 'b) system_scheme"
    using TCPOverIPv4OverEthernetAdapter_read_frame by (simp add: simps)
  show "whenever (ad_write (TCPOverIPv4OverEthernetAdapter_ops rs k) a seg s) (\<lambda>(a', s').
      ad_fd (TCPOverIPv4OverEthernetAdapter_ops rs k) a' = ad_fd (TCPOverIPv4OverEthernetAdapter_ops rs k) a \<and>
      fd_frame (ad_fd (TCPOverIPv4OverEthernetAdapter_ops rs k) a) s s')" for a seg and s :: "('a, 'b) system_scheme"
    by (auto simp: simps TCPOverIPv4OverEthernetAdapter_write_def whenever_def [of "wrap_tcp_in_ip _ _ _"]
      whenever_def [of "NetworkInterface_send_datagram _ _ _"] intro!: whenever_mono [OF pending])
  show "whenever (ad_tick (TCPOverIPv4OverEthernetAdapter_ops rs k) a ms s) (\<lambda>(a', s').
      ad_fd (TCPOverIPv4OverEthernetAdapter_ops rs k) a' = ad_fd (TCPOverIPv4OverEthernetAdapter_ops rs k) a \<and>
      fd_frame (ad_fd (TCPOverIPv4OverEthernetAdapter_ops rs k) a) s s')" for a ms and s :: "('a, 'b) system_scheme"
    by (auto simp: simps TCPOverIPv4OverEthernetAdapter_tick_def intro!: whenever_mono [OF pending])
qed (simp_all add: TCPOverIPv4OverEthernetAdapter_ops_def FdAdapterBase_set_config_def FdAdapterBase_set_listening_def)

context datagram_adapter
begin

text \<open>Random loss keeps the contract.\<close>

lemma should_drop_keeps:
  "LossyFdAdapter_should_drop rand config l b = (d, l') \<Longrightarrow> la_adapter l' = la_adapter l"
  by (auto simp: LossyFdAdapter_should_drop_def Let_def split: if_splits prod.splits)

lemma lossy_adapter: "datagram_adapter (LossyFdAdapter_ops rand A)"
proof
  note simps = LossyFdAdapter_ops_def
  show "whenever (ad_read (LossyFdAdapter_ops rand A) l s) (\<lambda>(seg, l', s').
      ad_fd (LossyFdAdapter_ops rand A) l' = ad_fd (LossyFdAdapter_ops rand A) l \<and>
      ad_fd (LossyFdAdapter_ops rand A) l < length (sy_fds s) \<and> fd_frame (ad_fd (LossyFdAdapter_ops rand A) l) s s' \<and>
      fw_read_count (sy_fds s' ! ad_fd (LossyFdAdapter_ops rand A) l) =
        fw_read_count (sy_fds s ! ad_fd (LossyFdAdapter_ops rand A) l) + 1)" for l s
    by (simp add: simps LossyFdAdapter_read_def)
      (rule whenever_mono [OF read_services], auto split: prod.split dest: should_drop_keeps)
  show "whenever (ad_write (LossyFdAdapter_ops rand A) l seg s) (\<lambda>(l', s').
      ad_fd (LossyFdAdapter_ops rand A) l' = ad_fd (LossyFdAdapter_ops rand A) l \<and>
      fd_frame (ad_fd (LossyFdAdapter_ops rand A) l) s s')" for l seg s
    by (auto simp: simps LossyFdAdapter_write_def split: prod.split dest: should_drop_keeps
      intro!: whenever_mono [OF write_frame])
  show "whenever (ad_tick (LossyFdAdapter_ops rand A) l ms s) (\<lambda>(l', s').
      ad_fd (LossyFdAdapter_ops rand A) l' = ad_fd (LossyFdAdapter_ops rand A) l \<and>
      fd_frame (ad_fd (LossyFdAdapter_ops rand A) l) s s')" for l ms s
    by (auto simp: simps intro!: whenever_mono [OF tick_frame])
qed (simp_all add: LossyFdAdapter_ops_def config_fd)

end

interpretation lossy_udp_adapter: datagram_adapter "LossyFdAdapter_ops rand (TCPOverUDPSocketAdapter_ops rs k)" for rand rs k
  by (rule udp_adapter.lossy_adapter)

interpretation lossy_tun_adapter: datagram_adapter "LossyFdAdapter_ops rand (TCPOverIPv4OverTunFdAdapter_ops rs k)" for rand rs k
  by (rule tun_adapter.lossy_adapter)

section \<open>Segments in UDP payloads\<close>

lemma TCPOverUDPSocketAdapter_write_eq:
  assumes "resolver_numeric rs" "kernel_sends k sent" "FdAdapter_between a local peer"
    and "TCPHeader_valid (ts_header seg)" "4 * unat (th_doff (ts_header seg)) + length (Buffer_str (ts_payload seg)) \<le> 65535"
    and "ua_sock a < length (sy_fds s)"
  shows "\<exists>seg' s' payload c. TCPOverUDPSocketAdapter_write rs k a seg s = Inr (seg', s') \<and>
    sent (sy_world s') = sent (sy_world s) @ [(fw_fd (sy_fds s ! ua_sock a), Some (sockaddr_in (snd peer) (fst peer)), payload)] \<and>
    length payload < 65536 \<and>
    (\<exists>data. TCPSegment_parse TCPSegment_default (Buffer_of payload) 0 = Inr (NoError,
      \<lparr>ts_header = (ts_header seg)\<lparr>th_sport := snd local, th_dport := snd peer, th_cksum := c\<rparr>, ts_payload = data\<rparr>) \<and>
      Buffer_str data = Buffer_str (ts_payload seg))"
proof -
  let ?seg = "seg\<lparr>ts_header := (ts_header seg)\<lparr>th_sport := snd local, th_dport := snd peer\<rparr>\<rparr>"
  have addresses: "Address_port rs (fc_source (fa_cfg a)) = Inr (snd local)" "Address_port rs (fc_destination (fa_cfg a)) = Inr (snd peer)"
    "Address_sockaddr (fc_destination (fa_cfg a)) = sockaddr_in (snd peer) (fst peer)"
    using assms(1,3) by (simp_all add: FdAdapter_between_def Address_port_eq)
  have seg: "TCPHeader_valid (ts_header ?seg)" "4 * unat (th_doff (ts_header ?seg)) + length (Buffer_str (ts_payload ?seg)) \<le> 65535"
    "unat (0 :: 32 word) < 2 ^ 23"
    using assms(4,5) by (simp_all add: TCPHeader_valid_def)
  obtain bl c where bl: "TCPSegment_serialize ?seg 0 = Inr bl"
    "length (BufferList_concatenate bl) = 4 * unat (th_doff (ts_header ?seg)) + length (Buffer_str (ts_payload ?seg))"
    "\<And>b. Buffer_wf b \<and> Buffer_str b = BufferList_concatenate bl \<longrightarrow> (\<exists>data. TCPSegment_parse TCPSegment_default b 0 =
      Inr (NoError, \<lparr>ts_header = (ts_header ?seg)\<lparr>th_cksum := c\<rparr>, ts_payload = data\<rparr>) \<and>
      Buffer_wf data \<and> Buffer_str data = Buffer_str (ts_payload ?seg))"
    using TCPSegment_wire [OF seg] by blast
  have views: "concat (BufferViewList_of_BufferList bl) = BufferList_concatenate bl"
    by (simp add: BufferViewList_of_BufferList_eq BufferList_concatenate_eq)
  have len: "length (BufferList_concatenate bl) < 65536"
    using bl(2) seg(2) by simp
  obtain w where "UDPSocket_sendto k s (ua_sock a) (fc_destination (fa_cfg a)) (BufferViewList_of_BufferList bl) =
      Inr (FileDescriptor_register_write (s\<lparr>sy_world := w\<rparr>) (ua_sock a))"
    "sent w = sent (sy_world s) @ [(fw_fd (sy_fds s ! ua_sock a), Some (sockaddr_in (snd peer) (fst peer)), BufferList_concatenate bl)]"
    using UDPSocket_sendto_eq [OF assms(2,6), of "BufferViewList_of_BufferList bl" "fc_destination (fa_cfg a)"] len
    unfolding views addresses(3) by blast
  moreover have "Buffer_wf (Buffer_of (BufferList_concatenate bl))"
    using len W64_gt(1) by (simp del: W64_gt)
  ultimately show ?thesis
    using bl(1) len bl(3) [of "Buffer_of (BufferList_concatenate bl)"]
    by (intro exI [of _ ?seg] exI [of _ "FileDescriptor_register_write (s\<lparr>sy_world := w\<rparr>) (ua_sock a)"]
      exI [of _ "BufferList_concatenate bl"] exI [of _ c])
      (auto simp: TCPOverUDPSocketAdapter_write_def addresses Let_def)
qed

text \<open>An adapter that takes a segment from the given sender, and what becomes of it.\<close>

definition UDP_accepts :: "TCPOverUDPSocketAdapter \<Rightarrow> 32 word \<times> 16 word \<Rightarrow> TCPSegment \<Rightarrow> bool" where
  "UDP_accepts b peer seg \<longleftrightarrow>
    (if fa_listen b then th_syn (ts_header seg) \<and> \<not> th_rst (ts_header seg)
     else fc_destination (fa_cfg b) = IPv4_address (fst peer) (snd peer))"

definition UDP_connected :: "TCPOverUDPSocketAdapter \<Rightarrow> 32 word \<times> 16 word \<Rightarrow> TCPOverUDPSocketAdapter" where
  "UDP_connected b peer =
    b\<lparr>fa_cfg := (fa_cfg b)\<lparr>fc_destination := IPv4_address (fst peer) (snd peer)\<rparr>, fa_listen := False\<rparr>"

lemma TCPOverUDPSocketAdapter_read_eq:
  assumes "kernel_receives k waiting" "ua_sock b < length (sy_fds s)"
    and "waiting (sy_world s) (fw_fd (sy_fds s ! ua_sock b)) = (payload, sockaddr_in (snd peer) (fst peer)) # rest"
    and "length payload < 65536" "TCPSegment_parse TCPSegment_default (Buffer_of payload) 0 = Inr (NoError, seg)"
    and "UDP_accepts b peer seg"
  shows "\<exists>s'. TCPOverUDPSocketAdapter_read k b s = Inr (Some seg, UDP_connected b peer, s') \<and>
    waiting (sy_world s') = (waiting (sy_world s))(fw_fd (sy_fds s ! ua_sock b) := rest)"
proof -
  have "length payload \<le> UDPSocket_default_mtu"
    using assms(4) by (simp add: UDPSocket_default_mtu_def)
  then obtain w where recv: "UDPSocket_recv k s (ua_sock b) UDPSocket_default_mtu =
      Inr (\<lparr>rd_source_address = IPv4_address (fst peer) (snd peer), rd_payload = payload\<rparr>,
        FileDescriptor_register_read (s\<lparr>sy_world := w\<rparr>) (ua_sock b))"
    "waiting w = (waiting (sy_world s))(fw_fd (sy_fds s ! ua_sock b) := rest)"
    using UDPSocket_recv_eq [OF assms(1-3)] assms(4) by blast
  moreover have "UDP_connected b peer = b" if "\<not> fa_listen b"
    using that assms(6) by (simp add: UDP_connected_def UDP_accepts_def)
  ultimately show ?thesis
    using assms(5,6) by (intro exI [of _ "FileDescriptor_register_read (s\<lparr>sy_world := w\<rparr>) (ua_sock b)"])
      (auto simp: TCPOverUDPSocketAdapter_read_def UDP_accepts_def UDP_connected_def FdAdapterBase_set_listening_def)
qed

section \<open>Properties\<close>



text \<open>A listening adapter with loss can throw away the very SYN that makes it stop listening: from then on it
  accepts only the sender of the lost segment.\<close>

lemma LossyFdAdapter_loses_syn:
  assumes "ad_read A (la_adapter l) s = Inr (Some seg, a', s')"
    and "rand (la_rand l) = (r, g)" "(ucast r :: 16 word) < fc_loss_rate_dn (ad_config A a')"
  shows "LossyFdAdapter_read rand A l s = Inr (None, l\<lparr>la_adapter := a', la_rand := g\<rparr>, s')"
  using assms by (cases "fc_loss_rate_dn (ad_config A a') = 0")
    (auto simp: LossyFdAdapter_read_def LossyFdAdapter_should_drop_def Let_def)

end
