(* ===== verification/Event_Loop.thy ===== *)
theory Event_Loop
  imports File_Descriptor
begin

text \<open>
  The event loop, \<open>libsponge/util/eventloop.hh\<close> and \<open>eventloop.cc\<close>. A rule's callbacks are
  functions on the state of the whole program, which extends the state shared with the operating
  system; they may read and change everything but the list of rules. The theory proves that the
  positions of rules and of polled descriptors stay in step although rules are erased on the way, that
  clients that keep the documented contract never run into the busy-wait exception, and that a failed
  \<open>poll\<close> goes unnoticed.
\<close>

section \<open>Rules\<close>

datatype Direction = Direction_In | Direction_Out

definition Direction_events :: "Direction \<Rightarrow> 16 word" where
  "Direction_events d = (case d of Direction_In \<Rightarrow> POLLIN | Direction_Out \<Rightarrow> POLLOUT)"

record 's Rule =
  rl_fd :: FileDescriptor
  rl_direction :: Direction
  rl_callback :: "'s \<Rightarrow> 's res"
  rl_interest :: "'s \<Rightarrow> bool res"
  rl_cancel :: "'s \<Rightarrow> 's res"

definition Rule_service_count :: "('w, 'c) system_scheme Rule \<Rightarrow> ('w, 'c) system_scheme \<Rightarrow> 32 word res" where
  "Rule_service_count r s = rbind (fd_wrapper s (rl_fd r)) (\<lambda>w.
    Inr (if rl_direction r = Direction_In then fw_read_count w else fw_write_count w))"

definition EventLoop_add_rule ::
  "('w, 'c) system_scheme Rule list \<Rightarrow> ('w, 'c) system_scheme \<Rightarrow> ('w, 'c) system_scheme Rule \<Rightarrow>
    ('w, 'c) system_scheme Rule list \<times> ('w, 'c) system_scheme" where
  "EventLoop_add_rule rules s r = (let (fd, s) = FileDescriptor_duplicate s (rl_fd r) in (rules @ [r\<lparr>rl_fd := fd\<rparr>], s))"

section \<open>One round\<close>

datatype EventLoop_Result = EventLoop_Success | EventLoop_Timeout | EventLoop_Exit

text \<open>Erasing a rule calls its cancel function and destroys its handle.\<close>

definition EventLoop_erase :: "'w kernel \<Rightarrow> ('w, 'c) system_scheme Rule \<Rightarrow> ('w, 'c) system_scheme \<Rightarrow> ('w, 'c) system_scheme res" where
  "EventLoop_erase k r s = rbind (rl_cancel r s) (\<lambda>s. Inr (FileDescriptor_release k s (rl_fd r)))"

text \<open>The first loop: the vector of polled descriptors, the rules that stay, whether there is something to poll.\<close>

fun EventLoop_setup ::
  "'w kernel \<Rightarrow> ('w, 'c) system_scheme Rule list \<Rightarrow> ('w, 'c) system_scheme \<Rightarrow>
    (pollfd list \<times> ('w, 'c) system_scheme Rule list \<times> bool \<times> ('w, 'c) system_scheme) res" where
  "EventLoop_setup k [] s = Inr ([], [], False, s)"
| "EventLoop_setup k (this_rule # rules) s =
    rbind (fd_wrapper s (rl_fd this_rule)) (\<lambda>w.
      if rl_direction this_rule = Direction_In \<and> fw_eof w
      then rbind (EventLoop_erase k this_rule s) (\<lambda>s. EventLoop_setup k rules s)
      else if fw_closed w
      then rbind (EventLoop_erase k this_rule s) (\<lambda>s. EventLoop_setup k rules s)
      else
        rbind (rl_interest this_rule s) (\<lambda>interested.
        let pollfd = \<lparr>pf_fd = fw_fd w, pf_events = (if interested then Direction_events (rl_direction this_rule) else 0),
              pf_revents = 0\<rparr>
        in rbind (EventLoop_setup k rules s) (\<lambda>(pollfds, rules, something_to_poll, s).
          Inr (pollfd # pollfds, this_rule # rules, interested \<or> something_to_poll, s))))"

definition EventLoop_poll_error :: cpp_error where
  "EventLoop_poll_error = RuntimeError ''EventLoop: error on polled file descriptor''"

definition EventLoop_busy_wait :: cpp_error where
  "EventLoop_busy_wait = RuntimeError
     ''EventLoop: busy wait detected: callback did not read/write fd and is still interested''"

text \<open>Calling back a ready rule, with the check for a busy wait.\<close>

definition EventLoop_serve :: "('w, 'c) system_scheme Rule \<Rightarrow> ('w, 'c) system_scheme \<Rightarrow> ('w, 'c) system_scheme res" where
  "EventLoop_serve this_rule s =
    rbind (Rule_service_count this_rule s) (\<lambda>count_before.
    rbind (rl_callback this_rule s) (\<lambda>s.
    rbind (Rule_service_count this_rule s) (\<lambda>count_after.
      if count_before = count_after
      then rbind (rl_interest this_rule s) (\<lambda>interested. if interested then Inl EventLoop_busy_wait else Inr s)
      else Inr s)))"

text \<open>The second loop goes through the rules and, by a position of its own, through the vector.\<close>

fun EventLoop_dispatch ::
  "'w kernel \<Rightarrow> pollfd list \<Rightarrow> ('w, 'c) system_scheme Rule list \<Rightarrow> nat \<Rightarrow> ('w, 'c) system_scheme \<Rightarrow>
    (('w, 'c) system_scheme Rule list \<times> ('w, 'c) system_scheme) res" where
  "EventLoop_dispatch k pollfds [] idx s = Inr ([], s)"
| "EventLoop_dispatch k pollfds (this_rule # rules) idx s =
    (if length pollfds \<le> idx then Inl OutOfBounds
     else
      let this_pollfd = pollfds ! idx;
          poll_error = (pf_revents this_pollfd AND (POLLERR OR POLLNVAL) \<noteq> 0);
          poll_ready = (pf_revents this_pollfd AND pf_events this_pollfd \<noteq> 0);
          poll_hup = (pf_revents this_pollfd AND POLLHUP \<noteq> 0)
      in if poll_error then Inl EventLoop_poll_error
         else if poll_hup \<and> pf_events this_pollfd \<noteq> 0 \<and> \<not> poll_ready
         then rbind (EventLoop_erase k this_rule s) (\<lambda>s. EventLoop_dispatch k pollfds rules (Suc idx) s)
         else
          rbind (if poll_ready then EventLoop_serve this_rule s else Inr s) (\<lambda>s.
          rbind (EventLoop_dispatch k pollfds rules (Suc idx) s) (\<lambda>(rules, s).
            Inr (this_rule # rules, s))))"

definition EINTR :: int where
  "EINTR = 4"

text \<open>
  The call of \<open>poll\<close>: what ends the round, if something does, and the vector with the returned
  events. The error of a failed call is caught; only an interrupted one ends the round.
\<close>

definition EventLoop_poll ::
  "'w kernel \<Rightarrow> pollfd list \<Rightarrow> int \<Rightarrow> ('w, 'c) system_scheme \<Rightarrow> EventLoop_Result option \<times> pollfd list \<times> ('w, 'c) system_scheme" where
  "EventLoop_poll k pollfds timeout_ms s =
    (let ((return_value, errno, revents), w) = sys_poll k pollfds timeout_ms (sy_world s) in
      (case SystemCall ''poll'' return_value errno 0 of
         Inr n \<Rightarrow> if n = 0 then Some EventLoop_Timeout else None
       | Inl e \<Rightarrow> if e = unix_error ''poll'' EINTR then Some EventLoop_Exit else None,
       map (\<lambda>i. (pollfds ! i)\<lparr>pf_revents := revents i\<rparr>) [0..<length pollfds],
       s\<lparr>sy_world := w\<rparr>))"

definition EventLoop_wait_next_event ::
  "'w kernel \<Rightarrow> ('w, 'c) system_scheme Rule list \<Rightarrow> int \<Rightarrow> ('w, 'c) system_scheme \<Rightarrow>
    (EventLoop_Result \<times> ('w, 'c) system_scheme Rule list \<times> ('w, 'c) system_scheme) res" where
  "EventLoop_wait_next_event k rules timeout_ms s =
    rbind (EventLoop_setup k rules s) (\<lambda>(pollfds, rules, something_to_poll, s).
      if \<not> something_to_poll then Inr (EventLoop_Exit, rules, s)
      else
        let (ended, pollfds, s) = EventLoop_poll k pollfds timeout_ms s in
        case ended of
          Some result \<Rightarrow> Inr (result, rules, s)
        | None \<Rightarrow> rbind (EventLoop_dispatch k pollfds rules 0 s) (\<lambda>(rules, s). Inr (EventLoop_Success, rules, s)))"

lemmas [sponge_eval] = Direction_events_def Rule_service_count_def EventLoop_add_rule_def EventLoop_erase_def
  EventLoop_poll_error_def EventLoop_busy_wait_def EventLoop_serve_def EINTR_def EventLoop_poll_def EventLoop_wait_next_event_def

section \<open>Positions in step\<close>

text \<open>
  The second loop with each rule beside its own descriptor, without positions, for any way to call back
  a ready rule.
\<close>

fun EventLoop_serve_all ::
  "'w kernel \<Rightarrow> (('w, 'c) system_scheme Rule \<Rightarrow> ('w, 'c) system_scheme \<Rightarrow> ('w, 'c) system_scheme res) \<Rightarrow>
    (('w, 'c) system_scheme Rule \<times> pollfd) list \<Rightarrow> ('w, 'c) system_scheme \<Rightarrow>
    (('w, 'c) system_scheme Rule list \<times> ('w, 'c) system_scheme) res" where
  "EventLoop_serve_all k serve [] s = Inr ([], s)"
| "EventLoop_serve_all k serve ((r, p) # rps) s =
    (if pf_revents p AND (POLLERR OR POLLNVAL) \<noteq> 0 then Inl EventLoop_poll_error
     else if pf_revents p AND POLLHUP \<noteq> 0 \<and> pf_events p \<noteq> 0 \<and> pf_revents p AND pf_events p = 0
     then rbind (EventLoop_erase k r s) (\<lambda>s. EventLoop_serve_all k serve rps s)
     else
      rbind (if pf_revents p AND pf_events p \<noteq> 0 then serve r s else Inr s) (\<lambda>s.
      rbind (EventLoop_serve_all k serve rps s) (\<lambda>(rules, s). Inr (r # rules, s))))"

definition EventLoop_reference ::
  "'w kernel \<Rightarrow> (('w, 'c) system_scheme Rule \<Rightarrow> ('w, 'c) system_scheme \<Rightarrow> ('w, 'c) system_scheme res) \<Rightarrow>
    ('w, 'c) system_scheme Rule list \<Rightarrow> int \<Rightarrow> ('w, 'c) system_scheme \<Rightarrow>
    (EventLoop_Result \<times> ('w, 'c) system_scheme Rule list \<times> ('w, 'c) system_scheme) res" where
  "EventLoop_reference k serve rules timeout_ms s =
    rbind (EventLoop_setup k rules s) (\<lambda>(pollfds, rules, something_to_poll, s).
      if \<not> something_to_poll then Inr (EventLoop_Exit, rules, s)
      else
        let (ended, pollfds, s) = EventLoop_poll k pollfds timeout_ms s in
        case ended of
          Some result \<Rightarrow> Inr (result, rules, s)
        | None \<Rightarrow> rbind (EventLoop_serve_all k serve (zip rules pollfds) s) (\<lambda>(rules, s). Inr (EventLoop_Success, rules, s)))"

lemma EventLoop_dispatch_eq:
  "idx + length rules \<le> length pollfds \<Longrightarrow>
    EventLoop_dispatch k pollfds rules idx s = EventLoop_serve_all k EventLoop_serve (zip rules (drop idx pollfds)) s"
proof (induction rules arbitrary: idx s)
  case (Cons r rules)
  then have "idx < length pollfds" "Suc idx + length rules \<le> length pollfds"
    by simp_all
  moreover from this(2) have "EventLoop_dispatch k pollfds rules (Suc idx) =
      EventLoop_serve_all k EventLoop_serve (zip rules (drop (Suc idx) pollfds))"
    by (intro ext Cons.IH)
  ultimately show ?case
    by (simp add: Cons_nth_drop_Suc [symmetric] Let_def)
qed simp

text \<open>Each surviving rule has an entry of its own, which asks for its direction or for nothing.\<close>

definition EventLoop_polled :: "('w, 'c) system_scheme Rule list \<Rightarrow> pollfd list \<Rightarrow> bool" where
  "EventLoop_polled rules pollfds \<longleftrightarrow>
    list_all2 (\<lambda>r p. pf_events p = 0 \<or> pf_events p = Direction_events (rl_direction r)) rules pollfds"

lemma EventLoop_setup_polled:
  "whenever (EventLoop_setup k rules s) (\<lambda>(pollfds, rules', something, s').
    EventLoop_polled rules' pollfds \<and> set rules' \<subseteq> set rules)"
proof (induction rules arbitrary: s)
  case (Cons r rules)
  show ?case
    by (subst whenever_def) (auto simp: rbind_Inr_iff Let_def EventLoop_polled_def split: if_splits
      dest!: wheneverD [OF Cons.IH])
qed (simp add: EventLoop_polled_def)

lemma EventLoop_wait_eq_reference:
  "EventLoop_wait_next_event k rules timeout_ms s = EventLoop_reference k EventLoop_serve rules timeout_ms s"
proof (cases "EventLoop_setup k rules s")
  case (Inr x)
  obtain pollfds rules' something s' where x: "x = (pollfds, rules', something, s')"
    by (cases x) auto
  have "length rules' = length pollfds"
    using wheneverD [OF EventLoop_setup_polled Inr] by (auto simp: x EventLoop_polled_def dest: list_all2_lengthD)
  then show ?thesis
    by (simp add: EventLoop_wait_next_event_def EventLoop_reference_def Inr x EventLoop_poll_def EventLoop_dispatch_eq
      split: prod.split option.split)
qed (simp add: EventLoop_wait_next_event_def EventLoop_reference_def)

section \<open>Clients that keep the contract\<close>

text \<open>
  The documented duty of a callback: it reads or writes its descriptor, or the rule is no longer
  interested afterwards.
\<close>

definition Rule_serviced :: "('w, 'c) system_scheme Rule \<Rightarrow> ('w, 'c) system_scheme \<Rightarrow> ('w, 'c) system_scheme \<Rightarrow> bool" where
  "Rule_serviced r s s' \<longleftrightarrow> Rule_service_count r s \<noteq> Rule_service_count r s' \<or> rl_interest r s' = Inr False"

locale event_client =
  fixes k :: "'w kernel"
    and rules :: "('w, 'c) system_scheme Rule list"
    and inv :: "('w, 'c) system_scheme \<Rightarrow> bool"
  assumes callback_ok: "r \<in> set rules \<Longrightarrow> inv s \<Longrightarrow> whenever (rl_callback r s) (\<lambda>s'. inv s' \<and> Rule_serviced r s s')"
    and cancel_ok: "r \<in> set rules \<Longrightarrow> inv s \<Longrightarrow> whenever (rl_cancel r s) inv"
    and descriptor_ok: "r \<in> set rules \<Longrightarrow> inv s \<Longrightarrow> rl_fd r < length (sy_fds s)"
    and release_ok: "r \<in> set rules \<Longrightarrow> inv s \<Longrightarrow> inv (FileDescriptor_release k s (rl_fd r))"
    and poll_ok: "inv s \<Longrightarrow> inv (s\<lparr>sy_world := w\<rparr>)"
begin

lemma erase_ok: "r \<in> set rules \<Longrightarrow> inv s \<Longrightarrow> whenever (EventLoop_erase k r s) inv"
  unfolding EventLoop_erase_def whenever_simps
  by (rule whenever_mono [OF cancel_ok]) (auto intro: release_ok)

lemma service_count_ok: "r \<in> set rules \<Longrightarrow> inv s \<Longrightarrow> \<exists>n. Rule_service_count r s = Inr n"
  using descriptor_ok [of r s] by (simp add: Rule_service_count_def fd_wrapper_def)

lemma serve_eq:
  assumes "r \<in> set rules" "inv s"
  shows "EventLoop_serve r s = rl_callback r s"
proof -
  obtain n where n: "Rule_service_count r s = Inr n"
    using service_count_ok [OF assms] by blast
  show ?thesis
  proof (cases "rl_callback r s")
    case (Inr s')
    then have s': "inv s'" "Rule_serviced r s s'"
      using wheneverD [OF callback_ok [OF assms]] by auto
    then obtain m where "Rule_service_count r s' = Inr m"
      using service_count_ok [OF assms(1)] by blast
    then show ?thesis
      using s'(2) by (simp add: EventLoop_serve_def Inr n Rule_serviced_def)
  qed (simp add: EventLoop_serve_def n)
qed

lemma serve_all_ok:
  assumes "set (map fst rps) \<subseteq> set rules" "inv s"
  shows "EventLoop_serve_all k EventLoop_serve rps s = EventLoop_serve_all k rl_callback rps s \<and>
    whenever (EventLoop_serve_all k rl_callback rps s) (\<lambda>(rs, s'). inv s' \<and> set rs \<subseteq> set rules)"
  using assms
proof (induction rps arbitrary: s)
  case (Cons rp rps)
  obtain r p where rp: "rp = (r, p)"
    by fastforce
  then have r: "r \<in> set rules" "set (map fst rps) \<subseteq> set rules"
    using Cons.prems(1) by auto
  note rest = Cons.IH [OF r(2)]
  have step: "rbind m (EventLoop_serve_all k EventLoop_serve rps) = rbind m (EventLoop_serve_all k rl_callback rps) \<and>
      rbind m (\<lambda>s. rbind (EventLoop_serve_all k EventLoop_serve rps s) (\<lambda>(rs, s). Inr (r # rs, s))) =
        rbind m (\<lambda>s. rbind (EventLoop_serve_all k rl_callback rps s) (\<lambda>(rs, s). Inr (r # rs, s))) \<and>
      whenever (rbind m (EventLoop_serve_all k rl_callback rps)) (\<lambda>(rs, s'). inv s' \<and> set rs \<subseteq> set rules) \<and>
      whenever (rbind m (\<lambda>s. rbind (EventLoop_serve_all k rl_callback rps s) (\<lambda>(rs, s). Inr (r # rs, s))))
        (\<lambda>(rs, s'). inv s' \<and> set rs \<subseteq> set rules)"
    if m: "whenever m inv" for m
  proof (cases m)
    case (Inr s')
    with m have "inv s'"
      by simp
    from rest [OF this] show ?thesis
      using r(1) by (auto simp: Inr elim!: whenever_mono)
  qed simp
  define m where "m = (if pf_revents p AND pf_events p \<noteq> 0 then rl_callback r s else Inr s)"
  define m' where "m' = EventLoop_erase k r s"
  have "whenever m inv"
    unfolding m_def using whenever_mono [OF callback_ok [OF r(1) Cons.prems(2)]] Cons.prems(2) by auto
  moreover have "whenever m' inv"
    unfolding m'_def by (rule erase_ok [OF r(1) Cons.prems(2)])
  ultimately show ?case
    using step [of m] step [of m']
    unfolding rp EventLoop_serve_all.simps serve_eq [OF r(1) Cons.prems(2)] m_def [symmetric] m'_def [symmetric]
    by (simp del: whenever_simps(3))
qed simp

lemma setup_ok:
  "set rs \<subseteq> set rules \<Longrightarrow> inv s \<Longrightarrow>
    whenever (EventLoop_setup k rs s) (\<lambda>(pollfds, rs', something, s'). inv s' \<and> set rs' \<subseteq> set rules)"
proof (induction rs arbitrary: s)
  case (Cons r rs)
  then have r: "r \<in> set rules" "set rs \<subseteq> set rules"
    by auto
  show ?case
    using Cons.prems(2) r(1)
    by (subst whenever_def) (auto simp: rbind_Inr_iff Let_def split: if_splits
      dest!: wheneverD [OF Cons.IH [OF r(2)], rotated] wheneverD [OF erase_ok [OF r(1)], rotated])
qed simp

text \<open>The check for a busy wait never strikes: the loop could do without it.\<close>

lemma wait_ok:
  assumes "set rs \<subseteq> set rules" "inv s"
  shows "EventLoop_wait_next_event k rs timeout s = EventLoop_reference k rl_callback rs timeout s"
    "whenever (EventLoop_wait_next_event k rs timeout s) (\<lambda>(result, rs', s'). inv s' \<and> set rs' \<subseteq> set rules)"
proof -
  have "EventLoop_wait_next_event k rs timeout s = EventLoop_reference k rl_callback rs timeout s \<and>
    whenever (EventLoop_wait_next_event k rs timeout s) (\<lambda>(result, rs', s'). inv s' \<and> set rs' \<subseteq> set rules)"
    unfolding EventLoop_wait_eq_reference
  proof (cases "EventLoop_setup k rs s")
    case (Inr x)
    obtain pollfds rs' something s' where x: "x = (pollfds, rs', something, s')"
      by (cases x) auto
    obtain rv errno revents w where "sys_poll k pollfds timeout (sy_world s') = ((rv, errno, revents), w)"
      by (metis prod.exhaust_sel)
    then obtain ended pollfds' where poll: "EventLoop_poll k pollfds timeout s' = (ended, pollfds', s'\<lparr>sy_world := w\<rparr>)"
      by (simp add: EventLoop_poll_def)
    have s': "inv (s'\<lparr>sy_world := w\<rparr>)" "set (map fst (zip rs' pollfds')) \<subseteq> set rules" "inv s'" "set rs' \<subseteq> set rules"
      using wheneverD [OF setup_ok [OF assms] Inr] by (auto simp: x poll_ok dest: set_zip_leftD)
    from serve_all_ok [OF s'(2,1)] show "EventLoop_reference k EventLoop_serve rs timeout s = EventLoop_reference k rl_callback rs timeout s \<and>
        whenever (EventLoop_reference k EventLoop_serve rs timeout s) (\<lambda>(result, rs', s'). inv s' \<and> set rs' \<subseteq> set rules)"
      using s'(1,3,4) by (auto simp: EventLoop_reference_def Inr x poll split: option.split elim!: whenever_mono)
  qed (simp add: EventLoop_reference_def)
  then show "EventLoop_wait_next_event k rs timeout s = EventLoop_reference k rl_callback rs timeout s"
    "whenever (EventLoop_wait_next_event k rs timeout s) (\<lambda>(result, rs', s'). inv s' \<and> set rs' \<subseteq> set rules)"
    by blast+
qed

end

section \<open>Properties\<close>


text \<open>C40: a failed \<open>poll\<close> is taken for success. When \<open>poll\<close> fails with an error other than an interruption
  and returns no events, \<open>wait_next_event\<close> does not throw, as it is documented to: it reports success, although
  no callback was called.\<close>

theorem EventLoop_ignores_poll_error:
  assumes "EventLoop_setup k rules s = Inr (pollfds, rules', True, s')"
    and "sys_poll k pollfds timeout_ms (sy_world s') = ((- 1, errno, \<lambda>i. 0), w)" "errno \<noteq> 0" "errno \<noteq> EINTR"
  shows "EventLoop_wait_next_event k rules timeout_ms s = Inr (EventLoop_Success, rules', s'\<lparr>sy_world := w\<rparr>)"
proof -
  have quiet: "EventLoop_serve_all k EventLoop_serve (zip rs (map (\<lambda>i. (f i)\<lparr>pf_revents := 0\<rparr>) is)) t = Inr (map fst (zip rs is), t)"
    for rs f "is" and t :: "('a, 'b) system_scheme"
    by (induction rs arbitrary: "is") (case_tac "is"; simp)+
  have len: "length rules' = length pollfds"
    using wheneverD [OF EventLoop_setup_polled assms(1)] by (auto simp: EventLoop_polled_def dest: list_all2_lengthD)
  have "unix_error ''poll'' errno \<noteq> unix_error ''poll'' EINTR"
    using assms(4) by (simp add: unix_error_def)
  then show ?thesis
    using assms(1-3) len by (simp add: EventLoop_wait_next_event_def EventLoop_poll_def SystemCall_def EventLoop_dispatch_eq quiet)
qed

theorem EventLoop_ignores_poll_error_witness:
  "let k = memory_kernel\<lparr>sys_poll := \<lambda>_ _ w. ((- 1, 12, \<lambda>_. 0), w)\<rparr>;
      fd = \<lparr>fw_fd = 5, fw_eof = False, fw_closed = False, fw_read_count = 0, fw_write_count = 0, fw_use_count = 2\<rparr>;
      s = \<lparr>sy_world = memory_start, sy_fds = [fd]\<rparr>;
      r = \<lparr>rl_fd = 0, rl_direction = Direction_In, rl_callback = \<lambda>_. Inl NullDeref, rl_interest = \<lambda>_. Inr True, rl_cancel = Inr\<rparr>
    in EventLoop_wait_next_event k [r] 10 s = Inr (EventLoop_Success, [r], s)"
proof -
  let ?k = "memory_kernel\<lparr>sys_poll := \<lambda>_ _ w. ((- 1, 12, \<lambda>_. 0), w)\<rparr>"
  let ?s = "\<lparr>sy_world = memory_start,
    sy_fds = [\<lparr>fw_fd = 5, fw_eof = False, fw_closed = False, fw_read_count = 0, fw_write_count = 0, fw_use_count = 2\<rparr>]\<rparr>"
  let ?r = "\<lparr>rl_fd = 0, rl_direction = Direction_In, rl_callback = \<lambda>_. Inl NullDeref, rl_interest = \<lambda>_. Inr True, rl_cancel = Inr\<rparr>"
  let ?p = "\<lparr>pf_fd = 5, pf_events = POLLIN, pf_revents = 0\<rparr>"
  have "EventLoop_setup ?k [?r] ?s = Inr ([?p], [?r], True, ?s)"
    by (simp add: fd_wrapper_def Direction_events_def)
  moreover have "sys_poll ?k [?p] 10 (sy_world ?s) = ((- 1, 12, \<lambda>i. 0), memory_start)" "(12 :: int) \<noteq> 0" "12 \<noteq> EINTR"
    by (simp_all add: EINTR_def)
  ultimately show ?thesis
    using EventLoop_ignores_poll_error [of ?k "[?r]" ?s "[?p]" "[?r]" ?s 10 12 memory_start] by (simp add: Let_def)
qed

end
