(* ===== verification/Spec2Isabelle.thy ===== *)
theory Spec2Isabelle
  imports Packet_Text Router TCP_Connection TCP_Delivery FD_Adapters Event_Loop
begin

text \<open>
  A verification library for the Sponge TCP/IP stack (under \<open>src/libsponge\<close>).
\<close>

end
